(* ===== verification/Prelude.thy ===== *)
theory Prelude
  imports Main "HOL-Library.Word"
begin

unbundle bit_operations_syntax

text \<open>
  Shared vocabulary of the development: the machine integer types of the C code, the
  outcome type of a C computation, the error-propagating composition used by every
  component, little-endian byte encodings of machine words (the hosts the program
  is deployed on are little-endian), checked reads from byte buffers and the lemma
  collections that carry the component proofs.
\<close>

section \<open>Machine integers and outcomes\<close>

type_synonym u8 = "8 word"
type_synonym u16 = "16 word"
type_synonym u32 = "32 word"
type_synonym u64 = "64 word"
type_synonym bytes = "u8 list"

text \<open>
  What can go wrong in the C code besides an error code: a failed assertion, a call of
  \<open>exit(1)\<close>, a null dereference, an access outside a buffer, a use of a freed block,
  a second \<open>free\<close>, a lock of a mutex its holder already holds (the default pthread
  mutex blocks for ever), undefined arithmetic, a \<open>memcpy\<close> of an object onto itself, and, in
  specifications only, the use of an object that must be reset first.
\<close>

datatype c_error =
    Assert_failed
  | Exit_called
  | Null_deref
  | Out_of_bounds
  | Use_after_free
  | Double_free
  | Self_deadlock
  | Undefined_arith
  | Overlapping_copy
  | Not_reset

type_synonym 'a res = "c_error + 'a"

definition bindr :: "'a res \<Rightarrow> ('a \<Rightarrow> 'b res) \<Rightarrow> 'b res" where
  "bindr r f = (case r of Inl e \<Rightarrow> Inl e | Inr x \<Rightarrow> f x)"

definition assert_c :: "bool \<Rightarrow> unit res" where
  "assert_c b = (if b then Inr () else Inl Assert_failed)"

named_theorems res_simps "evaluation of the outcome type"
named_theorems bound_simps "bounds of machine integers"

lemma bindr_Inr [simp, res_simps]: "bindr (Inr x) f = f x"
  by (simp add: bindr_def)

lemma bindr_Inl [simp, res_simps]: "bindr (Inl e) f = Inl e"
  by (simp add: bindr_def)

lemma assert_c_True [simp, res_simps]: "assert_c True = Inr ()"
  by (simp add: assert_c_def)

lemma assert_c_False [simp, res_simps]: "assert_c False = Inl Assert_failed"
  by (simp add: assert_c_def)

lemma bindr_eq_Inr: "bindr r f = Inr y \<longleftrightarrow> (\<exists>x. r = Inr x \<and> f x = Inr y)"
  by (cases r) auto

lemma bindrE [elim!]:
  assumes "bindr r f = Inr y"
  obtains x where "r = Inr x" and "f x = Inr y"
  using assms by (auto simp: bindr_eq_Inr)

lemma assert_c_eq_Inr [simp]: "assert_c b = Inr x \<longleftrightarrow> b"
  by (simp add: assert_c_def)

lemma bindr_assoc: "bindr (bindr r f) g = bindr r (\<lambda>x. bindr (f x) g)"
  by (cases r) auto

lemma bindr_cong [fundef_cong]:
  assumes "r = r'" and "\<And>x. r' = Inr x \<Longrightarrow> f x = f' x"
  shows "bindr r f = bindr r' f'"
  using assms by (cases r') auto

section \<open>Little-endian encodings\<close>

primrec le_enc :: "nat \<Rightarrow> 'a::len word \<Rightarrow> bytes" where
  "le_enc 0 w = []"
| "le_enc (Suc n) w = ucast w # le_enc n (drop_bit 8 w)"

fun le_dec :: "bytes \<Rightarrow> 'a::len word" where
  "le_dec [] = 0"
| "le_dec (b # bs) = ucast b OR push_bit 8 (le_dec bs)"

lemma length_le_enc [simp]: "length (le_enc n w) = n"
  by (induction n arbitrary: w) simp_all

lemma le_dec_le_enc_take_bit: "le_dec (le_enc n w) = take_bit (8 * n) w"
proof (induction n arbitrary: w)
  case 0
  then show ?case by simp
next
  case (Suc n)
  show ?case
    by (rule bit_eqI) (auto simp: Suc.IH bit_simps)
qed

lemma take_bit_full_word: "LENGTH('a) \<le> n \<Longrightarrow> take_bit n (w :: 'a::len word) = w"
  by (rule bit_eqI) (auto simp: bit_simps dest: bit_imp_le_length)

lemma le_dec_le_enc [simp]:
  fixes w :: "'a::len word"
  assumes "LENGTH('a) \<le> 8 * n"
  shows "le_dec (le_enc n w) = w"
  using assms by (simp add: le_dec_le_enc_take_bit take_bit_full_word)

lemma le_enc_inj:
  fixes v w :: "'a::len word"
  assumes "LENGTH('a) \<le> 8 * n" and "le_enc n v = le_enc n w"
  shows "v = w"
  using assms by (metis le_dec_le_enc)

lemma le_enc_le_dec:
  assumes "length bs = n" and "8 * n \<le> LENGTH('a)"
  shows "le_enc n (le_dec bs :: 'a::len word) = bs"
  using assms
proof (induction bs arbitrary: n)
  case Nil
  then show ?case by simp
next
  case (Cons b bs)
  then obtain m where n: "n = Suc m" and m: "length bs = m" by auto
  with Cons.prems have bound: "8 + 8 * m \<le> LENGTH('a)" by simp
  have low: "ucast (ucast b OR push_bit 8 (le_dec bs :: 'a word)) = b"
    using bound by (intro bit_eqI) (auto simp: bit_simps)
  have dec_small: "take_bit (8 * m) (le_dec bs :: 'a word) = le_dec bs"
    using Cons.IH [of m] m bound by (metis add_leD2 le_dec_le_enc_take_bit)
  have high: "drop_bit 8 (ucast b OR push_bit 8 (le_dec bs :: 'a word)) = le_dec bs"
  proof (rule bit_eqI)
    fix i
    have "bit (le_dec bs :: 'a word) i \<Longrightarrow> i < 8 * m"
      using dec_small by (metis bit_take_bit_iff)
    then show "bit (drop_bit 8 (ucast b OR push_bit 8 (le_dec bs :: 'a word))) i
        = bit (le_dec bs :: 'a word) i"
      using bound by (auto simp: bit_simps dest: bit_imp_le_length)
  qed
  show ?case
    using Cons.IH [of m] m bound by (simp only: n le_enc.simps le_dec.simps low high)
qed

section \<open>Checked reads from a byte buffer\<close>

definition rd :: "nat \<Rightarrow> bytes \<Rightarrow> nat \<Rightarrow> 'a::len word res" where
  "rd n bs off =
     (if off + n \<le> length bs then Inr (le_dec (take n (drop off bs))) else Inl Out_of_bounds)"

definition rd_bytes :: "bytes \<Rightarrow> nat \<Rightarrow> nat \<Rightarrow> bytes res" where
  "rd_bytes bs off n =
     (if off + n \<le> length bs then Inr (take n (drop off bs)) else Inl Out_of_bounds)"

text \<open>A C string starts at an offset and ends before the first null byte, which must lie in
  the buffer.\<close>

definition c_str :: "bytes \<Rightarrow> nat \<Rightarrow> bytes res" where
  "c_str bs off =
     (if 0 \<in> set (drop off bs) then Inr (takeWhile (\<lambda>b. b \<noteq> 0) (drop off bs))
      else Inl Out_of_bounds)"

text \<open>A write of some bytes into a buffer.\<close>

definition memcpy_into :: "bytes \<Rightarrow> nat \<Rightarrow> bytes \<Rightarrow> bytes res" where
  "memcpy_into dst off src =
     (if off + length src \<le> length dst
      then Inr (take off dst @ src @ drop (off + length src) dst) else Inl Out_of_bounds)"

text \<open>The same without the check, for code that keeps its copies inside the buffer.\<close>

definition put :: "bytes \<Rightarrow> nat \<Rightarrow> bytes \<Rightarrow> bytes" where
  "put dst off src = take off dst @ src @ drop (off + length src) dst"

lemma length_put: "off + length src \<le> length dst \<Longrightarrow> length (put dst off src) = length dst"
  by (simp add: put_def)

lemma drop_put: "off + length src \<le> k \<Longrightarrow> k \<le> length dst \<Longrightarrow> drop k (put dst off src) = drop k dst"
  by (simp add: put_def)

lemma take_put: "off \<le> length dst \<Longrightarrow> take (off + length src) (put dst off src) = take off dst @ src"
  by (simp add: put_def)

lemma memcpy_into_length: "memcpy_into dst off src = Inr dst' \<Longrightarrow> length dst' = length dst"
  by (auto simp: memcpy_into_def split: if_splits)

lemma rd_at_prefix:
  assumes "length pre = off" and "LENGTH('a) \<le> 8 * n"
  shows "rd n (pre @ le_enc n (w :: 'a::len word) @ post) off = Inr w"
  using assms by (simp add: rd_def)

lemma rd_append:
  "off + n \<le> length bs \<Longrightarrow> rd n (bs @ cs) off = rd n bs off"
  by (simp add: rd_def)

lemma rd_shift: "rd n (pre @ bs) (length pre + off) = rd n bs off"
  by (simp add: rd_def)

lemma rd_bytes_shift: "rd_bytes (pre @ bs) (length pre + off) n = rd_bytes bs off n"
  by (simp add: rd_bytes_def)

lemma c_str_shift: "c_str (pre @ bs) (length pre + off) = c_str bs off"
  by (simp add: c_str_def)

lemma c_str_at:
  assumes "0 \<notin> set s" and "length pre = off"
  shows "c_str (pre @ s @ 0 # post) off = Inr s"
proof -
  have "takeWhile (\<lambda>b. b \<noteq> 0) (s @ 0 # post) = s"
    using assms(1) by (induction s) auto
  with assms(2) show ?thesis by (auto simp: c_str_def)
qed

lemma rd_bytes_at:
  "length pre = off \<Longrightarrow> length v = n \<Longrightarrow> rd_bytes (pre @ v @ post) off n = Inr v"
  by (simp add: rd_bytes_def)

section \<open>Machine integer bounds\<close>

lemma unat_u64_bound [bound_simps]: "unat (x :: u64) < 2 ^ 64"
  using unsigned_less [of x] by simp

lemma unat_u32_bound [bound_simps]: "unat (x :: u32) < 2 ^ 32"
  using unsigned_less [of x] by simp

lemma unat_ucast_u32 [simp]: "unat (ucast (x :: u32) :: u64) = unat x"
proof -
  have "take_bit 64 (unat x) = unat x"
    using unat_u32_bound [of x] by (intro take_bit_nat_eq_self) simp
  then show ?thesis by (simp add: unsigned_ucast_eq)
qed

lemma ucast_of_nat_u32: "ucast (of_nat n :: u64) = (of_nat n :: u32)"
  by (rule bit_eqI) (auto simp: bit_simps)

lemma unat_add_u64:
  assumes "unat (a :: u64) + unat b < 2 ^ 64"
  shows "unat (a + b) = unat a + unat b"
  using assms by (simp add: unat_word_ariths)

end
