(* ===== verification/Globals.thy ===== *)
theory Globals
  imports Prelude
begin

text \<open>
  \<open>include/globals.h\<close> and \<open>src/globals.c\<close>: the operation codes, the alignment
  arithmetic every buffer walk rests on, the file size helper and the sleep helper.
\<close>

section \<open>Constants and operation codes\<close>

definition MAX_KEY_LEN :: u64 where
  "MAX_KEY_LEN = 65535"

definition MAX_VAL_LEN :: u64 where
  "MAX_VAL_LEN = 4294967295"

definition CMDBUF_SIZE :: u64 where
  "CMDBUF_SIZE = push_bit 26 1"

text \<open>\<open>kvs_op_t\<close>: the enumeration is stored in four bytes; a stored value outside the
  enumerators is kept as it is.\<close>

datatype kvs_op_t = CMD_NOP | CMD_GET | CMD_SET | CMD_DELETE | CMD_other u32

fun kvs_op_code :: "kvs_op_t \<Rightarrow> u32" where
  "kvs_op_code CMD_NOP = 0"
| "kvs_op_code CMD_GET = 1"
| "kvs_op_code CMD_SET = 2"
| "kvs_op_code CMD_DELETE = 3"
| "kvs_op_code (CMD_other n) = n"

definition kvs_op_of :: "u32 \<Rightarrow> kvs_op_t" where
  "kvs_op_of n =
     (if n = 0 then CMD_NOP else if n = 1 then CMD_GET else if n = 2 then CMD_SET
      else if n = 3 then CMD_DELETE else CMD_other n)"

lemma kvs_op_code_of [simp]: "kvs_op_code (kvs_op_of n) = n"
  by (simp add: kvs_op_of_def)

lemma kvs_op_of_code:
  "op \<in> {CMD_NOP, CMD_GET, CMD_SET, CMD_DELETE} \<Longrightarrow> kvs_op_of (kvs_op_code op) = op"
  by (auto simp: kvs_op_of_def)

section \<open>Alignment\<close>

definition jump_to_alignment :: "u64 \<Rightarrow> u64 \<Rightarrow> u64" where
  "jump_to_alignment ptr alignment =
     (let addr = ptr; aligned_addr = (addr + alignment - 1) AND NOT (alignment - 1)
      in aligned_addr)"

lemma and_not_mask_unat:
  fixes x :: u64
  shows "unat (x AND NOT (mask k)) = unat x div 2 ^ k * 2 ^ k"
proof -
  have "x AND NOT (mask k) = push_bit k (drop_bit k x)"
    by (rule bit_eqI) (auto simp: bit_simps dest: bit_imp_le_length)
  moreover have "unat (drop_bit k x) = unat x div 2 ^ k"
    by (metis unat_drop_bit_eq drop_bit_eq_div)
  moreover have "unat x div 2 ^ k * 2 ^ k < 2 ^ 64"
    using unat_u64_bound [of x] by (meson div_times_less_eq_dividend le_less_trans)
  moreover have "unat (push_bit k (drop_bit k x)) = take_bit 64 (push_bit k (unat (drop_bit k x)))"
    by (simp only: unsigned_push_bit_eq) simp
  ultimately show ?thesis
    by (simp only: push_bit_eq_mult [where 'a = nat] take_bit_nat_eq_self)
qed

lemma jump_to_alignment_pow2:
  assumes k: "k < 64" and fits: "unat p + 2 ^ k - 1 < 2 ^ 64"
  shows "unat (jump_to_alignment p (2 ^ k)) = (unat p + 2 ^ k - 1) div 2 ^ k * 2 ^ k"
proof -
  have m: "(2 ^ k - 1 :: u64) = mask k"
    by (simp add: mask_eq_exp_minus_1)
  have low: "unat (2 ^ k - 1 :: u64) = 2 ^ k - 1"
  proof -
    have "unat (2 ^ k :: u64) = 2 ^ k"
      using k unat_of_nat [of "2 ^ k", where 'a = 64]
        power_strict_increasing [of k 64 "2 :: nat"] by simp
    then show ?thesis
      by (simp add: unat_sub_if_size word_le_nat_alt)
  qed
  have pos: "1 \<le> (2 :: nat) ^ k" by simp
  have "unat (p + (2 ^ k - 1)) = unat p + unat (2 ^ k - 1 :: u64)"
    using fits low pos by (intro unat_add_u64) linarith
  then have "unat (p + 2 ^ k - 1) = unat p + 2 ^ k - 1"
    using low pos by (simp add: add_diff_eq)
  then show ?thesis
    by (simp add: jump_to_alignment_def m and_not_mask_unat)
qed

lemma jump_to_alignment_4:
  assumes "unat p + 3 < 2 ^ 64"
  shows "unat (jump_to_alignment p 4) = (unat p + 3) div 4 * 4"
  using jump_to_alignment_pow2 [of 2 p] assms by simp

lemma jump_to_alignment_8:
  assumes "unat p + 7 < 2 ^ 64"
  shows "unat (jump_to_alignment p 8) = (unat p + 7) div 8 * 8"
  using jump_to_alignment_pow2 [of 3 p] assms by simp

section \<open>File size and sleep\<close>

text \<open>A stdio stream: the length of the file and the position of the stream.\<close>

record c_file =
  fl_length :: nat
  fl_pos :: nat

text \<open>\<open>fseek f 0 whence\<close>: the C library accepts \<open>SEEK_SET\<close> = 0, \<open>SEEK_CUR\<close> = 1 and
  \<open>SEEK_END\<close> = 2 and fails on every other value, leaving the position alone.\<close>

definition fseek0 :: "c_file \<Rightarrow> nat \<Rightarrow> c_file" where
  "fseek0 f whence =
     (if whence = 0 then f\<lparr>fl_pos := 0\<rparr>
      else if whence = 2 then f\<lparr>fl_pos := fl_length f\<rparr> else f)"

definition fsizeof :: "c_file \<Rightarrow> u64 \<times> c_file" where
  "fsizeof f =
     (let cur_pos = fl_pos f;
          f1 = fseek0 f 2;
          len = fl_pos f1;
          f2 = fseek0 f1 cur_pos
      in (of_nat len, f2))"

text \<open>\<open>sleep_milisec\<close> fills a \<open>timespec\<close> and calls \<open>nanosleep\<close>, which rejects a
  nanosecond field outside 0 .. 999999999 and then returns at once.\<close>

record timespec =
  tv_sec :: u64
  tv_nsec :: u64

definition nanosleep_accepts :: "timespec \<Rightarrow> bool" where
  "nanosleep_accepts ts \<longleftrightarrow> unat (tv_nsec ts) \<le> 999999999"

definition sleep_milisec :: "u64 \<Rightarrow> timespec" where
  "sleep_milisec miliseconds = \<lparr>tv_sec = 0, tv_nsec = miliseconds * 1000000\<rparr>"

end
