(* ===== verification/XXH3.thy ===== *)
theory XXH3
  imports Globals
begin

text \<open>
  \<open>include/xxhash.h\<close>, first part: constants, reads, rotations, the long multiplication, and the
  128-bit hash of inputs of up to 240 bytes, on little-endian hosts with 64-bit pointers. The
  lemmas show that the portable multiplication computes the same product as the one with the
  compiler's 128-bit type, that the mixing steps are bijective, and that the hash is injective on
  inputs of eight bytes.
\<close>

section \<open>Constants\<close>

datatype XXH_errorcode = XXH_OK | XXH_ERROR

definition XXH_PRIME32_1 :: u32 where "XXH_PRIME32_1 = 0x9E3779B1"
definition XXH_PRIME32_2 :: u32 where "XXH_PRIME32_2 = 0x85EBCA77"
definition XXH_PRIME32_3 :: u32 where "XXH_PRIME32_3 = 0xC2B2AE3D"
definition XXH_PRIME32_4 :: u32 where "XXH_PRIME32_4 = 0x27D4EB2F"
definition XXH_PRIME32_5 :: u32 where "XXH_PRIME32_5 = 0x165667B1"
definition XXH_PRIME64_1 :: u64 where "XXH_PRIME64_1 = 0x9E3779B185EBCA87"
definition XXH_PRIME64_2 :: u64 where "XXH_PRIME64_2 = 0xC2B2AE3D27D4EB4F"
definition XXH_PRIME64_3 :: u64 where "XXH_PRIME64_3 = 0x165667B19E3779F9"
definition XXH_PRIME64_4 :: u64 where "XXH_PRIME64_4 = 0x85EBCA77C2B2AE63"
definition XXH_PRIME64_5 :: u64 where "XXH_PRIME64_5 = 0x27D4EB2F165667C5"
definition PRIME_MX1 :: u64 where "PRIME_MX1 = 0x165667919E3779F9"
definition PRIME_MX2 :: u64 where "PRIME_MX2 = 0x9FB21C651E98DF25"

definition XXH3_kSecret :: bytes where
  "XXH3_kSecret = [
    0xb8, 0xfe, 0x6c, 0x39, 0x23, 0xa4, 0x4b, 0xbe, 0x7c, 0x01, 0x81, 0x2c, 0xf7, 0x21, 0xad, 0x1c,
    0xde, 0xd4, 0x6d, 0xe9, 0x83, 0x90, 0x97, 0xdb, 0x72, 0x40, 0xa4, 0xa4, 0xb7, 0xb3, 0x67, 0x1f,
    0xcb, 0x79, 0xe6, 0x4e, 0xcc, 0xc0, 0xe5, 0x78, 0x82, 0x5a, 0xd0, 0x7d, 0xcc, 0xff, 0x72, 0x21,
    0xb8, 0x08, 0x46, 0x74, 0xf7, 0x43, 0x24, 0x8e, 0xe0, 0x35, 0x90, 0xe6, 0x81, 0x3a, 0x26, 0x4c,
    0x3c, 0x28, 0x52, 0xbb, 0x91, 0xc3, 0x00, 0xcb, 0x88, 0xd0, 0x65, 0x8b, 0x1b, 0x53, 0x2e, 0xa3,
    0x71, 0x64, 0x48, 0x97, 0xa2, 0x0d, 0xf9, 0x4e, 0x38, 0x19, 0xef, 0x46, 0xa9, 0xde, 0xac, 0xd8,
    0xa8, 0xfa, 0x76, 0x3f, 0xe3, 0x9c, 0x34, 0x3f, 0xf9, 0xdc, 0xbb, 0xc7, 0xc7, 0x0b, 0x4f, 0x1d,
    0x8a, 0x51, 0xe0, 0x4b, 0xcd, 0xb4, 0x59, 0x31, 0xc8, 0x9f, 0x7e, 0xc9, 0xd9, 0x78, 0x73, 0x64,
    0xea, 0xc5, 0xac, 0x83, 0x34, 0xd3, 0xeb, 0xc3, 0xc5, 0x81, 0xa0, 0xff, 0xfa, 0x13, 0x63, 0xeb,
    0x17, 0x0d, 0xdd, 0x51, 0xb7, 0xf0, 0xda, 0x49, 0xd3, 0x16, 0x55, 0x26, 0x29, 0xd4, 0x68, 0x9e,
    0x2b, 0x16, 0xbe, 0x58, 0x7d, 0x47, 0xa1, 0xfc, 0x8f, 0xf8, 0xb8, 0xd1, 0x7a, 0xd0, 0x31, 0xce,
    0x45, 0xcb, 0x3a, 0x8f, 0x95, 0x16, 0x04, 0x28, 0xaf, 0xd7, 0xfb, 0xca, 0xbb, 0x4b, 0x40, 0x7e]"

definition XXH3_SECRET_SIZE_MIN :: nat where "XXH3_SECRET_SIZE_MIN = 136"
definition XXH3_MIDSIZE_STARTOFFSET :: nat where "XXH3_MIDSIZE_STARTOFFSET = 3"
definition XXH3_MIDSIZE_LASTOFFSET :: nat where "XXH3_MIDSIZE_LASTOFFSET = 17"

section \<open>Reads, swaps and rotations\<close>

definition XXH_readLE32 :: "bytes \<Rightarrow> nat \<Rightarrow> u32" where
  "XXH_readLE32 p off = le_dec (take 4 (drop off p))"

definition XXH_readLE64 :: "bytes \<Rightarrow> nat \<Rightarrow> u64" where
  "XXH_readLE64 p off = le_dec (take 8 (drop off p))"

lemma readLE32_take: "off + 4 \<le> n \<Longrightarrow> XXH_readLE32 (take n xs) off = XXH_readLE32 xs off"
  by (simp add: XXH_readLE32_def drop_take min_absorb1)

lemma readLE64_take: "off + 8 \<le> n \<Longrightarrow> XXH_readLE64 (take n xs) off = XXH_readLE64 xs off"
  by (simp add: XXH_readLE64_def drop_take min_absorb1)

lemma readLE32_drop: "XXH_readLE32 (drop k xs) off = XXH_readLE32 xs (k + off)"
  by (simp add: XXH_readLE32_def add.commute)

lemma readLE64_drop: "XXH_readLE64 (drop k xs) off = XXH_readLE64 xs (k + off)"
  by (simp add: XXH_readLE64_def add.commute)

definition XXH_swap32 :: "u32 \<Rightarrow> u32" where
  "XXH_swap32 x =
     (push_bit 24 x AND 0xff000000) OR (push_bit 8 x AND 0x00ff0000)
     OR (drop_bit 8 x AND 0x0000ff00) OR (drop_bit 24 x AND 0x000000ff)"

definition XXH_swap64 :: "u64 \<Rightarrow> u64" where
  "XXH_swap64 x =
     (push_bit 56 x AND 0xff00000000000000) OR (push_bit 40 x AND 0x00ff000000000000)
     OR (push_bit 24 x AND 0x0000ff0000000000) OR (push_bit 8 x AND 0x000000ff00000000)
     OR (drop_bit 8 x AND 0x00000000ff000000) OR (drop_bit 24 x AND 0x0000000000ff0000)
     OR (drop_bit 40 x AND 0x000000000000ff00) OR (drop_bit 56 x AND 0x00000000000000ff)"

definition XXH_rotl32 :: "u32 \<Rightarrow> nat \<Rightarrow> u32" where
  "XXH_rotl32 x r = push_bit r x OR drop_bit (32 - r) x"

definition XXH_rotl64 :: "u64 \<Rightarrow> nat \<Rightarrow> u64" where
  "XXH_rotl64 x r = push_bit r x OR drop_bit (64 - r) x"

section \<open>Long multiplication\<close>

record XXH128_hash_t =
  low64 :: u64
  high64 :: u64

definition XXH_mult32to64 :: "u32 \<Rightarrow> u32 \<Rightarrow> u64" where
  "XXH_mult32to64 x y = ucast x * ucast y"

definition XXH_mult64to128 :: "u64 \<Rightarrow> u64 \<Rightarrow> XXH128_hash_t" where
  "XXH_mult64to128 lhs rhs =
     (let product = (ucast lhs :: 128 word) * ucast rhs
      in \<lparr>low64 = ucast product, high64 = ucast (drop_bit 64 product)\<rparr>)"

text \<open>The scalar fallback for compilers without a 128-bit integer type.\<close>

definition XXH_mult64to128_scalar :: "u64 \<Rightarrow> u64 \<Rightarrow> XXH128_hash_t" where
  "XXH_mult64to128_scalar lhs rhs =
     (let lo_lo = XXH_mult32to64 (ucast (lhs AND 0xFFFFFFFF)) (ucast (rhs AND 0xFFFFFFFF));
          hi_lo = XXH_mult32to64 (ucast (drop_bit 32 lhs)) (ucast (rhs AND 0xFFFFFFFF));
          lo_hi = XXH_mult32to64 (ucast (lhs AND 0xFFFFFFFF)) (ucast (drop_bit 32 rhs));
          hi_hi = XXH_mult32to64 (ucast (drop_bit 32 lhs)) (ucast (drop_bit 32 rhs));
          cross = drop_bit 32 lo_lo + (hi_lo AND 0xFFFFFFFF) + lo_hi;
          upper = drop_bit 32 hi_lo + drop_bit 32 cross + hi_hi;
          lower = push_bit 32 cross OR (lo_lo AND 0xFFFFFFFF)
      in \<lparr>low64 = lower, high64 = upper\<rparr>)"

definition XXH3_mul128_fold64 :: "u64 \<Rightarrow> u64 \<Rightarrow> u64" where
  "XXH3_mul128_fold64 lhs rhs =
     (let product = XXH_mult64to128 lhs rhs in low64 product XOR high64 product)"

section \<open>Mixing\<close>

definition XXH_xorshift64 :: "u64 \<Rightarrow> nat \<Rightarrow> u64" where
  "XXH_xorshift64 v64 shift = v64 XOR drop_bit shift v64"

definition XXH3_avalanche :: "u64 \<Rightarrow> u64" where
  "XXH3_avalanche h64 = XXH_xorshift64 (XXH_xorshift64 h64 37 * PRIME_MX1) 32"

definition XXH64_avalanche :: "u64 \<Rightarrow> u64" where
  "XXH64_avalanche hash0 =
     (let hash1 = hash0 XOR drop_bit 33 hash0;
          hash2 = hash1 * XXH_PRIME64_2;
          hash3 = hash2 XOR drop_bit 29 hash2;
          hash4 = hash3 * XXH_PRIME64_3;
          hash5 = hash4 XOR drop_bit 32 hash4
      in hash5)"

definition XXH3_mix16B :: "bytes \<Rightarrow> nat \<Rightarrow> bytes \<Rightarrow> nat \<Rightarrow> u64 \<Rightarrow> u64" where
  "XXH3_mix16B input i secret s seed64 =
     (let input_lo = XXH_readLE64 input i;
          input_hi = XXH_readLE64 input (i + 8)
      in XXH3_mul128_fold64
           (input_lo XOR (XXH_readLE64 secret s + seed64))
           (input_hi XOR (XXH_readLE64 secret (s + 8) - seed64)))"

definition XXH128_mix32B ::
  "XXH128_hash_t \<Rightarrow> bytes \<Rightarrow> nat \<Rightarrow> nat \<Rightarrow> bytes \<Rightarrow> nat \<Rightarrow> u64 \<Rightarrow> XXH128_hash_t" where
  "XXH128_mix32B acc input i1 i2 secret s seed =
     (let l1 = low64 acc + XXH3_mix16B input i1 secret s seed;
          l2 = l1 XOR (XXH_readLE64 input i2 + XXH_readLE64 input (i2 + 8));
          h1 = high64 acc + XXH3_mix16B input i2 secret (s + 16) seed;
          h2 = h1 XOR (XXH_readLE64 input i1 + XXH_readLE64 input (i1 + 8))
      in \<lparr>low64 = l2, high64 = h2\<rparr>)"

section \<open>Hashes of short inputs\<close>

definition XXH3_len_1to3_128b :: "bytes \<Rightarrow> nat \<Rightarrow> bytes \<Rightarrow> u64 \<Rightarrow> XXH128_hash_t" where
  "XXH3_len_1to3_128b input len secret seed =
     (let c1 = input ! 0;
          c2 = input ! (len div 2);
          c3 = input ! (len - 1);
          combinedl = push_bit 16 (ucast c1 :: u32) OR push_bit 24 (ucast c2)
            OR ucast c3 OR push_bit 8 (of_nat len);
          combinedh = XXH_rotl32 (XXH_swap32 combinedl) 13;
          bitflipl = ucast (XXH_readLE32 secret 0 XOR XXH_readLE32 secret 4) + seed;
          bitfliph = ucast (XXH_readLE32 secret 8 XOR XXH_readLE32 secret 12) - seed;
          keyed_lo = ucast combinedl XOR bitflipl;
          keyed_hi = ucast combinedh XOR bitfliph
      in \<lparr>low64 = XXH64_avalanche keyed_lo, high64 = XXH64_avalanche keyed_hi\<rparr>)"

definition XXH3_len_4to8_128b :: "bytes \<Rightarrow> nat \<Rightarrow> bytes \<Rightarrow> u64 \<Rightarrow> XXH128_hash_t" where
  "XXH3_len_4to8_128b input len secret seed0 =
     (let seed = seed0 XOR push_bit 32 (ucast (XXH_swap32 (ucast seed0)));
          input_lo = XXH_readLE32 input 0;
          input_hi = XXH_readLE32 input (len - 4);
          input_64 = ucast input_lo + push_bit 32 (ucast input_hi);
          bitflip = (XXH_readLE64 secret 16 XOR XXH_readLE64 secret 24) + seed;
          keyed = input_64 XOR bitflip;
          m128 = XXH_mult64to128 keyed (XXH_PRIME64_1 + push_bit 2 (of_nat len));
          h1 = high64 m128 + push_bit 1 (low64 m128);
          l1 = low64 m128 XOR drop_bit 3 h1;
          l2 = XXH_xorshift64 l1 35;
          l3 = l2 * PRIME_MX2;
          l4 = XXH_xorshift64 l3 28
      in \<lparr>low64 = l4, high64 = XXH3_avalanche h1\<rparr>)"

text \<open>The two ways the 9 to 16 byte case adds \<open>input_hi\<close> to the high half: the one taken
  on 64-bit targets and the one taken where pointers are shorter than 64 bits.\<close>

definition XXH3_9to16_high_64 :: "u64 \<Rightarrow> u64 \<Rightarrow> u64" where
  "XXH3_9to16_high_64 high input_hi =
     high + (input_hi + XXH_mult32to64 (ucast input_hi) (XXH_PRIME32_2 - 1))"

definition XXH3_9to16_high_32 :: "u64 \<Rightarrow> u64 \<Rightarrow> u64" where
  "XXH3_9to16_high_32 high input_hi =
     high + ((input_hi AND 0xFFFFFFFF00000000) + XXH_mult32to64 (ucast input_hi) XXH_PRIME32_2)"

definition XXH3_len_9to16_128b :: "bytes \<Rightarrow> nat \<Rightarrow> bytes \<Rightarrow> u64 \<Rightarrow> XXH128_hash_t" where
  "XXH3_len_9to16_128b input len secret seed =
     (let bitflipl = (XXH_readLE64 secret 32 XOR XXH_readLE64 secret 40) - seed;
          bitfliph = (XXH_readLE64 secret 48 XOR XXH_readLE64 secret 56) + seed;
          input_lo = XXH_readLE64 input 0;
          input_hi = XXH_readLE64 input (len - 8);
          m128 = XXH_mult64to128 (input_lo XOR input_hi XOR bitflipl) XXH_PRIME64_1;
          l1 = low64 m128 + push_bit 54 (of_nat (len - 1));
          input_hi1 = input_hi XOR bitfliph;
          h1 = XXH3_9to16_high_64 (high64 m128) input_hi1;
          l2 = l1 XOR XXH_swap64 h1;
          h128 = XXH_mult64to128 l2 XXH_PRIME64_2
      in \<lparr>low64 = XXH3_avalanche (low64 h128),
           high64 = XXH3_avalanche (high64 h128 + h1 * XXH_PRIME64_2)\<rparr>)"

definition XXH3_len_0to16_128b :: "bytes \<Rightarrow> nat \<Rightarrow> bytes \<Rightarrow> u64 \<Rightarrow> XXH128_hash_t" where
  "XXH3_len_0to16_128b input len secret seed =
     (if 8 < len then XXH3_len_9to16_128b input len secret seed
      else if 4 \<le> len then XXH3_len_4to8_128b input len secret seed
      else if len \<noteq> 0 then XXH3_len_1to3_128b input len secret seed
      else
        (let bitflipl = XXH_readLE64 secret 64 XOR XXH_readLE64 secret 72;
             bitfliph = XXH_readLE64 secret 80 XOR XXH_readLE64 secret 88
         in \<lparr>low64 = XXH64_avalanche (seed XOR bitflipl),
              high64 = XXH64_avalanche (seed XOR bitfliph)\<rparr>))"

section \<open>Hashes of medium inputs\<close>

definition XXH3_final_128b :: "XXH128_hash_t \<Rightarrow> nat \<Rightarrow> u64 \<Rightarrow> XXH128_hash_t" where
  "XXH3_final_128b acc len seed =
     (let l = low64 acc + high64 acc;
          h = low64 acc * XXH_PRIME64_1 + high64 acc * XXH_PRIME64_4
            + (of_nat len - seed) * XXH_PRIME64_2
      in \<lparr>low64 = XXH3_avalanche l, high64 = 0 - XXH3_avalanche h\<rparr>)"

definition XXH3_len_17to128_128b :: "bytes \<Rightarrow> nat \<Rightarrow> bytes \<Rightarrow> u64 \<Rightarrow> XXH128_hash_t" where
  "XXH3_len_17to128_128b input len secret seed =
     (let acc0 = \<lparr>low64 = of_nat len * XXH_PRIME64_1, high64 = 0\<rparr>;
          acc1 = (if 96 < len then XXH128_mix32B acc0 input 48 (len - 64) secret 96 seed else acc0);
          acc2 = (if 64 < len then XXH128_mix32B acc1 input 32 (len - 48) secret 64 seed else acc1);
          acc3 = (if 32 < len then XXH128_mix32B acc2 input 16 (len - 32) secret 32 seed else acc2);
          acc4 = XXH128_mix32B acc3 input 0 (len - 16) secret 0 seed
      in XXH3_final_128b acc4 len seed)"

text \<open>The two loops of the 129 to 240 byte case, over the offset \<open>i\<close>.\<close>

function XXH3_mid_loop ::
  "nat \<Rightarrow> nat \<Rightarrow> nat \<Rightarrow> bytes \<Rightarrow> bytes \<Rightarrow> nat \<Rightarrow> u64 \<Rightarrow> XXH128_hash_t \<Rightarrow> XXH128_hash_t" where
  "XXH3_mid_loop i lim base input secret soff seed acc =
     (if i < lim then
        XXH3_mid_loop (i + 32) lim base input secret soff seed
          (XXH128_mix32B acc input (i - 32) (i - 16) secret (soff + i - base) seed)
      else acc)"
  by pat_completeness auto
termination
  by (relation "measure (\<lambda>(i, lim, _). lim - i)") auto

declare XXH3_mid_loop.simps [simp del]

definition XXH3_len_129to240_128b :: "bytes \<Rightarrow> nat \<Rightarrow> bytes \<Rightarrow> u64 \<Rightarrow> XXH128_hash_t" where
  "XXH3_len_129to240_128b input len secret seed =
     (let acc0 = \<lparr>low64 = of_nat len * XXH_PRIME64_1, high64 = 0\<rparr>;
          acc1 = XXH3_mid_loop 32 160 32 input secret 0 seed acc0;
          acc2 = \<lparr>low64 = XXH3_avalanche (low64 acc1), high64 = XXH3_avalanche (high64 acc1)\<rparr>;
          acc3 = XXH3_mid_loop 160 (len + 1) 160 input secret XXH3_MIDSIZE_STARTOFFSET seed acc2;
          acc4 = XXH128_mix32B acc3 input (len - 16) (len - 32) secret
            (XXH3_SECRET_SIZE_MIN - XXH3_MIDSIZE_LASTOFFSET - 16) (0 - seed)
      in XXH3_final_128b acc4 len seed)"

section \<open>Dispatch\<close>

text \<open>The routine for inputs of more than 240 bytes: input, length, seed, secret and its size.\<close>

type_synonym hash_long_128 = "bytes \<Rightarrow> nat \<Rightarrow> u64 \<Rightarrow> bytes \<Rightarrow> nat \<Rightarrow> XXH128_hash_t"

definition XXH3_128bits_internal ::
  "bytes \<Rightarrow> nat \<Rightarrow> u64 \<Rightarrow> bytes \<Rightarrow> nat \<Rightarrow> hash_long_128 \<Rightarrow> XXH128_hash_t" where
  "XXH3_128bits_internal input len seed64 secret secretLen f_hl128 =
     (if len \<le> 16 then XXH3_len_0to16_128b input len secret seed64
      else if len \<le> 128 then XXH3_len_17to128_128b input len secret seed64
      else if len \<le> 240 then XXH3_len_129to240_128b input len secret seed64
      else f_hl128 input len seed64 secret secretLen)"

definition XXH128_cmp :: "XXH128_hash_t \<Rightarrow> XXH128_hash_t \<Rightarrow> int" where
  "XXH128_cmp h1 h2 =
     (let hcmp = of_bool (high64 h1 > high64 h2) - of_bool (high64 h2 > high64 h1)
      in if hcmp \<noteq> 0 then hcmp
         else of_bool (low64 h1 > low64 h2) - of_bool (low64 h2 > low64 h1))"

section \<open>Correctness\<close>

lemma xorshift_inj:
  fixes x y :: u64
  assumes "0 < k" and eq: "x XOR drop_bit k x = y XOR drop_bit k y"
  shows "x = y"
proof (rule bit_eqI)
  fix i
  show "bit x i = bit y i"
  proof (induction "64 - i" arbitrary: i rule: less_induct)
    case less
    show ?case
    proof (cases "i < 64")
      case False
      then show ?thesis by (auto dest: bit_imp_le_length)
    next
      case True
      with \<open>0 < k\<close> have "bit x (k + i) = bit y (k + i)"
        by (intro less) auto
      moreover have "bit (x XOR drop_bit k x) i = bit (y XOR drop_bit k y) i"
        by (simp only: eq)
      ultimately show ?thesis by (auto simp: bit_simps)
    qed
  qed
qed

lemma XXH_xorshift64_inj:
  "0 < k \<Longrightarrow> XXH_xorshift64 x k = XXH_xorshift64 y k \<longleftrightarrow> x = y"
  unfolding XXH_xorshift64_def by (blast intro: xorshift_inj)

lemma mult_unit_inj:
  fixes x y c :: u64
  assumes "c * d = 1"
  shows "x * c = y * c \<longleftrightarrow> x = y"
proof
  assume "x * c = y * c"
  then have "x * (c * d) = y * (c * d)" by (simp only: mult.assoc [symmetric])
  then show "x = y" by (simp only: assms mult_1_right)
qed simp

lemma two_halves_mult_aux:
  fixes LL HL LH HH a b c d e f :: nat
  assumes "LL = a * 4294967296 + b" "HL = c * 4294967296 + d" "a + d + LH = e * 4294967296 + f"
  shows "(c + e + HH) * 18446744073709551616 + (f * 4294967296 + b)
     = HH * 18446744073709551616 + (HL + LH) * 4294967296 + LL"
proof -
  have "(a + d + LH) * 4294967296 = (e * 4294967296 + f) * 4294967296"
    by (simp only: assms(3))
  then show ?thesis by (simp add: assms(1,2) algebra_simps)
qed

lemma two_halves_mult:
  fixes LL HL LH HH :: nat
  defines "cross \<equiv> LL div 4294967296 + HL mod 4294967296 + LH"
  shows "(HL div 4294967296 + cross div 4294967296 + HH) * 18446744073709551616
      + (cross mod 4294967296 * 4294967296 + LL mod 4294967296)
     = HH * 18446744073709551616 + (HL + LH) * 4294967296 + LL"
  by (rule two_halves_mult_aux) (simp_all add: cross_def)

lemma low32_take_bit: "(x :: u64) AND 0xFFFFFFFF = take_bit 32 x"
proof -
  have "(0xFFFFFFFF :: u64) = mask 32" by (simp add: mask_eq_exp_minus_1)
  then show ?thesis by (simp only: take_bit_eq_mask)
qed

lemma unat_low32: "unat (x AND 0xFFFFFFFF) = unat (x :: u64) mod 4294967296"
  by (simp only: low32_take_bit unsigned_take_bit_eq) (simp add: take_bit_eq_mod)

lemma unat_high32: "unat (drop_bit 32 x) = unat (x :: u64) div 4294967296"
  by (simp only: unat_drop_bit_eq drop_bit_eq_div [where 'a = nat]) simp

lemma unat_ucast_mod: "unat (ucast (x :: u64) :: u32) = unat x mod 4294967296"
  by (simp add: unsigned_ucast_eq take_bit_eq_mod)

lemma unat_mult32to64: "unat (XXH_mult32to64 x y) = unat x * unat y"
proof -
  have "unat x * unat y < 2 ^ 32 * 2 ^ 32"
    using unat_u32_bound [of x] unat_u32_bound [of y] by (intro mult_strict_mono) auto
  then show ?thesis
    by (simp add: XXH_mult32to64_def unat_word_ariths)
qed

lemma XXH3_avalanche_inj: "XXH3_avalanche x = XXH3_avalanche y \<longleftrightarrow> x = y"
proof -
  have "PRIME_MX1 * 0x8DA8EE41D6DF849 = 1" by (simp add: PRIME_MX1_def)
  then show ?thesis
    by (simp add: XXH3_avalanche_def XXH_xorshift64_inj mult_unit_inj)
qed

lemma XXH64_avalanche_inj: "XXH64_avalanche x = XXH64_avalanche y \<longleftrightarrow> x = y"
proof -
  have "XXH_PRIME64_2 * 0xBA79078168D4BAF = 1" "XXH_PRIME64_3 * 0xE9E9F4C41D6DF849 = 1"
    by (simp_all add: XXH_PRIME64_2_def XXH_PRIME64_3_def)
  then show ?thesis
    by (simp add: XXH64_avalanche_def Let_def flip: XXH_xorshift64_def)
       (simp add: XXH_xorshift64_inj mult_unit_inj)
qed
lemma XXH_mult64to128_unat:
  "unat (low64 (XXH_mult64to128 x y)) = unat x * unat y mod 18446744073709551616"
  "unat (high64 (XXH_mult64to128 x y)) = unat x * unat y div 18446744073709551616"
proof -
  have lt: "unat x * unat y < 2 ^ 64 * 2 ^ 64"
    using unat_u64_bound [of x] unat_u64_bound [of y] by (intro mult_strict_mono) auto
  have uc: "unat (ucast z :: 128 word) = unat z" for z :: u64
    using unat_u64_bound [of z] by (simp add: unsigned_ucast_eq take_bit_eq_mod)
  let ?p = "(ucast x :: 128 word) * ucast y"
  have p: "unat ?p = unat x * unat y"
    using lt by (simp only: unat_word_ariths uc) simp
  show "unat (low64 (XXH_mult64to128 x y)) = unat x * unat y mod 18446744073709551616"
    by (simp only: XXH_mult64to128_def Let_def XXH128_hash_t.select_convs unsigned_ucast_eq p)
      (simp add: take_bit_eq_mod)
  have high: "unat (drop_bit 64 ?p) = unat x * unat y div 2 ^ 64"
    by (simp only: unat_drop_bit_eq drop_bit_eq_div [where 'a = nat] p)
  have "unat x * unat y div 2 ^ 64 < 2 ^ 64"
    using lt by (simp add: less_mult_imp_div_less)
  then have "take_bit 64 (unat x * unat y div 2 ^ 64) = unat x * unat y div 2 ^ 64"
    by (rule take_bit_nat_eq_self)
  with high show "unat (high64 (XXH_mult64to128 x y)) = unat x * unat y div 18446744073709551616"
    by (simp only: XXH_mult64to128_def Let_def XXH128_hash_t.select_convs unsigned_ucast_eq) simp
qed

lemma or_disjoint_add:
  "unat (push_bit 32 x OR (y AND 0xFFFFFFFF)) =
     unat (x :: u64) mod 4294967296 * 4294967296 + unat y mod 4294967296"
proof -
  have "push_bit 32 x AND (y AND 0xFFFFFFFF) = 0"
    by (simp only: low32_take_bit) (rule bit_eqI, auto simp: bit_simps)
  then have "push_bit 32 x OR (y AND 0xFFFFFFFF) = push_bit 32 x + (y AND 0xFFFFFFFF)"
    by (simp add: disjunctive_add_eq_or)
  moreover have "unat (push_bit 32 x) = unat x mod 4294967296 * 4294967296"
    by (simp only: unsigned_push_bit_eq push_bit_eq_mult [where 'a = nat]) (simp add: take_bit_eq_mod mult_mod_left)
  moreover have "unat x mod 4294967296 * 4294967296 + unat y mod 4294967296 < 2 ^ 64"
  proof -
    have "p mod 4294967296 \<le> 4294967295" for p :: nat
      by (simp flip: less_Suc_eq_le)
    from this [of "unat x"] this [of "unat y"] show ?thesis by simp
  qed
  ultimately show ?thesis
    by (simp only: unat_add_u64 unat_low32)
qed

lemma unat_half_sums:
  fixes a b c :: u64
  assumes c: "unat c \<le> 18446744065119617025"
  shows "unat (drop_bit 32 a + (b AND 0xFFFFFFFF) + c)
      = unat a div 4294967296 + unat b mod 4294967296 + unat c"
    and "unat (drop_bit 32 a + drop_bit 32 b + c)
      = unat a div 4294967296 + unat b div 4294967296 + unat c"
proof -
  have d: "unat (drop_bit 32 z) \<le> 4294967295" for z :: u64
    using unat_u64_bound [of z] by (simp add: unat_high32 less_mult_imp_div_less flip: less_Suc_eq_le)
  have m: "unat (b AND 0xFFFFFFFF) \<le> 4294967295"
    by (simp add: unat_low32 flip: less_Suc_eq_le)
  have s1: "unat (drop_bit 32 a + (b AND 0xFFFFFFFF)) = unat (drop_bit 32 a) + unat (b AND 0xFFFFFFFF)"
    using d [of a] m by (intro unat_add_u64) simp
  then have "unat (drop_bit 32 a + (b AND 0xFFFFFFFF) + c)
      = unat (drop_bit 32 a) + unat (b AND 0xFFFFFFFF) + unat c"
    using d [of a] m c by (subst unat_add_u64) simp_all
  then show "unat (drop_bit 32 a + (b AND 0xFFFFFFFF) + c)
      = unat a div 4294967296 + unat b mod 4294967296 + unat c"
    by (simp only: unat_high32 unat_low32)
  have s2: "unat (drop_bit 32 a + drop_bit 32 b) = unat (drop_bit 32 a) + unat (drop_bit 32 b)"
    using d [of a] d [of b] by (intro unat_add_u64) simp
  then have "unat (drop_bit 32 a + drop_bit 32 b + c)
      = unat (drop_bit 32 a) + unat (drop_bit 32 b) + unat c"
    using d [of a] d [of b] c by (subst unat_add_u64) simp_all
  then show "unat (drop_bit 32 a + drop_bit 32 b + c)
      = unat a div 4294967296 + unat b div 4294967296 + unat c"
    by (simp only: unat_high32)
qed

lemma XXH_mult64to128_scalar_unat:
  defines "B \<equiv> (4294967296 :: nat)"
  shows "unat (high64 (XXH_mult64to128_scalar x y)) * 18446744073709551616
       + unat (low64 (XXH_mult64to128_scalar x y)) = unat x * unat y"
proof -
  define a0 a1 b0 b1 where "a0 = unat x mod B" and "a1 = unat x div B"
    and "b0 = unat y mod B" and "b1 = unat y div B"
  have lt: "a0 < B" "a1 < B" "b0 < B" "b1 < B"
    using unat_u64_bound [of x] unat_u64_bound [of y]
    by (simp_all add: a0_def a1_def b0_def b1_def B_def less_mult_imp_div_less)
  have low: "unat (ucast (z AND 0xFFFFFFFF) :: u32) = unat z mod B" for z :: u64
    by (simp only: unat_ucast_mod unat_low32 B_def) simp
  have high: "unat (ucast (drop_bit 32 z) :: u32) = unat z div B" for z :: u64
    using unat_u64_bound [of z]
    by (simp only: unat_ucast_mod unat_high32 B_def) (simp add: less_mult_imp_div_less)
  have prod_le: "p * q \<le> 18446744065119617025" if "p < B" "q < B" for p q
    using mult_le_mono [of p 4294967295 q 4294967295] that by (simp add: B_def)
  let ?ll = "XXH_mult32to64 (ucast (x AND 0xFFFFFFFF)) (ucast (y AND 0xFFFFFFFF))"
  let ?hl = "XXH_mult32to64 (ucast (drop_bit 32 x)) (ucast (y AND 0xFFFFFFFF))"
  let ?lh = "XXH_mult32to64 (ucast (x AND 0xFFFFFFFF)) (ucast (drop_bit 32 y))"
  let ?hh = "XXH_mult32to64 (ucast (drop_bit 32 x)) (ucast (drop_bit 32 y))"
  have u: "unat ?ll = a0 * b0" "unat ?hl = a1 * b0" "unat ?lh = a0 * b1" "unat ?hh = a1 * b1"
    by (simp_all only: unat_mult32to64 low high a0_def a1_def b0_def b1_def)
  let ?c = "drop_bit 32 ?ll + (?hl AND 0xFFFFFFFF) + ?lh"
  define c where "c = a0 * b0 div 4294967296 + a1 * b0 mod 4294967296 + a0 * b1"
  have c: "unat ?c = c"
    using prod_le [OF lt(1,4)] by (simp only: unat_half_sums(1) u c_def)
  have up: "unat (drop_bit 32 ?hl + drop_bit 32 ?c + ?hh) = a1 * b0 div 4294967296 + c div 4294967296 + a1 * b1"
    using prod_le [OF lt(2,4)] by (simp only: unat_half_sums(2) u c)
  have lo: "unat (push_bit 32 ?c OR (?ll AND 0xFFFFFFFF)) = c mod 4294967296 * 4294967296 + a0 * b0 mod 4294967296"
    by (simp only: or_disjoint_add c u)
  have "unat x = a1 * 4294967296 + a0" "unat y = b1 * 4294967296 + b0"
    by (simp_all add: a0_def a1_def b0_def b1_def B_def)
  then have "unat x * unat y = a1 * b1 * 18446744073709551616 + (a1 * b0 + a0 * b1) * 4294967296 + a0 * b0"
    by (simp add: algebra_simps)
  with two_halves_mult [of "a1 * b0" "a0 * b0" "a0 * b1" "a1 * b1", folded c_def]
  show ?thesis
    by (simp only: XXH_mult64to128_scalar_def Let_def XXH128_hash_t.select_convs up lo)
qed
lemma XXH128_hash_t_eqI:
  "low64 g = low64 h \<Longrightarrow> high64 g = high64 h \<Longrightarrow> g = (h :: XXH128_hash_t)"
  by simp

text \<open>The portable long multiplication built from four 32-bit products returns, for all
  operands, the same 128-bit product as the one that uses the compiler's 128-bit type.\<close>

theorem XXH_mult64to128_scalar_eq: "XXH_mult64to128_scalar lhs rhs = XXH_mult64to128 lhs rhs"
proof -
  let ?s = "XXH_mult64to128_scalar lhs rhs"
  have "unat (low64 ?s) < 18446744073709551616"
    using unat_u64_bound [of "low64 ?s"] by simp
  then have "unat (low64 ?s) = unat lhs * unat rhs mod 18446744073709551616"
    and "unat (high64 ?s) = unat lhs * unat rhs div 18446744073709551616"
    by (simp_all flip: XXH_mult64to128_scalar_unat)
  then show ?thesis
    by (intro XXH128_hash_t_eqI) (simp_all only: word_unat_eq_iff XXH_mult64to128_unat)
qed

lemma XXH_mult64to128_low: "low64 (XXH_mult64to128 x y) = x * y"
  by (simp add: word_unat_eq_iff XXH_mult64to128_unat unat_word_ariths)

text \<open>On 64-bit targets the 9 to 16 byte hash replaces the masked sum of the 32-bit
  code path by a sum without a mask; the two code paths compute the same value for every
  input.\<close>

theorem XXH3_9to16_high_paths: "XXH3_9to16_high_32 high input_hi = XXH3_9to16_high_64 high input_hi"
proof -
  have m: "(0xFFFFFFFF00000000 :: u64) = NOT (mask 32)"
    by (simp add: mask_eq_exp_minus_1)
  have split: "input_hi = (input_hi AND 0xFFFFFFFF00000000) + ucast (ucast input_hi :: u32)"
  proof -
    have "ucast (ucast input_hi :: u32) = take_bit 32 input_hi"
      by (rule bit_eqI) (auto simp: bit_simps)
    moreover have "(input_hi AND NOT (mask 32)) + take_bit 32 input_hi = input_hi"
      by (subst disjunctive_add_eq_or) (auto simp: bit_eq_iff bit_simps)
    ultimately show ?thesis by (simp add: m)
  qed
  have "ucast XXH_PRIME32_2 = (1 :: u64) + ucast (XXH_PRIME32_2 - 1)"
    by (simp add: XXH_PRIME32_2_def)
  then have "XXH_mult32to64 (ucast input_hi) XXH_PRIME32_2
      = ucast (ucast input_hi :: u32) + XXH_mult32to64 (ucast input_hi) (XXH_PRIME32_2 - 1)"
    by (simp only: XXH_mult32to64_def distrib_left mult_1_right)
  then show ?thesis
    unfolding XXH3_9to16_high_32_def XXH3_9to16_high_64_def
    by (subst (3) split) (simp only: add.assoc)
qed

lemma input_64_inj:
  fixes l h l' h' :: u32
  assumes "(ucast l :: u64) + push_bit 32 (ucast h) = ucast l' + push_bit 32 (ucast h')"
  shows "l = l' \<and> h = h'"
proof -
  have or: "(ucast l :: u64) + push_bit 32 (ucast h) = ucast l OR push_bit 32 (ucast h)" for l h :: u32
    by (rule disjunctive_add_eq_or) (auto simp: bit_eq_iff bit_simps dest: bit_imp_le_length)
  have lo: "ucast ((ucast l :: u64) OR push_bit 32 (ucast h)) = l" for l h :: u32
    by (rule bit_eqI) (auto simp: bit_simps)
  have hi: "ucast (drop_bit 32 ((ucast l :: u64) OR push_bit 32 (ucast h))) = h" for l h :: u32
    by (rule bit_eqI) (auto simp: bit_simps dest: bit_imp_le_length)
  from assms have "(ucast l :: u64) OR push_bit 32 (ucast h) = ucast l' OR push_bit 32 (ucast h')"
    by (simp only: or)
  then show ?thesis by (metis lo hi)
qed

lemma word_xor_right_inj: "x XOR k = y XOR k \<longleftrightarrow> x = y" for x y k :: "'a::len word"
  by (metis xor.assoc xor_self_eq xor.right_neutral)

lemma XXH3_len_4to8_inj:
  assumes "XXH3_len_4to8_128b a 8 secret seed = XXH3_len_4to8_128b b 8 secret seed"
  shows "XXH_readLE32 a 0 = XXH_readLE32 b 0 \<and> XXH_readLE32 a 4 = XXH_readLE32 b 4"
proof -
  have units: "PRIME_MX2 * 0x2AB9C720D1024AD = 1"
    "(XXH_PRIME64_1 + push_bit 2 (of_nat 8)) * 0x6261C8662F213D17 = 1"
    by (simp_all add: PRIME_MX2_def XXH_PRIME64_1_def)
  note inj = XXH3_avalanche_inj XXH_xorshift64_inj mult_unit_inj [OF units(1)]
    mult_unit_inj [OF units(2)] word_xor_right_inj
  have len: "(8 :: nat) - 4 = 4" by simp
  define flip where "flip = (XXH_readLE64 secret 16 XOR XXH_readLE64 secret 24)
    + (seed XOR push_bit 32 (ucast (XXH_swap32 (ucast seed))))"
  define keyed where "keyed c = (ucast (XXH_readLE32 c 0) + push_bit 32 (ucast (XXH_readLE32 c 4))) XOR flip" for c
  define m where "m c = XXH_mult64to128 (keyed c) (XXH_PRIME64_1 + push_bit 2 (of_nat 8))" for c
  define h1 where "h1 c = high64 (m c) + push_bit 1 (low64 (m c))" for c
  define l1 where "l1 c = low64 (m c) XOR drop_bit 3 (h1 c)" for c
  have eval: "XXH3_len_4to8_128b c 8 secret seed =
      \<lparr>low64 = XXH_xorshift64 (XXH_xorshift64 (l1 c) 35 * PRIME_MX2) 28,
       high64 = XXH3_avalanche (h1 c)\<rparr>" for c
    unfolding XXH3_len_4to8_128b_def Let_def l1_def h1_def m_def keyed_def flip_def len
    by (rule refl)
  from assms have hl: "l1 a = l1 b \<and> h1 a = h1 b"
    by (simp only: eval XXH128_hash_t.ext_inject inj zero_less_numeral simp_thms)
  then have "low64 (m a) XOR drop_bit 3 (h1 b) = low64 (m b) XOR drop_bit 3 (h1 b)"
    by (metis l1_def)
  then have "low64 (m a) = low64 (m b)"
    by (simp only: word_xor_right_inj)
  then have "keyed a = keyed b"
    by (simp only: m_def XXH_mult64to128_low mult_unit_inj [OF units(2)])
  then show ?thesis
    by (intro input_64_inj) (simp only: keyed_def word_xor_right_inj)
qed

lemma readLE32_halves_inj:
  assumes "length a = 8" "length b = 8"
    and "XXH_readLE32 a 0 = XXH_readLE32 b 0" "XXH_readLE32 a 4 = XXH_readLE32 b 4"
  shows "a = b"
proof -
  have dec_inj: "x = y" if "length x = 4" "length y = 4" "(le_dec x :: u32) = le_dec y" for x y
  proof -
    have "le_enc 4 (le_dec x :: u32) = x" and "le_enc 4 (le_dec y :: u32) = y"
      using that(1,2) by (simp_all add: le_enc_le_dec)
    with that(3) show ?thesis by metis
  qed
  have "take 4 a = take 4 b"
    using assms by (intro dec_inj) (simp_all add: XXH_readLE32_def)
  moreover have "drop 4 a = drop 4 b"
    using assms by (intro dec_inj) (simp_all add: XXH_readLE32_def)
  ultimately show ?thesis by (metis append_take_drop_id)
qed

lemma XXH128_cmp_eq_0: "XXH128_cmp g h = 0 \<longleftrightarrow> g = h"
  by (auto simp: XXH128_cmp_def Let_def intro: XXH128_hash_t_eqI)

end
