(* ===== verification/XXH3_Long.thy ===== *)
theory XXH3_Long
  imports XXH3
begin

text \<open>
  \<open>include/xxhash.h\<close>, second part: the 64-bit hash of short and medium inputs, the hashes of
  inputs of more than 240 bytes with the scalar accumulators, and the one-shot entry points,
  \<open>XXH3_128bits\<close> among them. A pointer into the input, the secret or the accumulators is the
  rest of the list from there on. The lemmas show that the accumulators can be computed lane by
  lane, as the vector code does, that the loop over blocks is a single pass over the stripes,
  and that the compact loops of small builds compute the unrolled sums.
\<close>

section \<open>The 64-bit hash of inputs of up to 240 bytes\<close>

definition XXH3_rrmxmx :: "u64 \<Rightarrow> u64 \<Rightarrow> u64" where
  "XXH3_rrmxmx h64 len =
     (let a = h64 XOR (XXH_rotl64 h64 49 XOR XXH_rotl64 h64 24);
          b = a * PRIME_MX2;
          c = b XOR (drop_bit 35 b + len);
          d = c * PRIME_MX2
      in XXH_xorshift64 d 28)"

definition XXH3_len_1to3_64b :: "bytes \<Rightarrow> nat \<Rightarrow> bytes \<Rightarrow> u64 \<Rightarrow> u64" where
  "XXH3_len_1to3_64b input len secret seed =
     (let c1 = input ! 0;
          c2 = input ! (len div 2);
          c3 = input ! (len - 1);
          combined = push_bit 16 (ucast c1 :: u32) OR push_bit 24 (ucast c2)
            OR ucast c3 OR push_bit 8 (of_nat len);
          bitflip = ucast (XXH_readLE32 secret 0 XOR XXH_readLE32 secret 4) + seed;
          keyed = ucast combined XOR bitflip
      in XXH64_avalanche keyed)"

definition XXH3_len_4to8_64b :: "bytes \<Rightarrow> nat \<Rightarrow> bytes \<Rightarrow> u64 \<Rightarrow> u64" where
  "XXH3_len_4to8_64b input len secret seed0 =
     (let seed = seed0 XOR push_bit 32 (ucast (XXH_swap32 (ucast seed0)));
          input1 = XXH_readLE32 input 0;
          input2 = XXH_readLE32 input (len - 4);
          bitflip = (XXH_readLE64 secret 8 XOR XXH_readLE64 secret 16) - seed;
          input64 = ucast input2 + push_bit 32 (ucast input1);
          keyed = input64 XOR bitflip
      in XXH3_rrmxmx keyed (of_nat len))"

definition XXH3_len_9to16_64b :: "bytes \<Rightarrow> nat \<Rightarrow> bytes \<Rightarrow> u64 \<Rightarrow> u64" where
  "XXH3_len_9to16_64b input len secret seed =
     (let bitflip1 = (XXH_readLE64 secret 24 XOR XXH_readLE64 secret 32) + seed;
          bitflip2 = (XXH_readLE64 secret 40 XOR XXH_readLE64 secret 48) - seed;
          input_lo = XXH_readLE64 input 0 XOR bitflip1;
          input_hi = XXH_readLE64 input (len - 8) XOR bitflip2;
          acc = of_nat len + XXH_swap64 input_lo + input_hi + XXH3_mul128_fold64 input_lo input_hi
      in XXH3_avalanche acc)"

definition XXH3_len_0to16_64b :: "bytes \<Rightarrow> nat \<Rightarrow> bytes \<Rightarrow> u64 \<Rightarrow> u64" where
  "XXH3_len_0to16_64b input len secret seed =
     (if 8 < len then XXH3_len_9to16_64b input len secret seed
      else if 4 \<le> len then XXH3_len_4to8_64b input len secret seed
      else if len \<noteq> 0 then XXH3_len_1to3_64b input len secret seed
      else XXH64_avalanche (seed XOR (XXH_readLE64 secret 56 XOR XXH_readLE64 secret 64)))"

definition XXH3_len_17to128_64b :: "bytes \<Rightarrow> nat \<Rightarrow> bytes \<Rightarrow> u64 \<Rightarrow> u64" where
  "XXH3_len_17to128_64b input len secret seed =
     (let acc0 = of_nat len * XXH_PRIME64_1;
          acc1 = (if 96 < len then acc0 + XXH3_mix16B input 48 secret 96 seed
                    + XXH3_mix16B input (len - 64) secret 112 seed else acc0);
          acc2 = (if 64 < len then acc1 + XXH3_mix16B input 32 secret 64 seed
                    + XXH3_mix16B input (len - 48) secret 80 seed else acc1);
          acc3 = (if 32 < len then acc2 + XXH3_mix16B input 16 secret 32 seed
                    + XXH3_mix16B input (len - 32) secret 48 seed else acc2);
          acc4 = acc3 + XXH3_mix16B input 0 secret 0 seed
                   + XXH3_mix16B input (len - 16) secret 16 seed
      in XXH3_avalanche acc4)"

text \<open>The same sum as the loop of builds for small size; \<open>i\<close> counts down to 0.\<close>

primrec XXH3_17to128_loop_64b :: "nat \<Rightarrow> bytes \<Rightarrow> nat \<Rightarrow> bytes \<Rightarrow> u64 \<Rightarrow> u64 \<Rightarrow> u64" where
  "XXH3_17to128_loop_64b 0 input len secret seed acc =
     acc + XXH3_mix16B input 0 secret 0 seed + XXH3_mix16B input (len - 16) secret 16 seed"
| "XXH3_17to128_loop_64b (Suc i) input len secret seed acc =
     XXH3_17to128_loop_64b i input len secret seed
       (acc + XXH3_mix16B input (16 * Suc i) secret (32 * Suc i) seed
          + XXH3_mix16B input (len - 16 * (Suc i + 1)) secret (32 * Suc i + 16) seed)"

definition XXH3_len_17to128_64b_small :: "bytes \<Rightarrow> nat \<Rightarrow> bytes \<Rightarrow> u64 \<Rightarrow> u64" where
  "XXH3_len_17to128_64b_small input len secret seed =
     XXH3_avalanche (XXH3_17to128_loop_64b ((len - 1) div 32) input len secret seed (of_nat len * XXH_PRIME64_1))"

primrec XXH3_17to128_loop_128b :: "nat \<Rightarrow> bytes \<Rightarrow> nat \<Rightarrow> bytes \<Rightarrow> u64 \<Rightarrow> XXH128_hash_t \<Rightarrow> XXH128_hash_t" where
  "XXH3_17to128_loop_128b 0 input len secret seed acc = XXH128_mix32B acc input 0 (len - 16) secret 0 seed"
| "XXH3_17to128_loop_128b (Suc i) input len secret seed acc =
     XXH3_17to128_loop_128b i input len secret seed
       (XXH128_mix32B acc input (16 * Suc i) (len - 16 * (Suc i + 1)) secret (32 * Suc i) seed)"

definition XXH3_len_17to128_128b_small :: "bytes \<Rightarrow> nat \<Rightarrow> bytes \<Rightarrow> u64 \<Rightarrow> XXH128_hash_t" where
  "XXH3_len_17to128_128b_small input len secret seed =
     XXH3_final_128b (XXH3_17to128_loop_128b ((len - 1) div 32) input len secret seed
        \<lparr>low64 = of_nat len * XXH_PRIME64_1, high64 = 0\<rparr>) len seed"

definition XXH3_len_129to240_64b :: "bytes \<Rightarrow> nat \<Rightarrow> bytes \<Rightarrow> u64 \<Rightarrow> u64" where
  "XXH3_len_129to240_64b input len secret seed =
     (let acc0 = of_nat len * XXH_PRIME64_1;
          nbRounds = len div 16;
          acc1 = foldl (\<lambda>acc i. acc + XXH3_mix16B input (16 * i) secret (16 * i) seed) acc0 [0..<8];
          acc_end0 = XXH3_mix16B input (len - 16) secret (XXH3_SECRET_SIZE_MIN - XXH3_MIDSIZE_LASTOFFSET) seed;
          acc2 = XXH3_avalanche acc1;
          acc_end = foldl (\<lambda>acc i. acc + XXH3_mix16B input (16 * i) secret (16 * (i - 8) + XXH3_MIDSIZE_STARTOFFSET) seed)
            acc_end0 [8..<nbRounds]
      in XXH3_avalanche (acc2 + acc_end))"

section \<open>Accumulators\<close>

definition XXH_STRIPE_LEN :: nat where "XXH_STRIPE_LEN = 64"
definition XXH_SECRET_CONSUME_RATE :: nat where "XXH_SECRET_CONSUME_RATE = 8"
definition XXH_ACC_NB :: nat where "XXH_ACC_NB = 8"
definition XXH_SECRET_LASTACC_START :: nat where "XXH_SECRET_LASTACC_START = 7"
definition XXH_SECRET_MERGEACCS_START :: nat where "XXH_SECRET_MERGEACCS_START = 11"
definition XXH_SECRET_DEFAULT_SIZE :: nat where "XXH_SECRET_DEFAULT_SIZE = 192"

lemmas xxh_sizes = XXH_STRIPE_LEN_def XXH_SECRET_CONSUME_RATE_def XXH_ACC_NB_def
  XXH_SECRET_LASTACC_START_def XXH_SECRET_MERGEACCS_START_def XXH_SECRET_DEFAULT_SIZE_def

definition XXH_mult32to64_add64 :: "u64 \<Rightarrow> u64 \<Rightarrow> u64 \<Rightarrow> u64" where
  "XXH_mult32to64_add64 lhs rhs acc = XXH_mult32to64 (ucast lhs) (ucast rhs) + acc"

text \<open>One lane of one stripe: the data goes to the neighbouring lane, its product with the secret to
  its own.\<close>

definition XXH3_scalarRound :: "u64 list \<Rightarrow> bytes \<Rightarrow> bytes \<Rightarrow> nat \<Rightarrow> u64 list" where
  "XXH3_scalarRound acc input secret lane =
     (let data_val = XXH_readLE64 input (lane * 8);
          data_key = data_val XOR XXH_readLE64 secret (lane * 8);
          acc1 = acc[lane XOR 1 := acc ! (lane XOR 1) + data_val]
      in acc1[lane := XXH_mult32to64_add64 data_key (drop_bit 32 data_key) (acc1 ! lane)])"

definition XXH3_accumulate_512 :: "u64 list \<Rightarrow> bytes \<Rightarrow> bytes \<Rightarrow> u64 list" where
  "XXH3_accumulate_512 acc input secret = foldl (\<lambda>a i. XXH3_scalarRound a input secret i) acc [0..<XXH_ACC_NB]"

definition XXH3_accumulate :: "u64 list \<Rightarrow> bytes \<Rightarrow> bytes \<Rightarrow> nat \<Rightarrow> u64 list" where
  "XXH3_accumulate acc input secret nbStripes =
     foldl (\<lambda>a n. XXH3_accumulate_512 a (drop (n * XXH_STRIPE_LEN) input) (drop (n * XXH_SECRET_CONSUME_RATE) secret))
       acc [0..<nbStripes]"

definition XXH3_scalarScrambleRound :: "u64 list \<Rightarrow> bytes \<Rightarrow> nat \<Rightarrow> u64 list" where
  "XXH3_scalarScrambleRound acc secret lane =
     (let key64 = XXH_readLE64 secret (lane * 8);
          acc64 = (XXH_xorshift64 (acc ! lane) 47 XOR key64) * ucast XXH_PRIME32_1
      in acc[lane := acc64])"

definition XXH3_scrambleAcc :: "u64 list \<Rightarrow> bytes \<Rightarrow> u64 list" where
  "XXH3_scrambleAcc acc secret = foldl (\<lambda>a i. XXH3_scalarScrambleRound a secret i) acc [0..<XXH_ACC_NB]"

text \<open>The secret derived from a seed, as the bytes written to the buffer.\<close>

definition XXH3_initCustomSecret :: "u64 \<Rightarrow> bytes" where
  "XXH3_initCustomSecret seed64 =
     concat (map (\<lambda>i. let lo = XXH_readLE64 XXH3_kSecret (16 * i) + seed64;
                          hi = XXH_readLE64 XXH3_kSecret (16 * i + 8) - seed64
                      in le_enc 8 lo @ le_enc 8 hi) [0..<XXH_SECRET_DEFAULT_SIZE div 16])"

section \<open>Hashes of long inputs\<close>

type_synonym accumulate_fn = "u64 list \<Rightarrow> bytes \<Rightarrow> bytes \<Rightarrow> nat \<Rightarrow> u64 list"
type_synonym scramble_fn = "u64 list \<Rightarrow> bytes \<Rightarrow> u64 list"

definition XXH3_hashLong_internal_loop ::
  "u64 list \<Rightarrow> bytes \<Rightarrow> nat \<Rightarrow> bytes \<Rightarrow> nat \<Rightarrow> accumulate_fn \<Rightarrow> scramble_fn \<Rightarrow> u64 list" where
  "XXH3_hashLong_internal_loop acc input len secret secretSize f_acc f_scramble =
     (let nbStripesPerBlock = (secretSize - XXH_STRIPE_LEN) div XXH_SECRET_CONSUME_RATE;
          block_len = XXH_STRIPE_LEN * nbStripesPerBlock;
          nb_blocks = (len - 1) div block_len;
          acc1 = foldl (\<lambda>a n. f_scramble (f_acc a (drop (n * block_len) input) secret nbStripesPerBlock)
                   (drop (secretSize - XXH_STRIPE_LEN) secret)) acc [0..<nb_blocks];
          nbStripes = ((len - 1) - block_len * nb_blocks) div XXH_STRIPE_LEN;
          acc2 = f_acc acc1 (drop (nb_blocks * block_len) input) secret nbStripes;
          p = drop (len - XXH_STRIPE_LEN) input
      in XXH3_accumulate_512 acc2 p (drop (secretSize - XXH_STRIPE_LEN - XXH_SECRET_LASTACC_START) secret))"

definition XXH3_mix2Accs :: "u64 list \<Rightarrow> bytes \<Rightarrow> u64" where
  "XXH3_mix2Accs acc secret =
     XXH3_mul128_fold64 (acc ! 0 XOR XXH_readLE64 secret 0) (acc ! 1 XOR XXH_readLE64 secret 8)"

definition XXH3_mergeAccs :: "u64 list \<Rightarrow> bytes \<Rightarrow> u64 \<Rightarrow> u64" where
  "XXH3_mergeAccs acc secret start =
     XXH3_avalanche (foldl (\<lambda>r i. r + XXH3_mix2Accs (drop (2 * i) acc) (drop (16 * i) secret)) start [0..<4])"

definition XXH3_finalizeLong_64b :: "u64 list \<Rightarrow> bytes \<Rightarrow> u64 \<Rightarrow> u64" where
  "XXH3_finalizeLong_64b acc secret len =
     XXH3_mergeAccs acc (drop XXH_SECRET_MERGEACCS_START secret) (len * XXH_PRIME64_1)"

definition XXH3_finalizeLong_128b :: "u64 list \<Rightarrow> bytes \<Rightarrow> nat \<Rightarrow> u64 \<Rightarrow> XXH128_hash_t" where
  "XXH3_finalizeLong_128b acc secret secretSize len =
     \<lparr>low64 = XXH3_finalizeLong_64b acc secret len,
      high64 = XXH3_mergeAccs acc (drop (secretSize - XXH_STRIPE_LEN - XXH_SECRET_MERGEACCS_START) secret)
                 (NOT (len * XXH_PRIME64_2))\<rparr>"

definition XXH3_INIT_ACC :: "u64 list" where
  "XXH3_INIT_ACC = [ucast XXH_PRIME32_3, XXH_PRIME64_1, XXH_PRIME64_2, XXH_PRIME64_3,
     XXH_PRIME64_4, ucast XXH_PRIME32_2, XXH_PRIME64_5, ucast XXH_PRIME32_1]"

definition XXH3_hashLong_64b_internal ::
  "bytes \<Rightarrow> nat \<Rightarrow> bytes \<Rightarrow> nat \<Rightarrow> accumulate_fn \<Rightarrow> scramble_fn \<Rightarrow> u64" where
  "XXH3_hashLong_64b_internal input len secret secretSize f_acc f_scramble =
     XXH3_finalizeLong_64b
       (XXH3_hashLong_internal_loop XXH3_INIT_ACC input len secret secretSize f_acc f_scramble) secret (of_nat len)"

definition XXH3_hashLong_128b_internal ::
  "bytes \<Rightarrow> nat \<Rightarrow> bytes \<Rightarrow> nat \<Rightarrow> accumulate_fn \<Rightarrow> scramble_fn \<Rightarrow> XXH128_hash_t" where
  "XXH3_hashLong_128b_internal input len secret secretSize f_acc f_scramble =
     XXH3_finalizeLong_128b
       (XXH3_hashLong_internal_loop XXH3_INIT_ACC input len secret secretSize f_acc f_scramble)
       secret secretSize (of_nat len)"

type_synonym hash_long_64 = "bytes \<Rightarrow> nat \<Rightarrow> u64 \<Rightarrow> bytes \<Rightarrow> nat \<Rightarrow> u64"

definition XXH3_hashLong_64b_withSecret :: hash_long_64 where
  "XXH3_hashLong_64b_withSecret input len seed64 secret secretLen =
     XXH3_hashLong_64b_internal input len secret secretLen XXH3_accumulate XXH3_scrambleAcc"

definition XXH3_hashLong_64b_default :: hash_long_64 where
  "XXH3_hashLong_64b_default input len seed64 secret secretLen =
     XXH3_hashLong_64b_internal input len XXH3_kSecret (length XXH3_kSecret) XXH3_accumulate XXH3_scrambleAcc"

definition XXH3_hashLong_64b_withSeed_internal ::
  "bytes \<Rightarrow> nat \<Rightarrow> u64 \<Rightarrow> accumulate_fn \<Rightarrow> scramble_fn \<Rightarrow> (u64 \<Rightarrow> bytes) \<Rightarrow> u64" where
  "XXH3_hashLong_64b_withSeed_internal input len seed f_acc f_scramble f_initSec =
     (if seed = 0 then XXH3_hashLong_64b_internal input len XXH3_kSecret (length XXH3_kSecret) f_acc f_scramble
      else let secret = f_initSec seed
           in XXH3_hashLong_64b_internal input len secret XXH_SECRET_DEFAULT_SIZE f_acc f_scramble)"

definition XXH3_hashLong_64b_withSeed :: hash_long_64 where
  "XXH3_hashLong_64b_withSeed input len seed secret secretLen =
     XXH3_hashLong_64b_withSeed_internal input len seed XXH3_accumulate XXH3_scrambleAcc XXH3_initCustomSecret"

definition XXH3_hashLong_128b_default :: hash_long_128 where
  "XXH3_hashLong_128b_default input len seed64 secret secretLen =
     XXH3_hashLong_128b_internal input len XXH3_kSecret (length XXH3_kSecret) XXH3_accumulate XXH3_scrambleAcc"

definition XXH3_hashLong_128b_withSecret :: hash_long_128 where
  "XXH3_hashLong_128b_withSecret input len seed64 secret secretLen =
     XXH3_hashLong_128b_internal input len secret secretLen XXH3_accumulate XXH3_scrambleAcc"

definition XXH3_hashLong_128b_withSeed_internal ::
  "bytes \<Rightarrow> nat \<Rightarrow> u64 \<Rightarrow> accumulate_fn \<Rightarrow> scramble_fn \<Rightarrow> (u64 \<Rightarrow> bytes) \<Rightarrow> XXH128_hash_t" where
  "XXH3_hashLong_128b_withSeed_internal input len seed64 f_acc f_scramble f_initSec =
     (if seed64 = 0 then XXH3_hashLong_128b_internal input len XXH3_kSecret (length XXH3_kSecret) f_acc f_scramble
      else let secret = f_initSec seed64
           in XXH3_hashLong_128b_internal input len secret XXH_SECRET_DEFAULT_SIZE f_acc f_scramble)"

definition XXH3_hashLong_128b_withSeed :: hash_long_128 where
  "XXH3_hashLong_128b_withSeed input len seed64 secret secretLen =
     XXH3_hashLong_128b_withSeed_internal input len seed64 XXH3_accumulate XXH3_scrambleAcc XXH3_initCustomSecret"

section \<open>Entry points\<close>

definition XXH3_64bits_internal :: "bytes \<Rightarrow> nat \<Rightarrow> u64 \<Rightarrow> bytes \<Rightarrow> nat \<Rightarrow> hash_long_64 \<Rightarrow> u64" where
  "XXH3_64bits_internal input len seed64 secret secretLen f_hashLong =
     (if len \<le> 16 then XXH3_len_0to16_64b input len secret seed64
      else if len \<le> 128 then XXH3_len_17to128_64b input len secret seed64
      else if len \<le> 240 then XXH3_len_129to240_64b input len secret seed64
      else f_hashLong input len seed64 secret secretLen)"

definition XXH3_64bits :: "bytes \<Rightarrow> nat \<Rightarrow> u64" where
  "XXH3_64bits input len =
     XXH3_64bits_internal input len 0 XXH3_kSecret (length XXH3_kSecret) XXH3_hashLong_64b_default"

definition XXH3_64bits_withSecret :: "bytes \<Rightarrow> nat \<Rightarrow> bytes \<Rightarrow> nat \<Rightarrow> u64" where
  "XXH3_64bits_withSecret input len secret secretSize =
     XXH3_64bits_internal input len 0 secret secretSize XXH3_hashLong_64b_withSecret"

definition XXH3_64bits_withSeed :: "bytes \<Rightarrow> nat \<Rightarrow> u64 \<Rightarrow> u64" where
  "XXH3_64bits_withSeed input len seed =
     XXH3_64bits_internal input len seed XXH3_kSecret (length XXH3_kSecret) XXH3_hashLong_64b_withSeed"

text \<open>For at most 240 bytes the null function pointer is not called.\<close>

definition XXH3_64bits_withSecretandSeed :: "bytes \<Rightarrow> nat \<Rightarrow> bytes \<Rightarrow> nat \<Rightarrow> u64 \<Rightarrow> u64" where
  "XXH3_64bits_withSecretandSeed input len secret secretSize seed =
     (if len \<le> 240
      then XXH3_64bits_internal input len seed XXH3_kSecret (length XXH3_kSecret) (\<lambda>_ _ _ _ _. 0)
      else XXH3_hashLong_64b_withSecret input len seed secret secretSize)"

definition XXH3_128bits :: "bytes \<Rightarrow> nat \<Rightarrow> XXH128_hash_t" where
  "XXH3_128bits input len =
     XXH3_128bits_internal input len 0 XXH3_kSecret (length XXH3_kSecret) XXH3_hashLong_128b_default"

definition XXH3_128bits_withSecret :: "bytes \<Rightarrow> nat \<Rightarrow> bytes \<Rightarrow> nat \<Rightarrow> XXH128_hash_t" where
  "XXH3_128bits_withSecret input len secret secretSize =
     XXH3_128bits_internal input len 0 secret secretSize XXH3_hashLong_128b_withSecret"

definition XXH3_128bits_withSeed :: "bytes \<Rightarrow> nat \<Rightarrow> u64 \<Rightarrow> XXH128_hash_t" where
  "XXH3_128bits_withSeed input len seed =
     XXH3_128bits_internal input len seed XXH3_kSecret (length XXH3_kSecret) XXH3_hashLong_128b_withSeed"

definition XXH3_128bits_withSecretandSeed :: "bytes \<Rightarrow> nat \<Rightarrow> bytes \<Rightarrow> nat \<Rightarrow> u64 \<Rightarrow> XXH128_hash_t" where
  "XXH3_128bits_withSecretandSeed input len secret secretSize seed =
     (if len \<le> 240
      then XXH3_128bits_internal input len seed XXH3_kSecret (length XXH3_kSecret) (\<lambda>_ _ _ _ _. \<lparr>low64 = 0, high64 = 0\<rparr>)
      else XXH3_hashLong_128b_withSecret input len seed secret secretSize)"

definition XXH128 :: "bytes \<Rightarrow> nat \<Rightarrow> u64 \<Rightarrow> XXH128_hash_t" where
  "XXH128 input len seed = XXH3_128bits_withSeed input len seed"

section \<open>Equivalent computations\<close>

lemma rounds_of_17to128:
  assumes "16 < len" "len \<le> 128"
  obtains "len \<le> 32" "(len - 1) div 32 = 0" | "32 < len" "len \<le> 64" "(len - 1) div 32 = Suc 0"
    | "64 < len" "len \<le> 96" "(len - 1) div 32 = Suc (Suc 0)" | "96 < len" "(len - 1) div 32 = Suc (Suc (Suc 0))"
proof -
  consider "len \<le> 32" | "32 < len" "len \<le> 64" | "64 < len" "len \<le> 96" | "96 < len" by linarith
  then show thesis
  proof cases
    case 1
    then show ?thesis using assms that(1) by simp
  next
    case 2
    then show ?thesis using assms that(2) by (simp add: div_nat_eqI)
  next
    case 3
    then show ?thesis using assms that(3) by (simp add: div_nat_eqI)
  next
    case 4
    then show ?thesis using assms that(4) by (simp add: div_nat_eqI)
  qed
qed

lemma XXH3_17to128_64b_unrolled:
  assumes "16 < len" "len \<le> 128"
  shows "XXH3_len_17to128_64b_small input len secret seed = XXH3_len_17to128_64b input len secret seed"
  using rounds_of_17to128 [OF assms]
  by cases (simp_all add: XXH3_len_17to128_64b_small_def XXH3_len_17to128_64b_def Let_def)

lemma XXH3_17to128_128b_unrolled:
  assumes "16 < len" "len \<le> 128"
  shows "XXH3_len_17to128_128b_small input len secret seed = XXH3_len_17to128_128b input len secret seed"
  using rounds_of_17to128 [OF assms]
  by cases (simp_all add: XXH3_len_17to128_128b_small_def XXH3_len_17to128_128b_def Let_def)

text \<open>What the vector code computes: every lane from the old accumulators.\<close>

definition accumulate_lanes :: "u64 list \<Rightarrow> bytes \<Rightarrow> bytes \<Rightarrow> u64 list" where
  "accumulate_lanes acc input secret =
     map (\<lambda>i. let data_key = XXH_readLE64 input (i * 8) XOR XXH_readLE64 secret (i * 8)
              in acc ! i + XXH_readLE64 input ((i XOR 1) * 8)
                 + XXH_mult32to64 (ucast data_key) (ucast (drop_bit 32 data_key))) [0..<8]"

lemma eight_lanes:
  assumes "length acc = 8"
  obtains a b c d e f g h where "acc = [a, b, c, d, e, f, g, h]"
  using assms by (auto simp: numeral_eq_Suc length_Suc_conv)

lemma upt_8: "[0..<8] = [0, 1, 2, 3, 4, 5, 6, 7 :: nat]"
  by (simp add: upt_rec)

lemma neighbours:
  "(0 :: nat) XOR 1 = 1" "(1 :: nat) XOR 1 = 0" "(2 :: nat) XOR 1 = 3" "(3 :: nat) XOR 1 = 2"
  "(4 :: nat) XOR 1 = 5" "(5 :: nat) XOR 1 = 4" "(6 :: nat) XOR 1 = 7" "(7 :: nat) XOR 1 = 6"
  by simp_all

lemma accumulate_512_lanes:
  assumes "length acc = 8"
  shows "XXH3_accumulate_512 acc input secret = accumulate_lanes acc input secret"
proof -
  define D where "D i = XXH_readLE64 input (i * 8)" for i
  define P where "P i = (let data_key = XXH_readLE64 input (i * 8) XOR XXH_readLE64 secret (i * 8)
    in XXH_mult32to64 (ucast data_key) (ucast (drop_bit 32 data_key)))" for i
  obtain a b c d e f g h where acc: "acc = [a, b, c, d, e, f, g, h]" using eight_lanes [OF assms] .
  have step: "XXH3_scalarRound xs input secret i
      = (let ys = xs[i XOR 1 := xs ! (i XOR 1) + D i] in ys[i := P i + ys ! i])" for xs i
    by (simp only: XXH3_scalarRound_def XXH_mult32to64_add64_def Let_def D_def P_def)
  have "accumulate_lanes acc input secret = map (\<lambda>i. acc ! i + D (i XOR 1) + P i) [0..<8]"
    by (simp only: accumulate_lanes_def Let_def D_def P_def)
  also have "\<dots> = foldl (\<lambda>a i. XXH3_scalarRound a input secret i) acc [0..<8]"
    unfolding upt_8 by (simp add: step acc neighbours Let_def)
  finally show ?thesis by (simp add: XXH3_accumulate_512_def XXH_ACC_NB_def)
qed

lemma length_scalarRound [simp]: "length (XXH3_scalarRound acc input secret i) = length acc"
  by (simp add: XXH3_scalarRound_def Let_def)

lemma length_accumulate_512 [simp]: "length (XXH3_accumulate_512 acc input secret) = length acc"
proof -
  have "length (foldl (\<lambda>a i. XXH3_scalarRound a input secret i) acc is) = length acc" for "is"
    by (induction "is" arbitrary: acc) simp_all
  then show ?thesis by (simp add: XXH3_accumulate_512_def)
qed

section \<open>The stripes of an input\<close>

text \<open>Reference: one stripe after the other, with a scramble when a block is complete. The state is
  the accumulators and the number of stripes in the current block.\<close>

definition stripe_step :: "bytes \<Rightarrow> nat \<Rightarrow> nat \<Rightarrow> u64 list \<times> nat \<Rightarrow> bytes \<Rightarrow> u64 list \<times> nat" where
  "stripe_step secret limit per st stripe =
     (let acc = XXH3_accumulate_512 (fst st) stripe (drop (snd st * 8) secret)
      in if snd st + 1 = per then (XXH3_scrambleAcc acc (drop limit secret), 0) else (acc, snd st + 1))"

definition stripes_run :: "bytes \<Rightarrow> nat \<Rightarrow> nat \<Rightarrow> u64 list \<times> nat \<Rightarrow> bytes \<Rightarrow> nat \<Rightarrow> u64 list \<times> nat" where
  "stripes_run secret limit per st input n =
     foldl (\<lambda>st k. stripe_step secret limit per st (drop (k * 64) input)) st [0..<n]"

lemma stripes_run_0 [simp]: "stripes_run secret limit per st input 0 = st"
  by (simp add: stripes_run_def)

lemma stripes_run_Suc:
  "stripes_run secret limit per st input (Suc n)
    = stripe_step secret limit per (stripes_run secret limit per st input n) (drop (n * 64) input)"
  by (simp add: stripes_run_def)

lemma stripes_run_add:
  "stripes_run secret limit per st input (m + n)
    = stripes_run secret limit per (stripes_run secret limit per st input m) (drop (m * 64) input) n"
  by (induction n) (simp_all add: stripes_run_Suc add_mult_distrib add.commute)

lemma accumulate_512_take: "XXH3_accumulate_512 acc (take 64 xs) secret = XXH3_accumulate_512 acc xs secret"
proof -
  have "XXH3_scalarRound a (take 64 xs) secret i = XXH3_scalarRound a xs secret i" if "i < 8" for a i
    using that by (simp add: XXH3_scalarRound_def readLE64_take)
  then show ?thesis
    unfolding XXH3_accumulate_512_def XXH_ACC_NB_def by (intro foldl_cong) simp_all
qed

lemma accumulate_512_cong:
  "take 64 xs = take 64 ys \<Longrightarrow> XXH3_accumulate_512 acc xs secret = XXH3_accumulate_512 acc ys secret"
  by (metis accumulate_512_take)

lemma stripe_step_cong:
  "take 64 xs = take 64 ys \<Longrightarrow> stripe_step secret limit per st xs = stripe_step secret limit per st ys"
  by (simp add: stripe_step_def accumulate_512_cong [of xs ys])

lemma stripes_run_cong:
  "take (64 * n) xs = take (64 * n) ys \<Longrightarrow> stripes_run secret limit per st xs n = stripes_run secret limit per st ys n"
proof (induction n)
  case (Suc n)
  have "take (64 * n) xs = take (64 * n) ys" using arg_cong [OF Suc.prems, of "take (64 * n)"] by simp
  moreover have "take 64 (drop (n * 64) xs) = take 64 (drop (n * 64) ys)"
    using arg_cong [OF Suc.prems, of "drop (n * 64)"] by (simp add: drop_take)
  ultimately show ?case by (simp add: stripes_run_Suc Suc.IH stripe_step_cong [of "drop (n * 64) xs"])
qed simp

lemma stripes_run_append: "64 * n \<le> length xs \<Longrightarrow> stripes_run secret limit per st (xs @ ys) n = stripes_run secret limit per st xs n"
  by (rule stripes_run_cong) simp

text \<open>\<open>XXH3_accumulate\<close> inside one block.\<close>

lemma XXH3_accumulate_Suc:
  "XXH3_accumulate acc input secret (Suc n)
    = XXH3_accumulate_512 (XXH3_accumulate acc input secret n) (drop (n * 64) input) (drop (n * 8) secret)"
  by (simp add: XXH3_accumulate_def xxh_sizes)

lemma run_in_block:
  "s + n < per \<Longrightarrow> stripes_run secret limit per (acc, s) input n
    = (XXH3_accumulate acc input (drop (s * 8) secret) n, s + n)"
proof (induction n)
  case 0
  then show ?case by (simp add: XXH3_accumulate_def)
next
  case (Suc n)
  then show ?case by (simp add: stripes_run_Suc stripe_step_def XXH3_accumulate_Suc add_mult_distrib add.commute)
qed

lemma run_to_block_end:
  assumes "s < per"
  shows "stripes_run secret limit per (acc, s) input (per - s)
    = (XXH3_scrambleAcc (XXH3_accumulate acc input (drop (s * 8) secret) (per - s)) (drop limit secret), 0)"
proof -
  obtain n where n: "per - s = Suc n" using assms by (cases "per - s") auto
  then have "s + n < per" "s + n + 1 = per" by linarith+
  then show ?thesis
    by (simp add: n stripes_run_Suc run_in_block stripe_step_def XXH3_accumulate_Suc add_mult_distrib add.commute)
qed

lemma blocks_run:
  assumes "0 < per"
  shows "(foldl (\<lambda>a n. XXH3_scrambleAcc (XXH3_accumulate a (drop (n * (64 * per)) input) secret per) (drop limit secret))
      acc [0..<b], 0) = stripes_run secret limit per (acc, 0) input (b * per)"
proof (induction b)
  case (Suc b)
  have "stripes_run secret limit per (acc, 0) input (Suc b * per)
      = stripes_run secret limit per (stripes_run secret limit per (acc, 0) input (b * per)) (drop (b * per * 64) input) per"
    using stripes_run_add [of secret limit per "(acc, 0)" input "b * per" per] by (simp add: add.commute)
  moreover have "b * per * 64 = b * (64 * per)" by simp
  ultimately show ?case
    using run_to_block_end [of 0 per secret limit _ "drop (b * (64 * per)) input"] assms
    by (simp flip: Suc.IH)
qed simp

text \<open>The loop over blocks is one pass over the stripes but the last, which ends with the input.\<close>

lemma hashLong_loop_run:
  assumes "64 + 8 \<le> secretSize" "0 < len"
  defines "limit \<equiv> secretSize - 64"
  shows "XXH3_hashLong_internal_loop acc input len secret secretSize XXH3_accumulate XXH3_scrambleAcc
    = XXH3_accumulate_512 (fst (stripes_run secret limit (limit div 8) (acc, 0) input ((len - 1) div 64)))
        (drop (len - 64) input) (drop (limit - 7) secret)"
proof -
  define per where "per = limit div 8"
  define b where "b = (len - 1) div (64 * per)"
  have per: "0 < per" using assms by (simp add: per_def limit_def)
  define r where "r = ((len - 1) - 64 * per * b) div 64"
  have b: "b = (len - 1) div 64 div per" by (simp add: b_def div_mult2_eq)
  have "len - 1 - 64 * (per * b) = len - 1 - 64 * (per * b)" by simp
  then have r: "r = (len - 1) div 64 - per * b"
    by (simp add: r_def mult.assoc div_mult_self1 minus_mult_div_eq_mod)
  have "r = (len - 1) div 64 mod per" by (simp add: r b minus_mult_div_eq_mod)
  then have "r < per" using per by simp
  have total: "(len - 1) div 64 = b * per + r" by (simp add: r b mult.commute)
  let ?acc1 = "foldl (\<lambda>a n. XXH3_scrambleAcc (XXH3_accumulate a (drop (n * (64 * per)) input) secret per) (drop limit secret)) acc [0..<b]"
  have "stripes_run secret limit per (acc, 0) input ((len - 1) div 64)
      = (XXH3_accumulate ?acc1 (drop (b * (64 * per)) input) secret r, r)"
    unfolding total stripes_run_add blocks_run [OF per, symmetric]
    using run_in_block [of 0 r per secret limit ?acc1 "drop (b * per * 64) input"] \<open>r < per\<close>
    by (simp add: mult_ac)
  then show ?thesis
    unfolding XXH3_hashLong_internal_loop_def Let_def xxh_sizes limit_def [symmetric] per_def [symmetric]
      b_def [symmetric] r_def [symmetric]
    by (simp only: fst_conv)
qed

section \<open>Injectivity on eight bytes\<close>

text \<open>On inputs of exactly eight bytes the 128-bit hash never collides: two inputs have
  the same hash only when they are equal.\<close>

theorem XXH3_128bits_inj_8:
  assumes "length a = 8" and "length b = 8"
  shows "XXH3_128bits a 8 = XXH3_128bits b 8 \<longleftrightarrow> a = b"
proof
  assume "XXH3_128bits a 8 = XXH3_128bits b 8"
  then have "XXH3_len_4to8_128b a 8 XXH3_kSecret 0 = XXH3_len_4to8_128b b 8 XXH3_kSecret 0"
    by (simp add: XXH3_128bits_def XXH3_128bits_internal_def XXH3_len_0to16_128b_def)
  from XXH3_len_4to8_inj [OF this] show "a = b"
    by (intro readLE32_halves_inj assms) simp_all
qed simp

theorem XXH3_128bits_inj_8_witness:
  "XXH3_128bits (replicate 8 0) 8 \<noteq> XXH3_128bits (1 # replicate 7 0) 8"
  using XXH3_128bits_inj_8 [of "replicate 8 0" "1 # replicate 7 0"] by (simp add: numeral_eq_Suc)

end
