(* ===== verification/Kvs_Command.thy ===== *)
theory Kvs_Command
  imports Globals
begin

text \<open>
  The in-memory form of a key-value command (\<open>kvs_command_t\<close> of
  \<open>include/globals.h\<close>) and the accessors of \<open>src/log_file.c\<close>. A command pointer is an
  offset into a buffer whose first byte lies at the address \<open>base\<close>; the accessors assert
  on the absolute address, as the code does. The encoding \<open>kvs_encode\<close> is the layout the
  comments of \<open>globals.h\<close> promise; the lemmas show that the accessors read it back and
  that a walk by \<open>kvs_command_len\<close> visits exactly the commands of a batch.
\<close>

section \<open>Layout\<close>

text \<open>\<open>key_length\<close>, \<open>value_length\<close> (4 bytes each), \<open>return_addr\<close> (a
  \<open>struct sockaddr_in\<close>, 16 bytes) and \<open>type\<close> (4 bytes), then \<open>data[]\<close>.\<close>

definition sizeof_kvs_command_t :: nat where
  "sizeof_kvs_command_t = 28"

record kvs_command_t =
  key_length :: u32
  value_length :: u32
  return_addr :: bytes
  cmd_type :: kvs_op_t

definition kvs_addr :: "u64 \<Rightarrow> nat \<Rightarrow> u64" where
  "kvs_addr base off = base + of_nat off"

definition kvs_key_length :: "bytes \<Rightarrow> nat \<Rightarrow> u32 res" where
  "kvs_key_length bs off = rd 4 bs off"

definition kvs_value_length :: "bytes \<Rightarrow> nat \<Rightarrow> u32 res" where
  "kvs_value_length bs off = rd 4 bs (off + 4)"

definition kvs_return_addr :: "bytes \<Rightarrow> nat \<Rightarrow> bytes res" where
  "kvs_return_addr bs off = rd_bytes bs (off + 8) 16"

definition kvs_type :: "bytes \<Rightarrow> nat \<Rightarrow> kvs_op_t res" where
  "kvs_type bs off = bindr (rd 4 bs (off + 24)) (\<lambda>n. Inr (kvs_op_of n))"

definition kvs_header :: "bytes \<Rightarrow> nat \<Rightarrow> kvs_command_t res" where
  "kvs_header bs off =
     bindr (kvs_key_length bs off) (\<lambda>k.
     bindr (kvs_value_length bs off) (\<lambda>v.
     bindr (kvs_return_addr bs off) (\<lambda>a.
     bindr (kvs_type bs off) (\<lambda>t.
       Inr \<lparr>key_length = k, value_length = v, return_addr = a, cmd_type = t\<rparr>))))"

section \<open>Accessors\<close>

definition kvs_command_len :: "u64 \<Rightarrow> bytes \<Rightarrow> nat \<Rightarrow> u64 res" where
  "kvs_command_len base bs off =
     bindr (assert_c (unat (kvs_addr base off) mod 8 = 0)) (\<lambda>_.
     bindr (kvs_value_length bs off) (\<lambda>vlen.
     bindr (kvs_key_length bs off) (\<lambda>klen.
       let len = of_nat sizeof_kvs_command_t + jump_to_alignment (ucast vlen) 4
                 + ucast klen + 1
       in Inr (jump_to_alignment len 8))))"

definition kvs_command_get_key :: "u64 \<Rightarrow> bytes \<Rightarrow> nat \<Rightarrow> nat res" where
  "kvs_command_get_key base bs off =
     bindr (assert_c (unat (kvs_addr base off) mod 8 = 0)) (\<lambda>_.
     bindr (kvs_value_length bs off) (\<lambda>vlen.
       let key_ptr = kvs_addr base (off + sizeof_kvs_command_t) + ucast vlen;
           key_ptr' = jump_to_alignment key_ptr 4
       in Inr (unat (key_ptr' - base))))"

definition kvs_command_get_value :: "u64 \<Rightarrow> bytes \<Rightarrow> nat \<Rightarrow> nat res" where
  "kvs_command_get_value base bs off =
     bindr (assert_c (unat (kvs_addr base off) mod 8 = 0)) (\<lambda>_.
       Inr (off + sizeof_kvs_command_t))"

section \<open>The encoding\<close>

text \<open>A command as a client means it.\<close>

record kvs_cmd =
  kc_op :: kvs_op_t
  kc_key :: bytes
  kc_value :: bytes
  kc_addr :: bytes

definition roundup :: "nat \<Rightarrow> nat \<Rightarrow> nat" where
  "roundup a n = (n + a - 1) div a * a"

definition kvs_pad :: "nat \<Rightarrow> nat \<Rightarrow> bytes" where
  "kvs_pad a n = replicate (roundup a n - n) 0"

text \<open>First the value, padded to four bytes, then the null-terminated key; the whole
  command padded to eight bytes.\<close>

definition kvs_body :: "kvs_cmd \<Rightarrow> bytes" where
  "kvs_body c =
     le_enc 4 (of_nat (length (kc_key c)) :: u32) @ le_enc 4 (of_nat (length (kc_value c)) :: u32)
     @ kc_addr c @ le_enc 4 (kvs_op_code (kc_op c))
     @ kc_value c @ kvs_pad 4 (length (kc_value c)) @ kc_key c @ [0]"

definition kvs_encode :: "kvs_cmd \<Rightarrow> bytes" where
  "kvs_encode c = kvs_body c @ kvs_pad 8 (length (kvs_body c))"

definition kvs_wf :: "kvs_cmd \<Rightarrow> bool" where
  "kvs_wf c \<longleftrightarrow> length (kc_addr c) = 16 \<and> 0 \<notin> set (kc_key c)
     \<and> length (kc_key c) < 2 ^ 32 \<and> length (kc_value c) < 2 ^ 32
     \<and> kc_op c \<in> {CMD_NOP, CMD_GET, CMD_SET, CMD_DELETE}"

section \<open>The accessors read the encoding back\<close>

lemma roundup_ge: "0 < a \<Longrightarrow> n \<le> roundup a n"
proof -
  assume a: "0 < a"
  have "n + a - 1 = (n + a - 1) div a * a + (n + a - 1) mod a" by simp
  moreover have "(n + a - 1) mod a < a" using a by simp
  ultimately show ?thesis unfolding roundup_def by linarith
qed

lemma roundup_add: "roundup a n - n + n = roundup a n" if "0 < a"
  using roundup_ge [OF that] by simp

lemma roundup_mod [simp]: "roundup a n mod a = 0"
  by (simp add: roundup_def)

lemma length_kvs_pad: "0 < a \<Longrightarrow> n + length (kvs_pad a n) = roundup a n"
  using roundup_ge by (simp add: kvs_pad_def)

lemma length_kvs_body:
  "kvs_wf c \<Longrightarrow> length (kvs_body c) = 28 + roundup 4 (length (kc_value c)) + length (kc_key c) + 1"
  using length_kvs_pad [of 4 "length (kc_value c)"] by (simp add: kvs_body_def kvs_wf_def)

lemma length_kvs_encode: "length (kvs_encode c) = roundup 8 (length (kvs_body c))"
  using length_kvs_pad [of 8 "length (kvs_body c)"] by (simp add: kvs_encode_def)

lemma kvs_encode_mod_8 [simp]: "length (kvs_encode c) mod 8 = 0"
  by (simp add: length_kvs_encode)

lemma kvs_encode_min: "kvs_wf c \<Longrightarrow> 32 \<le> length (kvs_encode c)"
  using roundup_ge [of 8 "length (kvs_body c)"] by (simp add: length_kvs_encode length_kvs_body roundup_def)

text \<open>The situation of every walk: a command encoded at an aligned offset of a buffer.\<close>

definition kvs_at :: "u64 \<Rightarrow> bytes \<Rightarrow> nat \<Rightarrow> kvs_cmd \<Rightarrow> bool" where
  "kvs_at base bs off c \<longleftrightarrow>
     (\<exists>post. bs = take off bs @ kvs_encode c @ post) \<and> off \<le> length bs \<and> kvs_wf c
     \<and> unat base mod 8 = 0 \<and> off mod 8 = 0 \<and> unat base + length bs < 2 ^ 64"

lemma kvs_atE:
  assumes "kvs_at base bs off c"
  obtains pre post where "bs = pre @ kvs_encode c @ post" "off = length pre" "kvs_wf c"
    "unat base mod 8 = 0" "length pre mod 8 = 0" "unat base + length bs < 2 ^ 64"
proof -
  from assms obtain post where "bs = take off bs @ kvs_encode c @ post"
    by (auto simp: kvs_at_def)
  with assms show thesis
    by (intro that [of "take off bs" post]) (auto simp: kvs_at_def)
qed

lemma kvs_at_bound:
  assumes "kvs_at base bs off c"
  shows "off + length (kvs_encode c) \<le> length bs"
  using assms by (elim kvs_atE) simp

lemma kvs_addr_aligned:
  assumes "unat base mod 8 = 0" "off mod 8 = 0" "unat base + off < 2 ^ 64"
  shows "unat (kvs_addr base off) mod 8 = 0"
proof -
  have "unat (kvs_addr base off) = unat base + off"
    using assms(3) by (simp add: kvs_addr_def unat_word_ariths unat_of_nat)
  with assms show ?thesis by (simp add: mod_add_eq mod_eq_0_iff_dvd)
qed

lemma kvs_at_aligned: "kvs_at base bs off c \<Longrightarrow> unat (kvs_addr base off) mod 8 = 0"
  by (rule kvs_addr_aligned) (auto simp: kvs_at_def)

lemma kvs_at_fields:
  assumes "kvs_at base bs off c"
  shows "kvs_key_length bs off = Inr (of_nat (length (kc_key c)))"
    and "kvs_value_length bs off = Inr (of_nat (length (kc_value c)))"
    and "kvs_return_addr bs off = Inr (kc_addr c)"
    and "kvs_type bs off = Inr (kc_op c)"
proof -
  from assms obtain pre post where
    bs: "bs = pre @ kvs_encode c @ post" and off: "off = length pre" and wf: "kvs_wf c"
    by (rule kvs_atE)
  let ?k = "le_enc 4 (of_nat (length (kc_key c)) :: u32)"
  let ?v = "le_enc 4 (of_nat (length (kc_value c)) :: u32)"
  let ?t = "le_enc 4 (kvs_op_code (kc_op c))"
  from wf have al: "length (kc_addr c) = 16" by (simp add: kvs_wf_def)
  obtain rest where e: "kvs_encode c @ post = ?k @ ?v @ kc_addr c @ ?t @ rest"
    by (simp add: kvs_encode_def kvs_body_def)
  show "kvs_key_length bs off = Inr (of_nat (length (kc_key c)))"
    unfolding kvs_key_length_def bs off e by (rule rd_at_prefix) simp_all
  show "kvs_value_length bs off = Inr (of_nat (length (kc_value c)))"
    unfolding kvs_value_length_def bs off e
    using rd_at_prefix [of "pre @ ?k" _ 4 "of_nat (length (kc_value c)) :: u32"] by simp
  show "kvs_return_addr bs off = Inr (kc_addr c)"
    unfolding kvs_return_addr_def bs off e
    using rd_bytes_at [of "pre @ ?k @ ?v" _ "kc_addr c" 16] al by simp
  show "kvs_type bs off = Inr (kc_op c)"
    unfolding kvs_type_def bs off e
    using rd_at_prefix [of "pre @ ?k @ ?v @ kc_addr c" _ 4 "kvs_op_code (kc_op c)"] al wf
    by (simp add: kvs_wf_def kvs_op_of_code)
qed

lemma unat_of_nat_u32: "n < 2 ^ 32 \<Longrightarrow> unat (of_nat n :: u32) = n"
  by (simp add: unat_of_nat)

lemma unat_of_nat_u64: "n < 2 ^ 64 \<Longrightarrow> unat (of_nat n :: u64) = n"
  by (simp add: unat_of_nat)

lemma kvs_at_command_len:
  assumes "kvs_at base bs off c"
  shows "kvs_command_len base bs off = Inr (of_nat (length (kvs_encode c)))"
proof -
  have wf: "kvs_wf c" using assms by (simp add: kvs_at_def)
  then have kv: "length (kc_key c) < 2 ^ 32" "length (kc_value c) < 2 ^ 32"
    by (simp_all add: kvs_wf_def)
  let ?v = "ucast (of_nat (length (kc_value c)) :: u32) :: u64"
  let ?k = "ucast (of_nat (length (kc_key c)) :: u32) :: u64"
  have u: "unat ?v = length (kc_value c)" "unat ?k = length (kc_key c)"
    using kv by (simp_all only: unat_ucast_u32 unat_of_nat_u32)
  have "unat ?v + 3 < 2 ^ 64"
    using kv(2) unfolding u by simp
  from jump_to_alignment_4 [OF this]
  have a4: "unat (jump_to_alignment ?v 4) = roundup 4 (length (kc_value c))"
    by (simp only: u roundup_def) simp
  have r4: "roundup 4 (length (kc_value c)) < 2 ^ 33"
    using kv unfolding roundup_def by (simp add: div_times_less_eq_dividend le_less_trans)
  let ?len = "of_nat sizeof_kvs_command_t + jump_to_alignment ?v 4 + ?k + 1 :: u64"
  have len: "unat ?len = length (kvs_body c)"
    using kv r4 by (simp add: sizeof_kvs_command_t_def unat_word_ariths a4 u length_kvs_body [OF wf] del: unat_ucast_u32)
  have "unat (jump_to_alignment ?len 8) = roundup 8 (length (kvs_body c))"
    using kv r4 by (subst jump_to_alignment_8) (simp_all only: len roundup_def length_kvs_body [OF wf], simp_all)
  then have "of_nat (unat (jump_to_alignment ?len 8)) = (of_nat (length (kvs_encode c)) :: u64)"
    by (simp only: length_kvs_encode)
  then have "jump_to_alignment ?len 8 = of_nat (length (kvs_encode c))"
    by simp
  then show ?thesis
    using kvs_at_aligned [OF assms] kvs_at_fields [OF assms]
    by (simp add: kvs_command_len_def Let_def)
qed
lemma roundup_plus_multiple:
  assumes "0 < a" and "b mod a = 0"
  shows "roundup a (b + n) = b + roundup a n"
proof -
  from assms(2) obtain k where k: "b = a * k" by (auto simp: mod_eq_0_iff_dvd)
  have "b + n + a - 1 = (n + a - 1) + a * k" using assms(1) by (simp add: k)
  moreover have "((n + a - 1) + a * k) div a = k + (n + a - 1) div a"
    using assms(1) by (subst div_mult_self2) simp_all
  ultimately show ?thesis
    by (simp only: roundup_def k distrib_right distrib_left mult.commute)
qed

lemma jump_to_alignment_aligned_4:
  assumes "unat p mod 4 = 0" "unat p + 3 < 2 ^ 64"
  shows "jump_to_alignment p 4 = p"
proof -
  have "(unat p + 3) div 4 * 4 = unat p" using assms(1) by presburger
  then have "unat (jump_to_alignment p 4) = unat p"
    using jump_to_alignment_4 [OF assms(2)] by simp
  then show ?thesis by (rule unsigned_word_eqI)
qed

lemma kvs_at_get_key:
  assumes "kvs_at base bs off c"
  shows "kvs_command_get_key base bs off
    = Inr (off + 28 + roundup 4 (length (kc_value c)))"
proof -
  from assms obtain pre post where
    bs: "bs = pre @ kvs_encode c @ post" and off: "off = length pre" and wf: "kvs_wf c"
    and al: "unat base mod 8 = 0" "length pre mod 8 = 0" and fits: "unat base + length bs < 2 ^ 64"
    by (rule kvs_atE)
  let ?n = "length (kc_value c)"
  have n: "?n < 2 ^ 32" using wf by (simp add: kvs_wf_def)
  have four: "28 + 4 * q + 4 \<le> roundup 8 (28 + 4 * q + k + 1)" for q k
    unfolding roundup_def by presburger
  have q: "4 * (roundup 4 ?n div 4) = roundup 4 ?n"
    by (simp add: roundup_def)
  have room: "off + 28 + roundup 4 ?n + 4 \<le> length bs"
    using length_kvs_body [OF wf] length_kvs_encode [of c] four [of "roundup 4 ?n div 4" "length (kc_key c)"]
    unfolding q by (simp add: bs off)
  have ge: "?n \<le> roundup 4 ?n" by (simp add: roundup_ge)
  have p: "unat (kvs_addr base (off + 28) + ucast (of_nat ?n :: u32)) = unat base + off + 28 + ?n"
    using room ge fits n
    by (simp add: kvs_addr_def unat_word_ariths unat_of_nat unat_of_nat_u32 mod_simps)
  have m4: "(unat base + off + 28) mod 4 = 0"
    using al off by presburger
  let ?p = "jump_to_alignment (kvs_addr base (off + 28) + ucast (of_nat ?n :: u32)) 4"
  have "unat ?p = roundup 4 (unat base + off + 28 + ?n)"
    using room ge fits by (subst jump_to_alignment_4) (simp_all only: p roundup_def, simp_all)
  then have kp: "unat ?p = unat base + off + 28 + roundup 4 ?n"
    using roundup_plus_multiple [OF _ m4] by simp
  from kp have "base \<le> ?p" by (simp add: word_le_nat_alt)
  with kp have "unat (?p - base) = off + 28 + roundup 4 ?n"
    by (simp add: unat_sub)
  then show ?thesis
    using kvs_at_aligned [OF assms] kvs_at_fields [OF assms]
    by (simp add: kvs_command_get_key_def sizeof_kvs_command_t_def Let_def)
qed

lemma kvs_at_key:
  assumes "kvs_at base bs off c"
  shows "bindr (kvs_command_get_key base bs off) (c_str bs) = Inr (kc_key c)"
proof -
  from assms obtain pre post where
    bs: "bs = pre @ kvs_encode c @ post" and off: "off = length pre" and wf: "kvs_wf c"
    by (rule kvs_atE)
  let ?hdr = "le_enc 4 (of_nat (length (kc_key c)) :: u32) @ le_enc 4 (of_nat (length (kc_value c)) :: u32)
     @ kc_addr c @ le_enc 4 (kvs_op_code (kc_op c)) @ kc_value c @ kvs_pad 4 (length (kc_value c))"
  have nz: "0 \<notin> set (kc_key c)" using wf by (simp add: kvs_wf_def)
  have L: "length (pre @ ?hdr) = off + 28 + roundup 4 (length (kc_value c))"
    using wf length_kvs_pad [of 4 "length (kc_value c)"] by (simp add: off kvs_wf_def)
  have B: "bs = (pre @ ?hdr) @ kc_key c @ 0 # kvs_pad 8 (length (kvs_body c)) @ post"
    by (simp add: bs kvs_encode_def kvs_body_def)
  have "c_str bs (off + 28 + roundup 4 (length (kc_value c))) = Inr (kc_key c)"
    by (subst B) (rule c_str_at [OF nz L])
  then show ?thesis by (simp add: kvs_at_get_key [OF assms])
qed

lemma kvs_at_value:
  assumes "kvs_at base bs off c"
  shows "bindr (kvs_command_get_value base bs off) (\<lambda>p. rd_bytes bs p (length (kc_value c)))
    = Inr (kc_value c)"
proof -
  from assms obtain pre post where
    bs: "bs = pre @ kvs_encode c @ post" and off: "off = length pre" and wf: "kvs_wf c"
    by (rule kvs_atE)
  let ?hdr = "le_enc 4 (of_nat (length (kc_key c)) :: u32) @ le_enc 4 (of_nat (length (kc_value c)) :: u32)
     @ kc_addr c @ le_enc 4 (kvs_op_code (kc_op c))"
  have "length (pre @ ?hdr) = off + 28"
    using wf by (simp add: off kvs_wf_def)
  moreover obtain rest where "bs = (pre @ ?hdr) @ kc_value c @ rest"
    by (simp add: bs kvs_encode_def kvs_body_def)
  ultimately have "rd_bytes bs (off + 28) (length (kc_value c)) = Inr (kc_value c)"
    using rd_bytes_at [of "pre @ ?hdr"] by metis
  then show ?thesis
    using kvs_at_aligned [OF assms] by (simp add: kvs_command_get_value_def sizeof_kvs_command_t_def)
qed

section \<open>Batches\<close>

definition kvs_batch :: "kvs_cmd list \<Rightarrow> bytes" where
  "kvs_batch cs = concat (map kvs_encode cs)"

lemma kvs_batch_simps [simp]:
  "kvs_batch [] = []"
  "kvs_batch (c # cs) = kvs_encode c @ kvs_batch cs"
  "kvs_batch (cs @ ds) = kvs_batch cs @ kvs_batch ds"
  by (simp_all add: kvs_batch_def)

lemma kvs_batch_mod_8 [simp]: "length (kvs_batch cs) mod 8 = 0"
proof (induction cs)
  case (Cons c cs)
  then show ?case
    using kvs_encode_mod_8 [of c] by (simp only: kvs_batch_simps length_append) presburger
qed simp

lemma kvs_at_batch:
  assumes "kvs_wf c" "unat base mod 8 = 0" "unat base + length (kvs_batch (ds @ c # cs)) < 2 ^ 64"
  shows "kvs_at base (kvs_batch (ds @ c # cs)) (length (kvs_batch ds)) c"
  using assms by (auto simp: kvs_at_def)

lemma kvs_batch_lt:
  "kvs_wf c \<Longrightarrow> length (kvs_batch ds) < length (kvs_batch (ds @ c # cs))"
  using kvs_encode_min [of c] by (cases "kvs_encode c") simp_all

text \<open>C19: Written at an aligned offset of a buffer, the layout the comments of
  \<open>globals.h\<close> describe is read back by the accessors: the length of the command, its
  operation, its key as a C string and its value are those of the command that was
  written.\<close>

theorem kvs_command_roundtrip:
  assumes "kvs_wf c" "unat base mod 8 = 0" "length pre mod 8 = 0"
    and "unat base + length (pre @ kvs_encode c @ post) < 2 ^ 64"
  shows "kvs_command_len base (pre @ kvs_encode c @ post) (length pre)
           = Inr (of_nat (length (kvs_encode c)))
    \<and> kvs_type (pre @ kvs_encode c @ post) (length pre) = Inr (kc_op c)
    \<and> bindr (kvs_command_get_key base (pre @ kvs_encode c @ post) (length pre))
         (c_str (pre @ kvs_encode c @ post)) = Inr (kc_key c)
    \<and> bindr (kvs_value_length (pre @ kvs_encode c @ post) (length pre)) (\<lambda>n.
         bindr (kvs_command_get_value base (pre @ kvs_encode c @ post) (length pre)) (\<lambda>p.
         rd_bytes (pre @ kvs_encode c @ post) p (unat n))) = Inr (kc_value c)"
proof -
  have at: "kvs_at base (pre @ kvs_encode c @ post) (length pre) c"
    using assms by (auto simp: kvs_at_def)
  have n: "unat (of_nat (length (kc_value c)) :: u32) = length (kc_value c)"
    using assms(1) by (intro unat_of_nat_u32) (simp add: kvs_wf_def)
  from kvs_at_command_len [OF at] kvs_at_fields [OF at] kvs_at_key [OF at] kvs_at_value [OF at]
  show ?thesis by (simp add: n)
qed

theorem kvs_command_roundtrip_witness:
  "kvs_command_len 4096
      (kvs_encode \<lparr>kc_op = CMD_SET, kc_key = [107], kc_value = [1, 2, 3, 4, 5], kc_addr = replicate 16 0\<rparr>) 0
    = Inr 40"
proof -
  let ?c = "\<lparr>kc_op = CMD_SET, kc_key = [107], kc_value = [1, 2, 3, 4, 5], kc_addr = replicate 16 0\<rparr>"
  have wf: "kvs_wf ?c" by (simp add: kvs_wf_def)
  have len: "length (kvs_encode ?c) = 40"
    using wf by (simp add: length_kvs_encode length_kvs_body roundup_def)
  show ?thesis
    using kvs_command_roundtrip [of ?c 4096 "[]" "[]"] wf len by simp
qed
end
