(* ===== verification/Log_File.thy ===== *)
theory Log_File
  imports XXH3_Long Kvs_Command
begin

text \<open>
  \<open>include/log_file.h\<close> and the batch part of \<open>src/log_file.c\<close>: the header that
  brackets every batch, its checksum, and the append-only log file. The file is its
  byte contents; every \<open>write\<close> is given an outcome by the operating system (an error, or
  the number of bytes it took), so short and failed writes are part of the model.
\<close>

section \<open>Headers and their checksum\<close>

record kvsb_header_t =
  kh_term :: u64
  kh_num_commands :: u64
  kh_log_index :: u64
  kh_data_length :: u64
  header_checsum :: XXH128_hash_t

definition MAGIC_NUMBER :: XXH128_hash_t where
  "MAGIC_NUMBER = \<lparr>low64 = 9723239452457707023, high64 = 15269755912704193040\<rparr>"

definition sizeof_kvsb_header_t :: nat where
  "sizeof_kvsb_header_t = 48"

text \<open>\<open>sizeof(header)\<close> where \<open>header\<close> is a pointer parameter.\<close>

definition sizeof_header_pointer :: nat where
  "sizeof_header_pointer = 8"

definition header_bytes :: "kvsb_header_t \<Rightarrow> bytes" where
  "header_bytes h =
     le_enc 8 (kh_term h) @ le_enc 8 (kh_num_commands h) @ le_enc 8 (kh_log_index h)
     @ le_enc 8 (kh_data_length h)
     @ le_enc 8 (low64 (header_checsum h)) @ le_enc 8 (high64 (header_checsum h))"

definition header_of_bytes :: "bytes \<Rightarrow> kvsb_header_t" where
  "header_of_bytes bs =
     \<lparr>kh_term = le_dec (take 8 bs), kh_num_commands = le_dec (take 8 (drop 8 bs)),
      kh_log_index = le_dec (take 8 (drop 16 bs)), kh_data_length = le_dec (take 8 (drop 24 bs)),
      header_checsum = \<lparr>low64 = le_dec (take 8 (drop 32 bs)), high64 = le_dec (take 8 (drop 40 bs))\<rparr>\<rparr>"

definition kvsb_header_calc_checksum :: "kvsb_header_t \<Rightarrow> kvsb_header_t" where
  "kvsb_header_calc_checksum header =
     (let header1 = header\<lparr>header_checsum := MAGIC_NUMBER\<rparr>;
          checksum = XXH3_128bits (header_bytes header1) sizeof_header_pointer
      in header1\<lparr>header_checsum := checksum\<rparr>)"

definition kvsb_header_validate_checksum ::
  "kvsb_header_t \<Rightarrow> bool \<times> kvsb_header_t" where
  "kvsb_header_validate_checksum header =
     (let checksum = header_checsum header;
          header1 = header\<lparr>header_checsum := MAGIC_NUMBER\<rparr>;
          checksum_found = XXH3_128bits (header_bytes header1) sizeof_header_pointer;
          header2 = header1\<lparr>header_checsum := checksum\<rparr>
      in (XXH128_cmp checksum checksum_found = 0, header2))"

section \<open>The log file\<close>

record cmd_buffer_t =
  cb_term :: u64
  cb_log_index :: u64
  cmds_length :: u64
  num_cmds :: u64
  cb_data :: bytes

record logfile_t =
  lf_contents :: bytes

definition sizeof_logfile_t :: nat where
  "sizeof_logfile_t = 4"

text \<open>A file offset or byte count stored in an \<open>int32_t\<close>.\<close>

definition to_int32 :: "nat \<Rightarrow> int" where
  "to_int32 n = sint (of_nat n :: u32)"

text \<open>The outcome of one \<open>write\<close> of \<open>n\<close> bytes at the end of the file: \<open>None\<close> is -1,
  \<open>Some k\<close> means that \<open>min k n\<close> bytes were written.\<close>

type_synonym write_outcome = "nat option"

definition lf_write :: "write_outcome \<Rightarrow> bytes \<Rightarrow> logfile_t \<Rightarrow> int \<times> logfile_t" where
  "lf_write w bs lf =
     (case w of None \<Rightarrow> (-1, lf)
      | Some k \<Rightarrow> (to_int32 (min k (length bs)),
                  lf\<lparr>lf_contents := lf_contents lf @ take k bs\<rparr>))"

text \<open>The header the append builds for a command buffer.\<close>

definition logfile_header :: "cmd_buffer_t \<Rightarrow> kvsb_header_t" where
  "logfile_header cmd_buffer =
     kvsb_header_calc_checksum
       \<lparr>kh_term = cb_term cmd_buffer, kh_num_commands = 0, kh_log_index = cb_log_index cmd_buffer,
        kh_data_length = cmds_length cmd_buffer, header_checsum = \<lparr>low64 = 0, high64 = 0\<rparr>\<rparr>"

definition logfile_append_data ::
  "write_outcome \<times> write_outcome \<times> write_outcome
    \<Rightarrow> logfile_t \<Rightarrow> cmd_buffer_t \<Rightarrow> logfile_t res" where
  "logfile_append_data ws logfile cmd_buffer =
     (case ws of (w1, w2, w3) \<Rightarrow>
      let header = logfile_header cmd_buffer in
      bindr (assert_c (to_int32 (length (lf_contents logfile)) \<ge> 0)) (\<lambda>_.
      let (res1, lf1) = lf_write w1 (header_bytes header) logfile in
      bindr (assert_c (res1 \<ge> 0)) (\<lambda>_.
      bindr (rd_bytes (cb_data cmd_buffer) 0 (unat (kh_data_length header))) (\<lambda>payload.
      let (res2, lf2) = lf_write w2 payload lf1 in
      bindr (assert_c (res2 \<ge> 0)) (\<lambda>_.
      let (res3, lf3) = lf_write w3 (header_bytes header) lf2 in
      bindr (assert_c (res3 \<ge> 0)) (\<lambda>_.
      Inr lf3))))))"

definition logfile_sizeof :: "logfile_t \<Rightarrow> nat" where
  "logfile_sizeof logfile = length (lf_contents logfile)"

text \<open>\<open>lseek(fd, -48, SEEK_END)\<close> fails with -1 when the file is shorter than a header.\<close>

definition logfile_get_last_tai :: "logfile_t \<Rightarrow> (u64 \<times> u64) res" where
  "logfile_get_last_tai logfile =
     (let len = logfile_sizeof logfile in
      if len < sizeof_logfile_t then
        bindr (assert_c (len = 0)) (\<lambda>_. Inr (0, 0))
      else
        let res = (if len < sizeof_kvsb_header_t then -1
                   else to_int32 (len - sizeof_kvsb_header_t)) in
        bindr (assert_c (res \<ge> 0)) (\<lambda>_.
        let header = header_of_bytes (drop (len - sizeof_kvsb_header_t) (lf_contents logfile)) in
        bindr (assert_c (fst (kvsb_header_validate_checksum header))) (\<lambda>_.
        Inr (kh_term header, kh_log_index header))))"

text \<open>\<open>logfile_get_data\<close> ignores the log file it is given and reads an asset file; the
  argument \<open>asset\<close> is its contents, \<open>None\<close> when \<open>fopen\<close> fails. The bytes read replace
  a prefix of the output buffer.\<close>

definition logfile_get_data ::
  "bytes option \<Rightarrow> logfile_t \<Rightarrow> u64 \<Rightarrow> bytes \<Rightarrow> nat \<Rightarrow> bytes res" where
  "logfile_get_data asset logfile cmd_offset out_buffer len =
     (case asset of None \<Rightarrow> Inl Null_deref
      | Some contents \<Rightarrow>
          bindr (assert_c (0 \<le> sint cmd_offset)) (\<lambda>_.
          let got = take len (drop (unat cmd_offset) contents) in
          if length out_buffer < length got then Inl Out_of_bounds
          else bindr (assert_c (to_int32 (length got) \<ge> 0)) (\<lambda>_.
               Inr (got @ drop (length got) out_buffer))))"

section \<open>Correctness of the headers\<close>

lemma length_header_bytes [simp]: "length (header_bytes h) = 48"
  by (simp add: header_bytes_def)

lemma header_roundtrip [simp]: "header_of_bytes (header_bytes h) = h"
  by (cases h) (simp add: header_of_bytes_def header_bytes_def)

lemma header_term_prefix: "take 8 (header_bytes h) = le_enc 8 (kh_term h)"
  by (simp add: header_bytes_def)

lemma XXH3_128bits_prefix_8:
  assumes "take 8 a = take 8 b" "8 \<le> length a" "8 \<le> length b"
  shows "XXH3_128bits a 8 = XXH3_128bits b 8"
proof -
  have "take 4 (take 8 a) = take 4 (take 8 b)" "drop 4 (take 8 a) = drop 4 (take 8 b)"
    by (simp_all only: assms(1))
  then have "take 4 a = take 4 b" "take 4 (drop 4 a) = take 4 (drop 4 b)"
    by (simp_all add: take_drop)
  then show ?thesis
    by (simp add: XXH3_128bits_def XXH3_128bits_internal_def XXH3_len_0to16_128b_def
        XXH3_len_4to8_128b_def XXH_readLE32_def)
qed

text \<open>The value both checksum routines compute: the hash of the eight bytes of the term.\<close>

definition term_hash :: "u64 \<Rightarrow> XXH128_hash_t" where
  "term_hash t = XXH3_128bits (le_enc 8 t) 8"

lemma header_hash: "XXH3_128bits (header_bytes h) 8 = term_hash (kh_term h)"
  unfolding term_hash_def by (rule XXH3_128bits_prefix_8) (simp_all add: header_term_prefix)

lemma term_hash_inj: "term_hash s = term_hash t \<longleftrightarrow> s = t"
  using le_enc_inj [of 8 s t] by (auto simp: term_hash_def XXH3_128bits_inj_8)

lemma calc_checksum_eq:
  "kvsb_header_calc_checksum h = h\<lparr>header_checsum := term_hash (kh_term h)\<rparr>"
  by (simp add: kvsb_header_calc_checksum_def sizeof_header_pointer_def header_hash)

lemma validate_iff:
  "kvsb_header_validate_checksum h = (header_checsum h = term_hash (kh_term h), h)"
  by (simp add: kvsb_header_validate_checksum_def sizeof_header_pointer_def header_hash XXH128_cmp_eq_0)

text \<open>A header whose checksum was computed by \<open>kvsb_header_calc_checksum\<close> is accepted by
  \<open>kvsb_header_validate_checksum\<close>, which also leaves the header as it found it.\<close>

theorem checksum_calc_validate:
  "kvsb_header_validate_checksum (kvsb_header_calc_checksum h) = (True, kvsb_header_calc_checksum h)"
  by (simp add: validate_iff calc_checksum_eq)

text \<open>What the checksum protects. A header written by the code and altered afterwards is
  still accepted exactly when its term and its checksum are unchanged or agree again: every
  change of the term alone is detected, and no change of the number of commands, the log
  index or the data length is.\<close>

theorem checksum_detects_only_term:
  "fst (kvsb_header_validate_checksum
      ((kvsb_header_calc_checksum h)\<lparr>kh_term := t, kh_num_commands := n, kh_log_index := i,
        kh_data_length := d\<rparr>)) \<longleftrightarrow> t = kh_term h"
  by (auto simp: validate_iff calc_checksum_eq term_hash_inj)

section \<open>Correctness of the log file\<close>

definition full_writes :: "write_outcome \<times> write_outcome \<times> write_outcome \<Rightarrow> nat \<Rightarrow> bool" where
  "full_writes ws n \<longleftrightarrow> (\<exists>a b c. ws = (Some a, Some b, Some c) \<and> 48 \<le> a \<and> n \<le> b \<and> 48 \<le> c)"

definition cmd_buffer_ok :: "cmd_buffer_t \<Rightarrow> bool" where
  "cmd_buffer_ok cb \<longleftrightarrow> unat (cmds_length cb) \<le> length (cb_data cb) \<and> unat (cmds_length cb) < 2 ^ 31"

definition log_record :: "cmd_buffer_t \<Rightarrow> bytes" where
  "log_record cb =
     header_bytes (logfile_header cb) @ take (unat (cmds_length cb)) (cb_data cb)
     @ header_bytes (logfile_header cb)"

lemma to_int32_small: "n < 2 ^ 31 \<Longrightarrow> to_int32 n = int n"
proof -
  assume n: "n < 2 ^ 31"
  have "to_int32 n = signed_take_bit 31 (int n)"
    using sint_sbintrunc' [of "int n", where 'a = 32] by (simp add: to_int32_def)
  with n show ?thesis by (simp add: signed_take_bit_int_eq_self)
qed

lemma to_int32_wraps: "2 ^ 31 \<le> n \<Longrightarrow> n < 2 ^ 32 \<Longrightarrow> to_int32 n < 0"
proof -
  assume n: "2 ^ 31 \<le> n" "n < 2 ^ 32"
  have "to_int32 n = signed_take_bit 31 (int n)"
    using sint_sbintrunc' [of "int n", where 'a = 32] by (simp add: to_int32_def)
  moreover have "int n div 2 ^ 31 = 1" using n by simp
  then have "bit (int n) 31" by (simp add: bit_iff_odd)
  ultimately show ?thesis by (simp add: signed_take_bit_negative_iff)
qed

lemma lf_write_full:
  assumes "length bs \<le> k" "length bs < 2 ^ 31"
  shows "lf_write (Some k) bs lf = (int (length bs), lf\<lparr>lf_contents := lf_contents lf @ bs\<rparr>)"
  using assms by (simp add: lf_write_def to_int32_small min_absorb2)

lemma lf_write_any:
  assumes "length bs < 2 ^ 31"
  shows "lf_write (Some k) bs lf
    = (int (min k (length bs)), lf\<lparr>lf_contents := lf_contents lf @ take k bs\<rparr>)"
  using assms by (simp add: lf_write_def to_int32_small)

lemma logfile_append_any:
  assumes "cmd_buffer_ok cb" "length (lf_contents lf) < 2 ^ 31" "48 \<le> a" "48 \<le> c"
  shows "logfile_append_data (Some a, Some k, Some c) lf cb
    = Inr (lf\<lparr>lf_contents := lf_contents lf @ header_bytes (logfile_header cb)
        @ take k (take (unat (cmds_length cb)) (cb_data cb)) @ header_bytes (logfile_header cb)\<rparr>)"
proof -
  let ?p = "take (unat (cmds_length cb)) (cb_data cb)"
  have dl: "kh_data_length (logfile_header cb) = cmds_length cb"
    by (simp add: logfile_header_def calc_checksum_eq)
  have p: "rd_bytes (cb_data cb) 0 (unat (cmds_length cb)) = Inr ?p"
    using assms(1) by (simp add: rd_bytes_def cmd_buffer_ok_def)
  have "length ?p < 2 ^ 31"
    using assms(1) by (simp add: cmd_buffer_ok_def)
  with assms show ?thesis
    by (simp add: logfile_append_data_def to_int32_small dl p lf_write_full lf_write_any Let_def)
qed

text \<open>With writes that complete, on a file shorter than 2 GiB, an append adds exactly one
  record to the end of the file and keeps every earlier byte: a header, the commands of the
  buffer, and the same header again.\<close>

theorem logfile_append_full:
  assumes "full_writes ws (unat (cmds_length cb))" "cmd_buffer_ok cb"
    and "length (lf_contents lf) < 2 ^ 31"
  shows "logfile_append_data ws lf cb
    = Inr (lf\<lparr>lf_contents := lf_contents lf @ log_record cb\<rparr>)"
  using assms by (auto simp: full_writes_def logfile_append_any log_record_def)

lemma last_header_tai:
  assumes "lf_contents lf = pre @ header_bytes h" "length pre < 2 ^ 31"
    and "header_checsum h = term_hash (kh_term h)"
  shows "logfile_get_last_tai lf = Inr (kh_term h, kh_log_index h)"
  using assms by (simp add: logfile_get_last_tai_def logfile_sizeof_def sizeof_logfile_t_def
      sizeof_kvsb_header_t_def to_int32_small validate_iff Let_def)

text \<open>C21: What was appended last is what \<open>logfile_get_last_tai\<close> reports: after a complete
  append the trailing header passes its checksum and yields the term and the log index of
  the appended buffer.\<close>

theorem append_then_last_tai:
  assumes "full_writes ws (unat (cmds_length cb))" "cmd_buffer_ok cb"
    and "length (lf_contents lf) + unat (cmds_length cb) + 48 < 2 ^ 31"
  shows "bindr (logfile_append_data ws lf cb) (logfile_get_last_tai)
    = Inr (cb_term cb, cb_log_index cb)"
proof -
  let ?h = "logfile_header cb"
  let ?pre = "lf_contents lf @ header_bytes ?h @ take (unat (cmds_length cb)) (cb_data cb)"
  have app: "logfile_append_data ws lf cb = Inr (lf\<lparr>lf_contents := ?pre @ header_bytes ?h\<rparr>)"
    using assms by (auto simp: full_writes_def logfile_append_any)
  have "length ?pre < 2 ^ 31"
    using assms(2,3) by (simp add: cmd_buffer_ok_def)
  then show ?thesis
    by (simp add: app last_header_tai [of _ ?pre ?h] logfile_header_def calc_checksum_eq)
qed

text \<open>The offset returned by \<open>lseek\<close> is kept in an \<open>int32_t\<close>, so once the file has
  reached 2 GiB (and until 4 GiB) every append fails its assertion, whatever the buffer.\<close>

theorem logfile_append_2gib:
  assumes "2 ^ 31 \<le> length (lf_contents lf)" "length (lf_contents lf) < 2 ^ 32"
  shows "logfile_append_data ws lf cb = Inl Assert_failed"
proof -
  have "\<not> to_int32 (length (lf_contents lf)) \<ge> 0"
    using to_int32_wraps [OF assms] by simp
  then have "assert_c (to_int32 (length (lf_contents lf)) \<ge> 0) = Inl Assert_failed"
    by (simp only: assert_c_def if_False)
  then show ?thesis
    by (simp add: logfile_append_data_def split: prod.splits)
qed

text \<open>A \<open>write\<close> of the commands that takes only \<open>k\<close> bytes goes unnoticed: the append
  succeeds, the record in the file lacks the rest of the commands, and the trailing header
  still validates and reports the buffer's term and index.\<close>

theorem logfile_append_short_write:
  assumes "cmd_buffer_ok cb" "k < unat (cmds_length cb)"
    and "length (lf_contents lf) + unat (cmds_length cb) + 48 < 2 ^ 31"
  shows "\<exists>lf'. logfile_append_data (Some 48, Some k, Some 48) lf cb = Inr lf'
    \<and> length (lf_contents lf') = length (lf_contents lf) + 48 + k + 48
    \<and> logfile_get_last_tai lf' = Inr (cb_term cb, cb_log_index cb)"
proof -
  let ?h = "logfile_header cb"
  let ?pre = "lf_contents lf @ header_bytes ?h @ take k (take (unat (cmds_length cb)) (cb_data cb))"
  have len: "length ?pre = length (lf_contents lf) + 48 + k"
    using assms(1,2) by (simp add: cmd_buffer_ok_def)
  have "logfile_append_data (Some 48, Some k, Some 48) lf cb
      = Inr (lf\<lparr>lf_contents := ?pre @ header_bytes ?h\<rparr>)"
    using assms by (simp add: logfile_append_any)
  moreover have "logfile_get_last_tai (lf\<lparr>lf_contents := ?pre @ header_bytes ?h\<rparr>)
      = Inr (cb_term cb, cb_log_index cb)"
    using last_header_tai [of _ ?pre ?h] len assms(2,3)
    by (simp add: logfile_header_def calc_checksum_eq)
  ultimately show ?thesis using len by simp
qed

section \<open>Concrete instances\<close>

definition sample_buffer :: cmd_buffer_t where
  "sample_buffer = \<lparr>cb_term = 3, cb_log_index = 7, cmds_length = 8, num_cmds = 1, cb_data = replicate 8 1\<rparr>"

lemma sample_buffer_ok: "cmd_buffer_ok sample_buffer"
  by (simp add: cmd_buffer_ok_def sample_buffer_def)

lemma sample_full_writes: "full_writes (Some 48, Some 8, Some 48) (unat (cmds_length sample_buffer))"
  by (simp add: full_writes_def sample_buffer_def)

theorem logfile_append_full_witness:
  "logfile_append_data (Some 48, Some 8, Some 48) \<lparr>lf_contents = [5]\<rparr> sample_buffer
   = Inr \<lparr>lf_contents = 5 # log_record sample_buffer\<rparr>"
  using logfile_append_full [OF sample_full_writes sample_buffer_ok, of "\<lparr>lf_contents = [5]\<rparr>"] by simp

theorem append_then_last_tai_witness:
  "bindr (logfile_append_data (Some 48, Some 8, Some 48) \<lparr>lf_contents = []\<rparr> sample_buffer)
     (logfile_get_last_tai) = Inr (3, 7)"
  using append_then_last_tai [OF sample_full_writes sample_buffer_ok, of "\<lparr>lf_contents = []\<rparr>"]
  by (simp add: sample_buffer_def)

theorem logfile_append_2gib_witness:
  "logfile_append_data (Some 48, Some 8, Some 48)
     \<lparr>lf_contents = replicate (2 ^ 31) 0\<rparr> sample_buffer = Inl Assert_failed"
  by (rule logfile_append_2gib) (simp_all only: logfile_t.select_convs length_replicate, simp_all)

theorem logfile_append_short_write_witness:
  "\<exists>lf'. logfile_append_data (Some 48, Some 2, Some 48) \<lparr>lf_contents = []\<rparr> sample_buffer = Inr lf'
    \<and> length (lf_contents lf') = 98 \<and> logfile_get_last_tai lf' = Inr (3, 7)"
  using logfile_append_short_write [OF sample_buffer_ok, of 2 "\<lparr>lf_contents = []\<rparr>"]
  by (simp add: sample_buffer_def)

end
