(* ===== verification/Spsc.thy ===== *)
theory Spsc
  imports Prelude
begin

text \<open>
  \<open>src/spsc.c\<close>: the message queues between the threads, wrappers around GLib's
  \<open>GAsyncQueue\<close>. GLib is not part of the repository: its push and pop are arguments of the
  definitions, and the locale \<open>glib_async_queue\<close> states what its documentation promises (a
  FIFO queue whose pop blocks while it is empty). The locale \<open>fifo_channel\<close> is what the
  threads rely on; the sublocale derives it for the wrappers from the GLib contract.
\<close>

section \<open>The queue and its operations\<close>

definition ENOMEM :: int where "ENOMEM = 12"
definition EPIPE :: int where "EPIPE = 32"

record 'g spsc_queue_t =
  gqueue :: "'g option"
  element_size :: nat

text \<open>\<open>spsc_queue_init\<close>: \<open>fresh\<close> is what \<open>g_async_queue_new_full\<close> returned.\<close>

definition spsc_queue_init :: "'g option \<Rightarrow> 'g spsc_queue_t \<Rightarrow> nat \<Rightarrow> (int \<times> 'g spsc_queue_t) res" where
  "spsc_queue_init fresh queue user_element_size =
     bindr (assert_c (0 < user_element_size)) (\<lambda>_.
       case fresh of
         None \<Rightarrow> Inr (- ENOMEM, queue\<lparr>gqueue := None\<rparr>)
       | Some g \<Rightarrow> Inr (0, queue\<lparr>gqueue := Some g, element_size := user_element_size\<rparr>))"

definition spsc_queue_destroy :: "'g spsc_queue_t \<Rightarrow> (int \<times> 'g spsc_queue_t) res" where
  "spsc_queue_destroy queue =
     bindr (assert_c (gqueue queue \<noteq> None)) (\<lambda>_.
       Inr (0, queue\<lparr>gqueue := None, element_size := 0\<rparr>))"

text \<open>\<open>spsc_queue_enqueue\<close>: \<open>dup\<close> tells whether \<open>g_memdup2\<close> found memory; the item is
  the memory the caller's pointer points to, \<open>None\<close> for a null pointer.\<close>

definition spsc_queue_enqueue ::
  "('g \<Rightarrow> bytes \<Rightarrow> 'g) \<Rightarrow> bool \<Rightarrow> 'g spsc_queue_t \<Rightarrow> bytes option \<Rightarrow> (int \<times> 'g spsc_queue_t) res" where
  "spsc_queue_enqueue g_push dup queue item_data_ptr =
     (case (gqueue queue, item_data_ptr) of
        (Some g, Some item) \<Rightarrow>
          bindr (assert_c (0 < element_size queue)) (\<lambda>_.
          bindr (rd_bytes item 0 (element_size queue)) (\<lambda>item_copy.
            if \<not> dup then Inr (- ENOMEM, queue)
            else Inr (0, queue\<lparr>gqueue := Some (g_push g item_copy)\<rparr>)))
      | _ \<Rightarrow> Inl Assert_failed)"

text \<open>\<open>spsc_queue_dequeue\<close>: \<open>g_pop\<close> gives \<open>None\<close> while it blocks, otherwise the pointer
  it returns (\<open>None\<close> for a null pointer) and the queue left behind. The result is
  \<open>None\<close> while the call blocks.\<close>

definition spsc_queue_dequeue ::
  "('g \<Rightarrow> (bytes option \<times> 'g) option) \<Rightarrow> 'g spsc_queue_t \<Rightarrow> bytes option
    \<Rightarrow> (int \<times> bytes \<times> 'g spsc_queue_t) option res" where
  "spsc_queue_dequeue g_pop queue buffer_for_item_ptr =
     (case (gqueue queue, buffer_for_item_ptr) of
        (Some g, Some buffer) \<Rightarrow>
          bindr (assert_c (0 < element_size queue)) (\<lambda>_.
            if length buffer < element_size queue then Inl Out_of_bounds
            else case g_pop g of
              None \<Rightarrow> Inr None
            | Some (None, g') \<Rightarrow>
                Inr (Some (- EPIPE,
                  replicate (element_size queue) 0 @ drop (element_size queue) buffer,
                  queue\<lparr>gqueue := Some g'\<rparr>))
            | Some (Some item_copy, g') \<Rightarrow>
                Inr (Some (0, item_copy @ drop (element_size queue) buffer,
                  queue\<lparr>gqueue := Some g'\<rparr>)))
      | _ \<Rightarrow> Inl Assert_failed)"

section \<open>Interfaces\<close>

locale glib_async_queue =
  fixes g_push :: "'g \<Rightarrow> bytes \<Rightarrow> 'g"
    and g_pop :: "'g \<Rightarrow> (bytes option \<times> 'g) option"
    and g_items :: "'g \<Rightarrow> bytes list"
  assumes items_push: "g_items (g_push g x) = g_items g @ [x]"
    and pop_blocks: "g_items g = [] \<Longrightarrow> g_pop g = None"
    and pop_first: "g_items g = x # xs \<Longrightarrow> \<exists>g'. g_pop g = Some (Some x, g') \<and> g_items g' = xs"

section \<open>Channels\<close>

text \<open>A channel as the threads use it: sending fixed-size items and receiving them into a
  buffer of that size.\<close>

datatype chan_op = Send bytes | Recv

text \<open>One operation on the queue and the list of items received so far; a receive that
  would block leaves both alone.\<close>

definition chan_step ::
  "('q \<Rightarrow> bytes option \<Rightarrow> (int \<times> 'q) res) \<Rightarrow> ('q \<Rightarrow> bytes option \<Rightarrow> (int \<times> bytes \<times> 'q) option res)
    \<Rightarrow> ('q \<Rightarrow> nat) \<Rightarrow> 'q \<times> bytes list \<Rightarrow> chan_op \<Rightarrow> ('q \<times> bytes list) res" where
  "chan_step send recv size_of s op =
     (case op of
        Send x \<Rightarrow> bindr (send (fst s) (Some x)) (\<lambda>(r, q'). Inr (q', snd s))
      | Recv \<Rightarrow> bindr (recv (fst s) (Some (replicate (size_of (fst s)) 0)))
          (\<lambda>r. case r of None \<Rightarrow> Inr s | Some (_, x, q') \<Rightarrow> Inr (q', snd s @ [x])))"

fun chan_run ::
  "('q \<Rightarrow> bytes option \<Rightarrow> (int \<times> 'q) res) \<Rightarrow> ('q \<Rightarrow> bytes option \<Rightarrow> (int \<times> bytes \<times> 'q) option res)
    \<Rightarrow> ('q \<Rightarrow> nat) \<Rightarrow> 'q \<times> bytes list \<Rightarrow> chan_op list \<Rightarrow> ('q \<times> bytes list) res" where
  "chan_run send recv size_of s [] = Inr s"
| "chan_run send recv size_of s (op # ops) =
     bindr (chan_step send recv size_of s op) (\<lambda>s'. chan_run send recv size_of s' ops)"

fun sent :: "chan_op list \<Rightarrow> bytes list" where
  "sent [] = []"
| "sent (Send x # ops) = x # sent ops"
| "sent (Recv # ops) = sent ops"

locale fifo_channel =
  fixes send :: "'q \<Rightarrow> bytes option \<Rightarrow> (int \<times> 'q) res"
    and recv :: "'q \<Rightarrow> bytes option \<Rightarrow> (int \<times> bytes \<times> 'q) option res"
    and items :: "'q \<Rightarrow> bytes list"
    and size_of :: "'q \<Rightarrow> nat"
    and invar :: "'q \<Rightarrow> bool"
  assumes send_ok: "invar q \<Longrightarrow> length x = size_of q \<Longrightarrow>
      \<exists>q'. send q (Some x) = Inr (0, q') \<and> items q' = items q @ [x] \<and> invar q' \<and> size_of q' = size_of q"
    and recv_blocks: "invar q \<Longrightarrow> items q = [] \<Longrightarrow> length buf = size_of q \<Longrightarrow> recv q (Some buf) = Inr None"
    and recv_ok: "invar q \<Longrightarrow> items q = x # xs \<Longrightarrow> length buf = size_of q \<Longrightarrow>
      \<exists>q'. recv q (Some buf) = Inr (Some (0, x, q')) \<and> items q' = xs \<and> invar q' \<and> size_of q' = size_of q"
begin

lemma chan_step_ok:
  assumes "invar q" "\<forall>x. op = Send x \<longrightarrow> length x = size_of q"
  shows "\<exists>q' got'. chan_step send recv size_of (q, got) op = Inr (q', got') \<and> invar q' \<and> size_of q' = size_of q
    \<and> got' @ items q' = got @ items q @ sent [op]"
proof (cases op)
  case (Send x)
  with send_ok [OF assms(1), of x] assms(2) show ?thesis
    by (auto simp: chan_step_def)
next
  case Recv
  show ?thesis
  proof (cases "items q")
    case Nil
    with recv_blocks [OF assms(1), of "replicate (size_of q) 0"] assms(1) Recv show ?thesis
      by (auto simp: chan_step_def)
  next
    case (Cons x xs)
    with recv_ok [OF assms(1), of x xs "replicate (size_of q) 0"] Recv show ?thesis
      by (auto simp: chan_step_def)
  qed
qed

lemma chan_run_fifo:
  assumes "invar q" "\<forall>x. Send x \<in> set ops \<longrightarrow> length x = size_of q"
  shows "\<exists>q' got'. chan_run send recv size_of (q, got) ops = Inr (q', got') \<and> invar q'
    \<and> got' @ items q' = got @ items q @ sent ops"
  using assms
proof (induction ops arbitrary: q got)
  case Nil
  then show ?case by simp
next
  case (Cons op ops)
  then obtain q1 got1 where s: "chan_step send recv size_of (q, got) op = Inr (q1, got1)" "invar q1"
    "size_of q1 = size_of q" "got1 @ items q1 = got @ items q @ sent [op]"
    using chan_step_ok [of q op got] by auto
  with Cons.prems obtain q' got' where r: "chan_run send recv size_of (q1, got1) ops = Inr (q', got')" "invar q'"
    "got' @ items q' = got1 @ items q1 @ sent ops"
    using Cons.IH [of q1 got1] by auto
  have "sent (op # ops) = sent [op] @ sent ops" by (cases op) simp_all
  with s r show ?case by (metis append.assoc bindr_Inr chan_run.simps(2))
qed

end

text \<open>The items a GLib queue inside a wrapper holds, and the wrapper's invariant: it is
  initialised and every item has the element size.\<close>

definition spsc_items :: "('g \<Rightarrow> bytes list) \<Rightarrow> 'g spsc_queue_t \<Rightarrow> bytes list" where
  "spsc_items g_items q = (case gqueue q of None \<Rightarrow> [] | Some g \<Rightarrow> g_items g)"

definition spsc_invar :: "('g \<Rightarrow> bytes list) \<Rightarrow> 'g spsc_queue_t \<Rightarrow> bool" where
  "spsc_invar g_items q \<longleftrightarrow> gqueue q \<noteq> None \<and> 0 < element_size q
     \<and> (\<forall>x \<in> set (spsc_items g_items q). length x = element_size q)"

sublocale glib_async_queue \<subseteq> wrapped: fifo_channel
  "spsc_queue_enqueue g_push True" "spsc_queue_dequeue g_pop" "spsc_items g_items" element_size
  "spsc_invar g_items"
proof unfold_locales
  fix q and x :: bytes
  assume "spsc_invar g_items q" "length x = element_size q"
  then show "\<exists>q'. spsc_queue_enqueue g_push True q (Some x) = Inr (0, q')
      \<and> spsc_items g_items q' = spsc_items g_items q @ [x] \<and> spsc_invar g_items q'
      \<and> element_size q' = element_size q"
    by (auto simp: spsc_queue_enqueue_def spsc_invar_def spsc_items_def rd_bytes_def items_push)
next
  fix q and buf :: bytes
  assume "spsc_invar g_items q" "spsc_items g_items q = []" "length buf = element_size q"
  then show "spsc_queue_dequeue g_pop q (Some buf) = Inr None"
    by (auto simp: spsc_queue_dequeue_def spsc_invar_def spsc_items_def pop_blocks)
next
  fix q and x buf :: bytes and xs
  assume a: "spsc_invar g_items q" "spsc_items g_items q = x # xs" "length buf = element_size q"
  then obtain g where g: "gqueue q = Some g" "g_items g = x # xs"
    by (auto simp: spsc_invar_def spsc_items_def)
  obtain g' where "g_pop g = Some (Some x, g')" "g_items g' = xs"
    using pop_first [OF g(2)] by blast
  with a g show "\<exists>q'. spsc_queue_dequeue g_pop q (Some buf) = Inr (Some (0, x, q'))
      \<and> spsc_items g_items q' = xs \<and> spsc_invar g_items q' \<and> element_size q' = element_size q"
    by (auto simp: spsc_queue_dequeue_def spsc_invar_def spsc_items_def)
qed

context glib_async_queue
begin

lemma wrapped_fifo:
  assumes "spsc_invar g_items q" "\<forall>x. Send x \<in> set ops \<longrightarrow> length x = element_size q"
  shows "\<exists>q' got'. chan_run (spsc_queue_enqueue g_push True) (spsc_queue_dequeue g_pop) element_size (q, got) ops
    = Inr (q', got') \<and> spsc_invar g_items q' \<and> got' @ spsc_items g_items q' = got @ spsc_items g_items q @ sent ops"
  using assms by (rule wrapped.chan_run_fifo)

end

section \<open>FIFO delivery\<close>

text \<open>C30: With a GLib queue that behaves as documented, any interleaving of sends and receives
  on an initialised queue delivers, in order, a prefix of what was sent; the rest is still
  in the queue, and no operation fails.\<close>

theorem spsc_fifo:
  assumes "glib_async_queue g_push g_pop g_items" "spsc_invar g_items q"
    and "\<forall>x. Send x \<in> set ops \<longrightarrow> length x = element_size q"
  shows "\<exists>q' got. chan_run (spsc_queue_enqueue g_push True) (spsc_queue_dequeue g_pop) element_size (q, []) ops
      = Inr (q', got) \<and> spsc_items g_items q @ sent ops = got @ spsc_items g_items q'"
  using glib_async_queue.wrapped_fifo [OF assms, of "[]"] by fastforce

text \<open>The result of \<open>spsc_queue_init\<close> on a fresh empty queue is an initialised, empty
  queue of the requested element size.\<close>

theorem spsc_init_invar:
  assumes "0 < n" "g_items g = []"
  shows "\<exists>q'. spsc_queue_init (Some g) q n = Inr (0, q') \<and> spsc_invar g_items q'
    \<and> spsc_items g_items q' = [] \<and> element_size q' = n"
  using assms by (simp add: spsc_queue_init_def spsc_invar_def spsc_items_def)

section \<open>An executable queue with the GLib contract\<close>

definition list_push :: "bytes list \<Rightarrow> bytes \<Rightarrow> bytes list" where
  "list_push g x = g @ [x]"

fun list_pop :: "bytes list \<Rightarrow> (bytes option \<times> bytes list) option" where
  "list_pop [] = None"
| "list_pop (x # xs) = Some (Some x, xs)"

interpretation list_queue: glib_async_queue list_push list_pop "\<lambda>g. g"
  by unfold_locales (simp_all add: list_push_def)

theorem spsc_fifo_witness:
  "\<exists>q' got. chan_run (spsc_queue_enqueue list_push True) (spsc_queue_dequeue list_pop) element_size
      (\<lparr>gqueue = Some [], element_size = 2\<rparr>, []) [Send [1, 2], Recv, Recv, Send [3, 4]] = Inr (q', got)
    \<and> [[1, 2], [3, 4]] = got @ spsc_items (\<lambda>g. g) q'"
  using spsc_fifo [OF list_queue.glib_async_queue_axioms, of "\<lparr>gqueue = Some [], element_size = 2\<rparr>"
      "[Send [1, 2], Recv, Recv, Send [3, 4]]"]
  by (simp add: spsc_invar_def spsc_items_def)

theorem spsc_init_invar_witness:
  "\<exists>q'. spsc_queue_init (Some []) \<lparr>gqueue = None, element_size = 0\<rparr> 8 = Inr (0, q')
    \<and> spsc_invar (\<lambda>g. g) q' \<and> spsc_items (\<lambda>g. g) q' = [] \<and> element_size q' = 8"
  using spsc_init_invar [of 8 "\<lambda>g. g" "[]" "\<lparr>gqueue = None, element_size = 0\<rparr>"] by simp

end
