(* ===== verification/Command_Batcher.thy ===== *)
theory Command_Batcher
  imports Globals
begin

text \<open>
  \<open>src/command_batcher.c\<close>: the leader's command batcher. Client commands are collected in
  a 64 KiB buffer; a thread hands the buffer to a callback when it is old or half full, and
  stopping or flushing hands over what is left. Every critical section of \<open>batch_mutex\<close> is
  one operation below; the callback is always the last thing an operation does, after the
  mutex was released, so an operation returns the copy it passes to the callback.
  \<open>Batcher_Threads\<close> interleaves the threads that run them.
\<close>

section \<open>The batch and the batcher\<close>

definition MAX_COMMAND_BUFFER :: nat where
  "MAX_COMMAND_BUFFER = 65536"

definition DEFAULT_BATCH_DELAY_MS :: u32 where
  "DEFAULT_BATCH_DELAY_MS = 50"

record command_batch =
  num_commands :: u32
  total_length :: u64
  commands :: bytes
  creation_time :: timespec

record command_batcher =
  current_batch :: command_batch
  batch_delay_ms :: u32
  active :: bool
  has_callback :: bool

section \<open>Time\<close>

definition timespec_ms :: "timespec \<Rightarrow> u64" where
  "timespec_ms t = tv_sec t * 1000 + tv_nsec t div 1000000"

definition get_elapsed_ms :: "timespec \<Rightarrow> timespec \<Rightarrow> u64" where
  "get_elapsed_ms now start =
     (let start_ms = tv_sec start * 1000 + tv_nsec start div 1000000;
          now_ms = tv_sec now * 1000 + tv_nsec now div 1000000
      in now_ms - start_ms)"

text \<open>\<open>get_current_time_ms\<close>, on the fields of the \<open>timeval\<close> the clock returned.\<close>

definition get_current_time_ms :: "u64 \<Rightarrow> u64 \<Rightarrow> u64" where
  "get_current_time_ms sec usec = sec * 1000 + usec div 1000"

section \<open>Operations\<close>

text \<open>\<open>now\<close> is what \<open>clock_gettime\<close> returns in the call.\<close>

definition command_batcher_new_batch :: "timespec \<Rightarrow> command_batcher \<Rightarrow> command_batcher" where
  "command_batcher_new_batch now batcher =
     batcher\<lparr>current_batch :=
       \<lparr>num_commands = 0, total_length = 0, commands = replicate MAX_COMMAND_BUFFER 0, creation_time = now\<rparr>\<rparr>"

definition zero_batcher :: command_batcher where
  "zero_batcher =
     \<lparr>current_batch = \<lparr>num_commands = 0, total_length = 0, commands = replicate MAX_COMMAND_BUFFER 0,
                        creation_time = \<lparr>tv_sec = 0, tv_nsec = 0\<rparr>\<rparr>,
      batch_delay_ms = 0, active = False, has_callback = False\<rparr>"

definition command_batcher_init ::
  "timespec \<Rightarrow> bool \<Rightarrow> command_batcher option \<Rightarrow> u32 \<Rightarrow> bool \<Rightarrow> int \<times> command_batcher option" where
  "command_batcher_init now mutex_ok batcher batch_delay callback =
     (case batcher of
        None \<Rightarrow> (-1, None)
      | Some _ \<Rightarrow>
          let b = zero_batcher\<lparr>batch_delay_ms := (if 0 < batch_delay then batch_delay else DEFAULT_BATCH_DELAY_MS),
                               has_callback := callback, active := False\<rparr>
          in if \<not> mutex_ok then (-1, Some b)
             else (0, Some (command_batcher_new_batch now b)))"

text \<open>\<open>command_batcher_start\<close>: \<open>thread_ok\<close> tells whether \<open>pthread_create\<close> succeeds.\<close>

definition command_batcher_start :: "bool \<Rightarrow> command_batcher option \<Rightarrow> int \<times> command_batcher option" where
  "command_batcher_start thread_ok batcher =
     (case batcher of
        None \<Rightarrow> (-1, None)
      | Some b \<Rightarrow>
          if active b then (-1, Some b)
          else let b1 = b\<lparr>active := True\<rparr>
               in if \<not> thread_ok then (-1, Some (b1\<lparr>active := False\<rparr>)) else (0, Some b1))"

text \<open>The common critical section of \<open>command_batcher_stop\<close> and
  \<open>command_batcher_flush\<close>: take a non-empty batch if there is a callback.\<close>

definition take_batch :: "timespec \<Rightarrow> command_batcher \<Rightarrow> command_batch option \<times> command_batcher" where
  "take_batch now b =
     (if 0 < num_commands (current_batch b) \<and> has_callback b
      then (Some (current_batch b), command_batcher_new_batch now b)
      else (None, b))"

text \<open>\<open>command_batcher_stop\<close>, with the thread already gone (its exit is the join).\<close>

definition command_batcher_stop ::
  "timespec \<Rightarrow> command_batcher option \<Rightarrow> int \<times> command_batch option \<times> command_batcher option" where
  "command_batcher_stop now batcher =
     (case batcher of
        None \<Rightarrow> (-1, None, None)
      | Some b \<Rightarrow>
          if \<not> active b then (-1, None, Some b)
          else let (batch_copy, b1) = take_batch now (b\<lparr>active := False\<rparr>)
               in (0, batch_copy, Some b1))"

definition command_batcher_flush ::
  "timespec \<Rightarrow> command_batcher option \<Rightarrow> command_batch option \<times> command_batcher option" where
  "command_batcher_flush now batcher =
     (case batcher of
        None \<Rightarrow> (None, None)
      | Some b \<Rightarrow> (let (batch_copy, b1) = take_batch now b in (batch_copy, Some b1)))"

definition command_batcher_destroy ::
  "timespec \<Rightarrow> command_batcher option \<Rightarrow> command_batch option \<times> command_batcher option" where
  "command_batcher_destroy now batcher =
     (case batcher of
        None \<Rightarrow> (None, None)
      | Some b \<Rightarrow>
          if active b
          then let (_, batch_copy, b1) = command_batcher_stop now (Some b) in (batch_copy, b1)
          else (None, Some b))"

definition command_batcher_add_command ::
  "command_batcher option \<Rightarrow> bytes option \<Rightarrow> u32 \<Rightarrow> (bool \<times> command_batcher option) res" where
  "command_batcher_add_command batcher command command_length =
     (case (batcher, command) of
        (Some b, Some src) \<Rightarrow>
          if command_length = 0 then Inr (False, Some b)
          else
            let cur = current_batch b in
            if of_nat MAX_COMMAND_BUFFER < total_length cur + ucast command_length then Inr (False, Some b)
            else bindr (rd_bytes src 0 (unat command_length)) (\<lambda>data.
                 bindr (memcpy_into (commands cur) (unat (total_length cur)) data) (\<lambda>cs.
                   let cur1 = cur\<lparr>commands := cs, total_length := total_length cur + ucast command_length,
                                  num_commands := num_commands cur + 1\<rparr>
                   in Inr (True, Some (b\<lparr>current_batch := cur1\<rparr>))))
      | _ \<Rightarrow> Inr (False, batcher))"

text \<open>One pass of \<open>batch_processor_thread\<close>'s loop body up to the release of the mutex.\<close>

definition should_flush :: "timespec \<Rightarrow> command_batcher \<Rightarrow> bool" where
  "should_flush now b \<longleftrightarrow>
     0 < num_commands (current_batch b)
     \<and> (ucast (batch_delay_ms b) \<le> get_elapsed_ms now (creation_time (current_batch b))
        \<or> of_nat (MAX_COMMAND_BUFFER div 2) \<le> total_length (current_batch b))"

definition batch_processor_pass :: "timespec \<Rightarrow> command_batcher \<Rightarrow> command_batch option \<times> command_batcher" where
  "batch_processor_pass now b =
     (if should_flush now b then (Some (current_batch b), command_batcher_new_batch now b) else (None, b))"

section \<open>The buffer\<close>

definition batch_bytes :: "command_batch \<Rightarrow> bytes" where
  "batch_bytes c = take (unat (total_length c)) (commands c)"

text \<open>The invariant of a batch: the array has its size, the used part fits, every command
  took at least one byte, and an empty batch has no commands.\<close>

definition batch_wf :: "command_batch \<Rightarrow> bool" where
  "batch_wf c \<longleftrightarrow> length (commands c) = MAX_COMMAND_BUFFER \<and> unat (total_length c) \<le> MAX_COMMAND_BUFFER
     \<and> unat (num_commands c) \<le> unat (total_length c) \<and> (num_commands c = 0 \<longrightarrow> total_length c = 0)"

lemma new_batch_wf [simp]: "batch_wf (current_batch (command_batcher_new_batch now b))"
  by (simp add: batch_wf_def command_batcher_new_batch_def)

lemma new_batch_bytes [simp]: "batch_bytes (current_batch (command_batcher_new_batch now b)) = []"
  by (simp add: batch_bytes_def command_batcher_new_batch_def)

lemma new_batch_fields [simp]:
  "active (command_batcher_new_batch now b) = active b"
  "has_callback (command_batcher_new_batch now b) = has_callback b"
  by (simp_all add: command_batcher_new_batch_def)

lemma empty_batch_bytes: "batch_wf c \<Longrightarrow> num_commands c = 0 \<Longrightarrow> batch_bytes c = []"
  by (simp add: batch_wf_def batch_bytes_def)

lemma add_command_fits:
  assumes wf: "batch_wf (current_batch b)" and len: "unat l \<le> length src"
  shows "\<exists>r b'. command_batcher_add_command (Some b) (Some src) l = Inr (r, Some b')
    \<and> batch_wf (current_batch b') \<and> active b' = active b \<and> has_callback b' = has_callback b
    \<and> (if r then batch_bytes (current_batch b') = batch_bytes (current_batch b) @ take (unat l) src
               \<and> num_commands (current_batch b') = num_commands (current_batch b) + 1
       else b' = b)
    \<and> (r \<longleftrightarrow> l \<noteq> 0 \<and> unat (total_length (current_batch b)) + unat l \<le> MAX_COMMAND_BUFFER)"
proof -
  let ?c = "current_batch b"
  have bounds: "unat (total_length ?c) \<le> 65536" "unat l < 2 ^ 32"
    using wf unat_u32_bound [of l] by (simp_all add: batch_wf_def MAX_COMMAND_BUFFER_def)
  then have sum: "unat (total_length ?c + ucast l) = unat (total_length ?c) + unat l"
    by (subst unat_add_u64) simp_all
  have m: "unat (of_nat MAX_COMMAND_BUFFER :: u64) = MAX_COMMAND_BUFFER"
    by (simp add: MAX_COMMAND_BUFFER_def)
  have le: "of_nat MAX_COMMAND_BUFFER < total_length ?c + ucast l
      \<longleftrightarrow> MAX_COMMAND_BUFFER < unat (total_length ?c) + unat l"
    by (simp only: word_less_nat_alt sum m)
  show ?thesis
  proof (cases "l \<noteq> 0 \<and> unat (total_length ?c) + unat l \<le> MAX_COMMAND_BUFFER")
    case False
    then show ?thesis
      using wf le by (auto simp: command_batcher_add_command_def Let_def)
  next
    case True
    then have l0: "l \<noteq> 0" and fit: "unat (total_length ?c) + unat l \<le> MAX_COMMAND_BUFFER" by auto
    have "memcpy_into (commands ?c) (unat (total_length ?c)) (take (unat l) src)
        = Inr (take (unat (total_length ?c)) (commands ?c) @ take (unat l) src
               @ drop (unat (total_length ?c) + unat l) (commands ?c))" (is "_ = Inr ?cs")
      using wf fit len by (simp add: memcpy_into_def batch_wf_def)
    then have run: "command_batcher_add_command (Some b) (Some src) l =
        Inr (True, Some (b\<lparr>current_batch := ?c\<lparr>commands := ?cs, total_length := total_length ?c + ucast l,
               num_commands := num_commands ?c + 1\<rparr>\<rparr>))"
      using l0 fit le len by (simp add: command_batcher_add_command_def rd_bytes_def Let_def)
    have pos: "0 < unat l" using l0 by (simp add: unat_gt_0)
    have n: "unat (num_commands ?c) \<le> 65535"
      using wf fit pos by (simp add: batch_wf_def MAX_COMMAND_BUFFER_def)
    then have n1: "unat (num_commands ?c + 1) = unat (num_commands ?c) + 1"
      by (simp add: unat_word_ariths)
    then have "num_commands ?c + 1 \<noteq> 0" by (metis add_is_0 one_neq_zero unat_0)
    with n1 pos wf fit len run sum True show ?thesis
      by (auto simp: batch_wf_def batch_bytes_def)
  qed
qed

lemma take_batch_effect:
  assumes "batch_wf (current_batch b)" "has_callback b" "take_batch now b = (r, b')"
  shows "batch_wf (current_batch b')" "active b' = active b" "has_callback b'"
    "(case r of None \<Rightarrow> [] | Some c \<Rightarrow> batch_bytes c) @ batch_bytes (current_batch b') = batch_bytes (current_batch b)"
    "r = Some c \<Longrightarrow> batch_wf c"
    "batch_bytes (current_batch b') = []"
  using assms by (auto simp: take_batch_def empty_batch_bytes word_neq_0_conv [symmetric] simp del: word_neq_0_conv split: if_splits)

lemma pass_effect:
  assumes "batch_wf (current_batch b)" "batch_processor_pass now b = (r, b')"
  shows "batch_wf (current_batch b')" "active b' = active b" "has_callback b' = has_callback b"
    "(case r of None \<Rightarrow> [] | Some c \<Rightarrow> batch_bytes c) @ batch_bytes (current_batch b') = batch_bytes (current_batch b)"
    "r = Some c \<Longrightarrow> batch_wf c"
  using assms by (auto simp: batch_processor_pass_def split: if_splits)

section \<open>Properties\<close>

text \<open>C33: \<open>command_batcher_add_command\<close> never writes outside the 64 KiB array. It accepts
  a command exactly when it is not empty and fits behind what the batch holds; then the used
  part of the array is extended by the command and the count by one, and otherwise nothing
  changes.\<close>

theorem add_command_appends:
  assumes "batch_wf (current_batch b)" "unat l \<le> length src"
  shows "\<exists>r b'. command_batcher_add_command (Some b) (Some src) l = Inr (r, Some b')
    \<and> batch_wf (current_batch b')
    \<and> (r \<longleftrightarrow> l \<noteq> 0 \<and> unat (total_length (current_batch b)) + unat l \<le> MAX_COMMAND_BUFFER)
    \<and> (if r then batch_bytes (current_batch b') = batch_bytes (current_batch b) @ take (unat l) src
               \<and> num_commands (current_batch b') = num_commands (current_batch b) + 1
       else b' = b)"
  using add_command_fits [OF assms] by blast

lemma zero_batcher_wf [simp]: "batch_wf (current_batch zero_batcher)"
  by (simp add: zero_batcher_def batch_wf_def)

theorem add_command_appends_witness:
  "\<exists>b'. command_batcher_add_command (Some zero_batcher) (Some [1, 2, 3]) 3 = Inr (True, Some b')
    \<and> batch_bytes (current_batch b') = [1, 2, 3]"
proof -
  have "total_length (current_batch zero_batcher) = 0" "batch_bytes (current_batch zero_batcher) = []"
    by (simp_all add: zero_batcher_def batch_bytes_def)
  with add_command_appends [of zero_batcher 3 "[1, 2, 3]"] show ?thesis
    by (auto simp: MAX_COMMAND_BUFFER_def)
qed

end
