(* ===== verification/Batcher_Threads.thy ===== *)
theory Batcher_Threads
  imports Command_Batcher "HOL-Library.Multiset"
begin

text \<open>
  The threads around the command batcher of \<open>src/command_batcher.c\<close>: clients that add
  commands, processor threads, and callers of start, stop, destroy and flush, interleaved at
  every access to the batcher outside a critical section of \<open>batch_mutex\<close>. The batcher has a
  callback and is not used after its mutex was destroyed.
\<close>

section \<open>The threads\<close>

text \<open>A processor thread is at the test of its loop, behind the test and before the mutex,
  inside the callback with a copy, or gone. A caller of start is behind the test of
  \<open>active\<close> or before \<open>pthread_create\<close>; a caller of stop (or destroy) is behind the test,
  in the join, before the mutex or in the callback; a caller of flush is in the callback.
  Neither \<open>active\<close> nor \<open>batch_thread\<close> is protected by a lock, so each access is a step.\<close>

datatype thread_pc = Testing | Deciding | Calling command_batch | Exited

datatype caller_pc =
  Start_set | Start_create | Stop_set | Stop_join | Stop_take | Stop_calling command_batch
  | Flush_calling command_batch

text \<open>\<open>sys_threads\<close> are the processor threads in the order of their creation and
  \<open>sys_handle\<close> is the field \<open>batch_thread\<close>, an index into them. \<open>sys_accepted\<close>,
  \<open>sys_taken\<close> and \<open>sys_delivered\<close> record the commands accepted, the batches taken out
  of the batcher and the batches given to the callback.\<close>

record batcher_sys =
  sys_batcher :: command_batcher
  sys_threads :: "thread_pc list"
  sys_handle :: nat
  sys_callers :: "caller_pc list"
  sys_accepted :: "bytes list"
  sys_taken :: "command_batch list"
  sys_delivered :: "command_batch list"

inductive batcher_step :: "batcher_sys \<Rightarrow> batcher_sys \<Rightarrow> bool" where
  add: "command_batcher_add_command (Some (sys_batcher s)) (Some src) l = Inr (True, Some b') \<Longrightarrow>
     batcher_step s (s\<lparr>sys_batcher := b', sys_accepted := sys_accepted s @ [take (unat l) src]\<rparr>)"
| test: "sys_threads s = ts @ Testing # us \<Longrightarrow>
     batcher_step s (s\<lparr>sys_threads := ts @ (if active (sys_batcher s) then Deciding else Exited) # us\<rparr>)"
| pass: "sys_threads s = ts @ Deciding # us \<Longrightarrow> batch_processor_pass now (sys_batcher s) = (Some c, b') \<Longrightarrow>
     batcher_step s (s\<lparr>sys_batcher := b', sys_threads := ts @ Calling c # us, sys_taken := sys_taken s @ [c]\<rparr>)"
| sleep: "sys_threads s = ts @ Deciding # us \<Longrightarrow> batch_processor_pass now (sys_batcher s) = (None, b') \<Longrightarrow>
     batcher_step s (s\<lparr>sys_batcher := b', sys_threads := ts @ Testing # us\<rparr>)"
| call: "sys_threads s = ts @ Calling c # us \<Longrightarrow> has_callback (sys_batcher s) \<Longrightarrow>
     batcher_step s (s\<lparr>sys_threads := ts @ Testing # us, sys_delivered := sys_delivered s @ [c]\<rparr>)"
| no_call: "sys_threads s = ts @ Calling c # us \<Longrightarrow> \<not> has_callback (sys_batcher s) \<Longrightarrow>
     batcher_step s (s\<lparr>sys_threads := ts @ Testing # us\<rparr>)"
| start_test: "\<not> active (sys_batcher s) \<Longrightarrow>
     batcher_step s (s\<lparr>sys_callers := sys_callers s @ [Start_set]\<rparr>)"
| start_set: "sys_callers s = cs @ Start_set # ds \<Longrightarrow>
     batcher_step s (s\<lparr>sys_batcher := (sys_batcher s)\<lparr>active := True\<rparr>, sys_callers := cs @ Start_create # ds\<rparr>)"
| start_create: "sys_callers s = cs @ Start_create # ds \<Longrightarrow>
     batcher_step s (s\<lparr>sys_threads := sys_threads s @ [Testing], sys_handle := length (sys_threads s),
       sys_callers := cs @ ds\<rparr>)"
| start_fails: "sys_callers s = cs @ Start_create # ds \<Longrightarrow>
     batcher_step s (s\<lparr>sys_batcher := (sys_batcher s)\<lparr>active := False\<rparr>, sys_callers := cs @ ds\<rparr>)"
| stop_test: "active (sys_batcher s) \<Longrightarrow>
     batcher_step s (s\<lparr>sys_callers := sys_callers s @ [Stop_set]\<rparr>)"
| stop_set: "sys_callers s = cs @ Stop_set # ds \<Longrightarrow>
     batcher_step s (s\<lparr>sys_batcher := (sys_batcher s)\<lparr>active := False\<rparr>, sys_callers := cs @ Stop_join # ds\<rparr>)"
| stop_join: "sys_callers s = cs @ Stop_join # ds \<Longrightarrow> sys_threads s ! sys_handle s = Exited \<Longrightarrow>
     batcher_step s (s\<lparr>sys_callers := cs @ Stop_take # ds\<rparr>)"
| stop_take: "sys_callers s = cs @ Stop_take # ds \<Longrightarrow> take_batch now (sys_batcher s) = (Some c, b') \<Longrightarrow>
     batcher_step s (s\<lparr>sys_batcher := b', sys_callers := cs @ Stop_calling c # ds, sys_taken := sys_taken s @ [c]\<rparr>)"
| stop_empty: "sys_callers s = cs @ Stop_take # ds \<Longrightarrow> take_batch now (sys_batcher s) = (None, b') \<Longrightarrow>
     batcher_step s (s\<lparr>sys_batcher := b', sys_callers := cs @ ds\<rparr>)"
| stop_call: "sys_callers s = cs @ Stop_calling c # ds \<Longrightarrow>
     batcher_step s (s\<lparr>sys_callers := cs @ ds, sys_delivered := sys_delivered s @ [c]\<rparr>)"
| flush_take: "take_batch now (sys_batcher s) = (Some c, b') \<Longrightarrow>
     batcher_step s (s\<lparr>sys_batcher := b', sys_callers := sys_callers s @ [Flush_calling c],
       sys_taken := sys_taken s @ [c]\<rparr>)"
| flush_call: "sys_callers s = cs @ Flush_calling c # ds \<Longrightarrow>
     batcher_step s (s\<lparr>sys_callers := cs @ ds, sys_delivered := sys_delivered s @ [c]\<rparr>)"

text \<open>The batches taken and not delivered yet, and the invariant.\<close>

primrec thread_holds :: "thread_pc \<Rightarrow> command_batch list" where
  "thread_holds Testing = []"
| "thread_holds Deciding = []"
| "thread_holds (Calling c) = [c]"
| "thread_holds Exited = []"

primrec caller_holds :: "caller_pc \<Rightarrow> command_batch list" where
  "caller_holds Start_set = []"
| "caller_holds Start_create = []"
| "caller_holds Stop_set = []"
| "caller_holds Stop_join = []"
| "caller_holds Stop_take = []"
| "caller_holds (Stop_calling c) = [c]"
| "caller_holds (Flush_calling c) = [c]"

definition in_flight :: "batcher_sys \<Rightarrow> command_batch list" where
  "in_flight s = concat (map thread_holds (sys_threads s)) @ concat (map caller_holds (sys_callers s))"

definition batcher_inv :: "batcher_sys \<Rightarrow> bool" where
  "batcher_inv s \<longleftrightarrow>
     batch_wf (current_batch (sys_batcher s)) \<and> has_callback (sys_batcher s)
     \<and> (\<forall>c \<in> set (sys_taken s). batch_wf c)
     \<and> mset (sys_taken s) = mset (sys_delivered s) + mset (in_flight s)
     \<and> concat (sys_accepted s) = concat (map batch_bytes (sys_taken s)) @ batch_bytes (current_batch (sys_batcher s))"

lemma add_accepted:
  assumes "batch_wf (current_batch b)" "command_batcher_add_command (Some b) (Some src) l = Inr (True, Some b')"
  shows "batch_wf (current_batch b')" "active b' = active b" "has_callback b' = has_callback b"
    "batch_bytes (current_batch b') = batch_bytes (current_batch b) @ take (unat l) src"
proof -
  have "unat l \<le> length src"
    using assms(2) by (auto simp: command_batcher_add_command_def rd_bytes_def Let_def split: if_splits)
  from add_command_fits [OF assms(1) this] assms(2)
  show "batch_wf (current_batch b')" "active b' = active b" "has_callback b' = has_callback b"
    "batch_bytes (current_batch b') = batch_bytes (current_batch b) @ take (unat l) src"
    by auto
qed

lemma batcher_inv_step:
  assumes "batcher_step s s'" "batcher_inv s"
  shows "batcher_inv s'"
  using assms
proof (cases rule: batcher_step.cases)
  case (add src l b')
  with assms(2) add_accepted [OF _ add(2)] show ?thesis
    by (auto simp: batcher_inv_def in_flight_def)
next
  case (pass ts us now c b')
  with assms(2) pass_effect [OF _ pass(3)] show ?thesis
    by (auto simp: batcher_inv_def in_flight_def)
next
  case (sleep ts us now b')
  with assms(2) pass_effect [OF _ sleep(3)] show ?thesis
    by (auto simp: batcher_inv_def in_flight_def)
next
  case (stop_take cs ds now c b')
  with assms(2) take_batch_effect [OF _ _ stop_take(3)] show ?thesis
    by (auto simp: batcher_inv_def in_flight_def)
next
  case (stop_empty cs ds now b')
  with assms(2) take_batch_effect [OF _ _ stop_empty(3)] show ?thesis
    by (auto simp: batcher_inv_def in_flight_def)
next
  case (flush_take now c b')
  with assms(2) take_batch_effect [OF _ _ flush_take(2)] show ?thesis
    by (auto simp: batcher_inv_def in_flight_def)
qed (use assms(2) in \<open>auto simp: batcher_inv_def in_flight_def\<close>)

subsection \<open>Calls of start and stop that do not overlap\<close>

text \<open>A serial step starts no call of start or stop while another one is under way, and
  flushes nothing.\<close>

definition serial_step :: "batcher_sys \<Rightarrow> batcher_sys \<Rightarrow> bool" where
  "serial_step s s' \<longleftrightarrow> batcher_step s s' \<and> length (sys_callers s') \<le> 1
     \<and> (\<forall>c. Flush_calling c \<notin> set (sys_callers s'))"

text \<open>Then only the newest processor thread runs, it is the one the handle names, and it is
  gone when stop takes what is left and while the batcher is stopped.\<close>

definition serial_inv :: "batcher_sys \<Rightarrow> bool" where
  "serial_inv s \<longleftrightarrow>
     (\<exists>n t. sys_threads s = replicate n Exited @ [t] \<and> sys_handle s = n
       \<and> (t = Exited \<or> sys_callers s = [] \<and> active (sys_batcher s) \<or> sys_callers s = [Stop_set] \<and> active (sys_batcher s)
          \<or> sys_callers s = [Stop_join]))
     \<and> sys_callers s \<in> {[], [Start_set], [Start_create], [Stop_set], [Stop_join], [Stop_take]} \<union> range (\<lambda>c. [Stop_calling c])
     \<and> (sys_callers s \<in> {[Stop_join], [Start_set]} \<longrightarrow> \<not> active (sys_batcher s))
     \<and> (sys_callers s = [Start_create] \<longrightarrow> active (sys_batcher s))
     \<and> sys_taken s = sys_delivered s @ in_flight s"

lemma last_thread:
  "replicate n Exited @ [t] = ts @ x # us \<Longrightarrow> x \<noteq> Exited \<Longrightarrow> us = [] \<and> ts = replicate n Exited \<and> x = t"
proof -
  assume eq: "replicate n Exited @ [t] = ts @ x # us" and x: "x \<noteq> Exited"
  show ?thesis
  proof (cases us rule: rev_cases)
    case Nil
    with eq show ?thesis by simp
  next
    case (snoc vs y)
    with eq have "replicate n Exited = ts @ x # vs" by simp
    then have "x \<in> set (replicate n Exited)" by (metis in_set_conv_decomp)
    with x show ?thesis by (simp split: if_splits)
  qed
qed

lemma holds_exited [simp]: "concat (map thread_holds (replicate n Exited)) = []"
  by (induction n) simp_all

lemma serial_inv_step:
  assumes "serial_step s s'" "serial_inv s" "batcher_inv s"
  shows "serial_inv s'"
proof -
  have cb: "has_callback (sys_batcher s)" "batch_wf (current_batch (sys_batcher s))"
    using assms(3) by (simp_all add: batcher_inv_def)
  obtain n t where t: "sys_threads s = replicate n Exited @ [t]" "sys_handle s = n"
    "t = Exited \<or> sys_callers s = [] \<and> active (sys_batcher s) \<or> sys_callers s = [Stop_set] \<and> active (sys_batcher s)
       \<or> sys_callers s = [Stop_join]"
    using assms(2) by (auto simp: serial_inv_def)
  have step: "batcher_step s s'" "length (sys_callers s') \<le> 1" "\<And>c. Flush_calling c \<notin> set (sys_callers s')"
    using assms(1) by (auto simp: serial_step_def)
  note inv = assms(2) [unfolded serial_inv_def]
  have "length (sys_callers s) \<le> 1" using inv by auto
  then have one: "cs = [] \<and> ds = [] \<and> sys_callers s = [d]" if "sys_callers s = cs @ d # ds" for cs d ds
    using that by simp
  from step(1) show ?thesis
  proof (cases rule: batcher_step.cases)
    case (add src l b')
    then show ?thesis
      using inv t add_accepted [OF cb(2) add(2)] by (auto simp: serial_inv_def in_flight_def)
  next
    case (test ts us)
    with last_thread [of n t ts Testing us] t inv show ?thesis
      by (auto simp: serial_inv_def in_flight_def)
  next
    case (pass ts us now c b')
    with last_thread [of n t ts Deciding us] t inv pass_effect [OF cb(2) pass(3)] show ?thesis
      by (auto simp: serial_inv_def in_flight_def)
  next
    case (sleep ts us now b')
    with last_thread [of n t ts Deciding us] t inv pass_effect [OF cb(2) sleep(3)] show ?thesis
      by (auto simp: serial_inv_def in_flight_def)
  next
    case (call ts c us)
    with last_thread [of n t ts "Calling c" us] t inv show ?thesis
      by (auto simp: serial_inv_def in_flight_def)
  next
    case (no_call ts c us)
    with cb show ?thesis by simp
  next
    case start_test
    with step(2) t inv show ?thesis by (auto simp: serial_inv_def in_flight_def)
  next
    case (start_set cs ds)
    with one [OF start_set(2)] t inv show ?thesis by (auto simp: serial_inv_def in_flight_def)
  next
    case (start_create cs ds)
    with one [OF start_create(2)] t inv show ?thesis
      by (auto simp: serial_inv_def in_flight_def replicate_append_same intro!: exI [of _ "Suc n"])
  next
    case (start_fails cs ds)
    with one [OF start_fails(2)] t inv show ?thesis by (auto simp: serial_inv_def in_flight_def)
  next
    case stop_test
    with step(2) t inv show ?thesis by (auto simp: serial_inv_def in_flight_def)
  next
    case (stop_set cs ds)
    with one [OF stop_set(2)] t inv show ?thesis by (auto simp: serial_inv_def in_flight_def)
  next
    case (stop_join cs ds)
    with one [OF stop_join(2)] t inv show ?thesis by (auto simp: serial_inv_def in_flight_def nth_append)
  next
    case (stop_take cs ds now c b')
    with one [OF stop_take(2)] t inv take_batch_effect [OF cb(2,1) stop_take(3)] show ?thesis
      by (auto simp: serial_inv_def in_flight_def)
  next
    case (stop_empty cs ds now b')
    with one [OF stop_empty(2)] t inv take_batch_effect [OF cb(2,1) stop_empty(3)] show ?thesis
      by (auto simp: serial_inv_def in_flight_def)
  next
    case (stop_call cs c ds)
    with one [OF stop_call(2)] t inv show ?thesis by (auto simp: serial_inv_def in_flight_def)
  next
    case (flush_take now c b')
    with step(3) [of c] show ?thesis by simp
  next
    case (flush_call cs c ds)
    with one [OF flush_call(2)] inv show ?thesis by auto
  qed
qed

lemma serial_in_flight: "serial_inv s \<Longrightarrow> length (in_flight s) \<le> 1"
proof -
  assume inv: "serial_inv s"
  then obtain n t where t: "sys_threads s = replicate n Exited @ [t]"
    "length (concat (map caller_holds (sys_callers s))) \<le> (if t = Exited then 1 else 0)"
    by (auto simp: serial_inv_def)
  then show ?thesis unfolding in_flight_def length_append by (cases t) (simp_all del: concat_eq_Nil_conv)
qed

definition batcher_boot :: "timespec \<Rightarrow> u32 \<Rightarrow> batcher_sys option" where
  "batcher_boot now batch_delay =
     (case command_batcher_init now True (Some zero_batcher) batch_delay True of
        (_, b) \<Rightarrow> (case command_batcher_start True b of
          (_, Some b') \<Rightarrow> Some \<lparr>sys_batcher = b', sys_threads = [Testing], sys_handle = 0, sys_callers = [],
                              sys_accepted = [], sys_taken = [], sys_delivered = []\<rparr>
        | _ \<Rightarrow> None))"

lemma batcher_boot_inv:
  assumes "batcher_boot now d = Some s"
  shows "batcher_inv s" "serial_inv s"
  using assms
  by (auto simp: batcher_boot_def command_batcher_init_def command_batcher_start_def zero_batcher_def
      batcher_inv_def serial_inv_def in_flight_def batch_wf_def batch_bytes_def command_batcher_new_batch_def)

lemma batcher_run_inv: "batcher_step\<^sup>*\<^sup>* s s' \<Longrightarrow> batcher_inv s \<Longrightarrow> batcher_inv s'"
  by (induction rule: rtranclp_induct) (auto intro: batcher_inv_step)

lemma serial_run_inv:
  assumes "serial_step\<^sup>*\<^sup>* s s'" "batcher_inv s" "serial_inv s"
  shows "batcher_inv s' \<and> serial_inv s'"
  using assms
  by (induction rule: rtranclp_induct) (auto intro: serial_inv_step batcher_inv_step simp: serial_step_def)

section \<open>Properties\<close>


text \<open>C5: As long as no call of start or stop begins while another one is under way and
  nobody flushes, the callback also receives the batches in the order they were taken: the
  accepted commands are, in order, the delivered batches, then the at most one batch in the
  hands of a thread, then the batch being filled.\<close>

theorem batcher_in_order:
  assumes "batcher_boot now d = Some s0" "serial_step\<^sup>*\<^sup>* s0 s"
  shows "length (in_flight s) \<le> 1
    \<and> concat (sys_accepted s)
      = concat (map batch_bytes (sys_delivered s)) @ concat (map batch_bytes (in_flight s))
        @ batch_bytes (current_batch (sys_batcher s))"
proof -
  have inv: "batcher_inv s" "serial_inv s"
    using serial_run_inv [OF assms(2) batcher_boot_inv [OF assms(1)]] by auto
  then have "length (in_flight s) \<le> 1" using serial_in_flight by blast
  with inv show ?thesis by (simp add: batcher_inv_def serial_inv_def)
qed

text \<open>A batch handed to the callback is well-formed: its length is at most the size of
  its array, so a callback that copies \<open>total_length\<close> bytes stays inside it.\<close>

theorem delivered_batches_fit:
  assumes "batcher_boot now d = Some s0" "batcher_step\<^sup>*\<^sup>* s0 s" "c \<in> set (sys_delivered s)"
  shows "length (commands c) = MAX_COMMAND_BUFFER \<and> unat (total_length c) \<le> MAX_COMMAND_BUFFER"
proof -
  have "batcher_inv s" by (rule batcher_run_inv [OF assms(2) batcher_boot_inv(1) [OF assms(1)]])
  then have "mset (sys_taken s) = mset (sys_delivered s) + mset (in_flight s)" "\<forall>c \<in> set (sys_taken s). batch_wf c"
    by (simp_all add: batcher_inv_def)
  then have "batch_wf c" using assms(3) by (metis in_multiset_in_set union_iff)
  then show ?thesis by (simp add: batch_wf_def)
qed

section \<open>Runs\<close>

text \<open>A batch that is empty, or that holds one command of eight bytes, and was created at
  second \<open>k\<close>.\<close>

definition fresh_at :: "u64 \<Rightarrow> command_batcher \<Rightarrow> bool" where
  "fresh_at k b \<longleftrightarrow> batch_wf (current_batch b) \<and> num_commands (current_batch b) = 0
     \<and> total_length (current_batch b) = 0 \<and> creation_time (current_batch b) = \<lparr>tv_sec = k, tv_nsec = 0\<rparr>
     \<and> batch_delay_ms b = 50 \<and> has_callback b"

definition filled_at :: "u64 \<Rightarrow> bytes \<Rightarrow> command_batcher \<Rightarrow> bool" where
  "filled_at k x b \<longleftrightarrow> batch_bytes (current_batch b) = x \<and> num_commands (current_batch b) = 1
     \<and> creation_time (current_batch b) = \<lparr>tv_sec = k, tv_nsec = 0\<rparr> \<and> batch_delay_ms b = 50 \<and> has_callback b"

lemma fresh_after [simp]:
  assumes "filled_at k x b"
  shows "fresh_at j (command_batcher_new_batch \<lparr>tv_sec = j, tv_nsec = 0\<rparr> b)"
  using assms by (simp add: fresh_at_def filled_at_def command_batcher_new_batch_def batch_wf_def)

lemma elapsed_one_second: "get_elapsed_ms \<lparr>tv_sec = k + 1, tv_nsec = 0\<rparr> \<lparr>tv_sec = k, tv_nsec = 0\<rparr> = 1000"
  by (simp add: get_elapsed_ms_def distrib_right)

lemma filled_taken:
  assumes "filled_at k x b"
  shows "take_batch now b = (Some (current_batch b), command_batcher_new_batch now b)"
    "batch_processor_pass \<lparr>tv_sec = k + 1, tv_nsec = 0\<rparr> b
      = (Some (current_batch b), command_batcher_new_batch \<lparr>tv_sec = k + 1, tv_nsec = 0\<rparr> b)"
  using assms
  by (simp_all add: filled_at_def take_batch_def batch_processor_pass_def should_flush_def elapsed_one_second)

lemma filled_by_add:
  assumes "fresh_at k b" "length x = 8"
  obtains b' where "command_batcher_add_command (Some b) (Some x) 8 = Inr (True, Some b')"
    "filled_at k x b'" "active b' = active b"
proof -
  have wf: "batch_wf (current_batch b)" "batch_bytes (current_batch b) = []"
    using assms(1) by (simp_all add: fresh_at_def batch_bytes_def)
  obtain b' where b': "command_batcher_add_command (Some b) (Some x) 8 = Inr (True, Some b')"
    "active b' = active b" "has_callback b' = has_callback b" "batch_bytes (current_batch b') = x"
    "num_commands (current_batch b') = 1"
    using add_command_fits [OF wf(1), of 8 x] wf(2) assms by (auto simp: MAX_COMMAND_BUFFER_def fresh_at_def)
  have "creation_time (current_batch b') = creation_time (current_batch b)" "batch_delay_ms b' = batch_delay_ms b"
    using b'(1) by (auto simp: command_batcher_add_command_def Let_def split: if_splits)
  with b' assms(1) that show thesis by (simp add: filled_at_def fresh_at_def)
qed

lemma add_step:
  assumes "fresh_at k (sys_batcher s)" "length x = 8"
  obtains b' where "batcher_step s (s\<lparr>sys_batcher := b', sys_accepted := sys_accepted s @ [x]\<rparr>)"
    "filled_at k x b'" "active b' = active (sys_batcher s)"
proof -
  obtain b' where b': "command_batcher_add_command (Some (sys_batcher s)) (Some x) 8 = Inr (True, Some b')"
    "filled_at k x b'" "active b' = active (sys_batcher s)"
    using filled_by_add [OF assms] .
  from batcher_step.add [OF b'(1)] assms(2) b'(2,3) that show thesis by simp
qed

definition boot_sys :: batcher_sys where
  "boot_sys = the (batcher_boot \<lparr>tv_sec = 0, tv_nsec = 0\<rparr> 50)"

lemma boot_sys: "batcher_boot \<lparr>tv_sec = 0, tv_nsec = 0\<rparr> 50 = Some boot_sys"
  by (simp add: boot_sys_def batcher_boot_def command_batcher_init_def command_batcher_start_def
      zero_batcher_def command_batcher_new_batch_def)

lemma boot_sys_sel [simp]:
  "fresh_at 0 (sys_batcher boot_sys)" "active (sys_batcher boot_sys)"
  "sys_threads boot_sys = [Testing]" "sys_handle boot_sys = 0" "sys_callers boot_sys = []"
  "sys_accepted boot_sys = []" "sys_taken boot_sys = []" "sys_delivered boot_sys = []"
  by (simp_all add: boot_sys_def batcher_boot_def command_batcher_init_def command_batcher_start_def
      zero_batcher_def command_batcher_new_batch_def fresh_at_def batch_wf_def)

text \<open>A command is added, and the processor thread takes it.\<close>

lemma boot_run:
  assumes len: "length x = 8"
  obtains s c where "serial_step\<^sup>*\<^sup>* boot_sys s" "batch_bytes c = x" "fresh_at 1 (sys_batcher s)"
    "sys_threads s = [Calling c]" "sys_callers s = []" "sys_accepted s = [x]" "sys_taken s = [c]" "sys_delivered s = []"
proof -
  let ?now = "\<lparr>tv_sec = 1, tv_nsec = 0\<rparr>"
  obtain b where b: "batcher_step boot_sys (boot_sys\<lparr>sys_batcher := b, sys_accepted := [x]\<rparr>)"
    "filled_at 0 x b" "active b"
    using add_step [of 0 boot_sys x] len by auto
  let ?s1 = "boot_sys\<lparr>sys_batcher := b, sys_accepted := [x]\<rparr>"
  let ?s2 = "?s1\<lparr>sys_threads := [Deciding]\<rparr>"
  let ?s3 = "?s2\<lparr>sys_batcher := command_batcher_new_batch ?now b, sys_threads := [Calling (current_batch b)],
     sys_taken := [current_batch b]\<rparr>"
  have 1: "serial_step boot_sys ?s1" using b(1) by (simp add: serial_step_def)
  have "batcher_step ?s1 ?s2" using batcher_step.test [of ?s1 "[]" "[]"] b(3) by simp
  then have 2: "serial_step ?s1 ?s2" by (simp add: serial_step_def)
  have "batcher_step ?s2 ?s3"
    using batcher_step.pass [of ?s2 "[]" "[]" ?now] filled_taken(2) [OF b(2)] by simp
  then have 3: "serial_step ?s2 ?s3" by (simp add: serial_step_def)
  have "serial_step\<^sup>*\<^sup>* boot_sys ?s3"
    by (rule rtranclp.rtrancl_into_rtrancl [OF rtranclp.rtrancl_into_rtrancl [OF r_into_rtranclp [of serial_step, OF 1] 2] 3])
  then show thesis by (rule that) (use b(2) in \<open>simp_all add: filled_at_def\<close>)
qed

lemma serial_steps: "serial_step\<^sup>*\<^sup>* s s' \<Longrightarrow> batcher_step\<^sup>*\<^sup>* s s'"
  by (induction rule: rtranclp_induct) (auto simp: serial_step_def intro: rtranclp.rtrancl_into_rtrancl)

theorem batcher_in_order_witness:
  "\<exists>s. serial_step\<^sup>*\<^sup>* boot_sys s \<and> in_flight s \<noteq> []
    \<and> [1, 2, 3, 4, 5, 6, 7, 8] = concat (map batch_bytes (sys_delivered s)) @ concat (map batch_bytes (in_flight s))
      @ batch_bytes (current_batch (sys_batcher s))"
proof -
  obtain s c where s: "serial_step\<^sup>*\<^sup>* boot_sys s" "sys_threads s = [Calling c]"
    "sys_accepted s = [[1, 2, 3, 4, 5, 6, 7, 8]]"
    by (rule boot_run [of "[1, 2, 3, 4, 5, 6, 7, 8]"]) auto
  with batcher_in_order [OF boot_sys s(1)] have "in_flight s \<noteq> [] \<and> [1, 2, 3, 4, 5, 6, 7, 8]
      = concat (map batch_bytes (sys_delivered s)) @ concat (map batch_bytes (in_flight s))
      @ batch_bytes (current_batch (sys_batcher s))"
    by (simp add: in_flight_def)
  with s(1) show ?thesis by blast
qed

text \<open>Two callbacks that overlap: the thread holds the batch with the first command, and the
  second command is taken by a caller of flush.\<close>

lemma two_held:
  assumes "length x = 8" "length y = 8"
  obtains s c d where "batcher_step\<^sup>*\<^sup>* boot_sys s" "batch_bytes c = x" "batch_bytes d = y"
    "has_callback (sys_batcher s)" "sys_threads s = [Calling c]" "sys_callers s = [Flush_calling d]"
    "sys_accepted s = [x, y]" "sys_taken s = [c, d]" "sys_delivered s = []"
proof -
  obtain s c where s: "serial_step\<^sup>*\<^sup>* boot_sys s" "batch_bytes c = x" "fresh_at 1 (sys_batcher s)"
    "sys_threads s = [Calling c]" "sys_callers s = []" "sys_accepted s = [x]" "sys_taken s = [c]" "sys_delivered s = []"
    using boot_run [OF assms(1)] by metis
  obtain b where b: "batcher_step s (s\<lparr>sys_batcher := b, sys_accepted := sys_accepted s @ [y]\<rparr>)" (is "batcher_step _ ?s1")
    "filled_at 1 y b"
    using add_step [of 1 s y] s(3) assms(2) by auto
  let ?now = "\<lparr>tv_sec = 1, tv_nsec = 0\<rparr>" and ?d = "current_batch b"
  let ?s2 = "?s1\<lparr>sys_batcher := command_batcher_new_batch ?now b, sys_callers := sys_callers ?s1 @ [Flush_calling ?d],
    sys_taken := sys_taken ?s1 @ [?d]\<rparr>"
  have 2: "batcher_step ?s1 ?s2"
    by (rule batcher_step.flush_take) (use filled_taken(1) [OF b(2), of ?now] in simp)
  have "batcher_step\<^sup>*\<^sup>* boot_sys ?s2"
    by (rule rtranclp.rtrancl_into_rtrancl [OF rtranclp.rtrancl_into_rtrancl [OF serial_steps [OF s(1)] b(1)] 2])
  then show thesis by (rule that) (use s b(2) in \<open>simp_all add: filled_at_def\<close>)
qed


text \<open>The caller of flush may call back first: the callback receives the commands in the
  opposite order of their acceptance.\<close>

theorem flush_reorders:
  "\<exists>s. batcher_step\<^sup>*\<^sup>* boot_sys s
    \<and> sys_accepted s = [[1, 1, 1, 1, 1, 1, 1, 1], [2, 2, 2, 2, 2, 2, 2, 2]]
    \<and> map batch_bytes (sys_delivered s) = [[2, 2, 2, 2, 2, 2, 2, 2], [1, 1, 1, 1, 1, 1, 1, 1]]"
proof -
  let ?x = "[1, 1, 1, 1, 1, 1, 1, 1] :: bytes" and ?y = "[2, 2, 2, 2, 2, 2, 2, 2] :: bytes"
  obtain s c d where s: "batcher_step\<^sup>*\<^sup>* boot_sys s" "batch_bytes c = ?x" "batch_bytes d = ?y"
    "has_callback (sys_batcher s)" "sys_threads s = [Calling c]" "sys_callers s = [Flush_calling d]"
    "sys_accepted s = [?x, ?y]" "sys_delivered s = []"
    by (rule two_held [of ?x ?y]) auto
  let ?s1 = "s\<lparr>sys_callers := [] @ [], sys_delivered := sys_delivered s @ [d]\<rparr>"
  let ?s2 = "?s1\<lparr>sys_threads := [] @ Testing # [], sys_delivered := sys_delivered ?s1 @ [c]\<rparr>"
  have 1: "batcher_step s ?s1" by (rule batcher_step.flush_call) (simp add: s(6))
  have 2: "batcher_step ?s1 ?s2" by (rule batcher_step.call) (simp_all add: s(4,5))
  have "batcher_step\<^sup>*\<^sup>* boot_sys ?s2"
    by (rule rtranclp.rtrancl_into_rtrancl [OF rtranclp.rtrancl_into_rtrancl [OF s(1) 1] 2])
  moreover have "sys_accepted ?s2 = [?x, ?y] \<and> map batch_bytes (sys_delivered ?s2) = [?y, ?x]"
    by (simp add: s(2,3,7,8))
  ultimately show ?thesis by (rule exI [of _ ?s2, OF conjI])
qed

end
