(* ===== verification/Adaptive_Timeout.thy ===== *)
theory Adaptive_Timeout
  imports Complex_Main Globals
begin

text \<open>
  \<open>src/adaptive_timeout.c\<close>: the election timeout derived from measured round-trip times.
  A \<open>double\<close> is a real number and every arithmetic operation on doubles applies the
  rounding \<open>fl\<close>, an argument of the definitions; the conversion to \<open>uint32_t\<close> truncates
  and is undefined outside the range of the type. Each operation is one critical section of
  the structure's mutex.
\<close>

section \<open>State\<close>

record adaptive_config =
  cfg_alpha :: real
  cfg_beta :: real
  cfg_safety_factor :: real
  cfg_min_timeout :: u32
  cfg_max_timeout :: u32
  cfg_initial_timeout :: u32

record adaptive_timeout =
  estimated_rtt :: real
  rtt_dev :: real
  current_timeout :: u32
  last_request :: timespec
  total_rpcs :: u64
  missed_heartbeats :: u64
  min_rtt :: real
  max_rtt :: real
  avg_rtt :: real
  at_config :: adaptive_config

definition ALPHA :: real where "ALPHA = 1 / 8"
definition BETA :: real where "BETA = 1 / 4"
definition SAFETY_FACTOR :: real where "SAFETY_FACTOR = 3 / 2"
definition MIN_TIMEOUT_MS :: u32 where "MIN_TIMEOUT_MS = 150"
definition MAX_TIMEOUT_MS :: u32 where "MAX_TIMEOUT_MS = 300"
definition INITIAL_TIMEOUT_MS :: u32 where "INITIAL_TIMEOUT_MS = 200"

section \<open>Operations\<close>

definition u32_real :: "u32 \<Rightarrow> real" where
  "u32_real w = real (unat w)"

definition trunc_real :: "real \<Rightarrow> int" where
  "trunc_real x = (if 0 \<le> x then \<lfloor>x\<rfloor> else \<lceil>x\<rceil>)"

definition u32_of_double :: "real \<Rightarrow> u32 res" where
  "u32_of_double x = (if -1 < x \<and> x < 2 ^ 32 then Inr (of_int (trunc_real x)) else Inl Undefined_arith)"

text \<open>\<open>init_with_config\<close>: the structure is passed in with whatever it holds; the field
  \<open>last_request\<close> is not initialised. The third component is the result of
  \<open>pthread_mutex_init\<close>.\<close>

definition init_with_config ::
  "bool \<Rightarrow> adaptive_timeout option \<Rightarrow> adaptive_config \<Rightarrow> int \<times> adaptive_timeout option" where
  "init_with_config mutex_ok timeout cfg =
     (case timeout of
        None \<Rightarrow> (-1, None)
      | Some t \<Rightarrow>
          let t1 = t\<lparr>estimated_rtt := u32_real (cfg_initial_timeout cfg), rtt_dev := 0,
                     current_timeout := cfg_initial_timeout cfg, total_rpcs := 0, missed_heartbeats := 0,
                     min_rtt := 0, max_rtt := 0, avg_rtt := 0, at_config := cfg\<rparr>
          in (if mutex_ok then 0 else -1, Some t1))"

definition default_config :: adaptive_config where
  "default_config =
     \<lparr>cfg_alpha = ALPHA, cfg_beta = BETA, cfg_safety_factor = SAFETY_FACTOR,
      cfg_min_timeout = MIN_TIMEOUT_MS, cfg_max_timeout = MAX_TIMEOUT_MS,
      cfg_initial_timeout = INITIAL_TIMEOUT_MS\<rparr>"

definition adaptive_timeout_init :: "bool \<Rightarrow> adaptive_timeout option \<Rightarrow> int \<times> adaptive_timeout option" where
  "adaptive_timeout_init mutex_ok timeout =
     (case timeout of
        None \<Rightarrow> (-1, None)
      | Some _ \<Rightarrow> init_with_config mutex_ok timeout default_config)"

definition adaptive_timeout_init_with_config ::
  "bool \<Rightarrow> adaptive_timeout option \<Rightarrow> adaptive_config option \<Rightarrow> int \<times> adaptive_timeout option" where
  "adaptive_timeout_init_with_config mutex_ok timeout cfg =
     (case (timeout, cfg) of
        (Some _, Some c) \<Rightarrow> init_with_config mutex_ok timeout c
      | _ \<Rightarrow> (-1, timeout))"

definition adaptive_timeout_reset :: "adaptive_timeout \<Rightarrow> adaptive_timeout" where
  "adaptive_timeout_reset t =
     t\<lparr>estimated_rtt := u32_real (cfg_initial_timeout (at_config t)), rtt_dev := 0,
       current_timeout := cfg_initial_timeout (at_config t),
       total_rpcs := 0, missed_heartbeats := 0, min_rtt := 0, max_rtt := 0, avg_rtt := 0\<rparr>"

definition adaptive_timeout_rpc_start :: "timespec \<Rightarrow> adaptive_timeout \<Rightarrow> adaptive_timeout" where
  "adaptive_timeout_rpc_start now t = t\<lparr>last_request := now\<rparr>"

text \<open>The seconds and nanoseconds are signed; their differences are exact.\<close>

definition rtt_ms :: "(real \<Rightarrow> real) \<Rightarrow> timespec \<Rightarrow> timespec \<Rightarrow> real" where
  "rtt_ms fl now start =
     fl (fl (real_of_int (sint (tv_sec now - tv_sec start)) * 1000)
         + fl (real_of_int (sint (tv_nsec now - tv_nsec start)) / 1000000))"

definition adaptive_timeout_rpc_end ::
  "(real \<Rightarrow> real) \<Rightarrow> timespec \<Rightarrow> adaptive_timeout \<Rightarrow> adaptive_timeout res" where
  "adaptive_timeout_rpc_end fl now t =
     (let rtt = rtt_ms fl now (last_request t);
          total = total_rpcs t + 1;
          min' = (if min_rtt t = 0 \<or> rtt < min_rtt t then rtt else min_rtt t);
          max' = (if max_rtt t < rtt then rtt else max_rtt t);
          avg' = fl (fl (fl (avg_rtt t * fl (real (unat (total - 1)))) + rtt) / fl (real (unat total)));
          err = fl (rtt - estimated_rtt t);
          est' = fl (estimated_rtt t + fl (cfg_alpha (at_config t) * err));
          dev' = fl (rtt_dev t + fl (cfg_beta (at_config t) * fl (\<bar>err\<bar> - rtt_dev t)))
      in bindr (u32_of_double (fl (est' + fl (cfg_safety_factor (at_config t) * dev')))) (\<lambda>new0.
           let new1 = (if new0 < cfg_min_timeout (at_config t) then cfg_min_timeout (at_config t) else new0);
               new2 = (if cfg_max_timeout (at_config t) < new1 then cfg_max_timeout (at_config t) else new1)
           in Inr (t\<lparr>total_rpcs := total, min_rtt := min', max_rtt := max', avg_rtt := avg',
                     estimated_rtt := est', rtt_dev := dev', current_timeout := new2\<rparr>)))"

definition adaptive_timeout_record_heartbeat :: "adaptive_timeout \<Rightarrow> adaptive_timeout" where
  "adaptive_timeout_record_heartbeat t = t\<lparr>current_timeout := cfg_min_timeout (at_config t)\<rparr>"

definition adaptive_timeout_record_vote :: "adaptive_timeout \<Rightarrow> adaptive_timeout" where
  "adaptive_timeout_record_vote t = t\<lparr>current_timeout := cfg_min_timeout (at_config t)\<rparr>"

definition adaptive_timeout_check_missed_heartbeat ::
  "(real \<Rightarrow> real) \<Rightarrow> adaptive_timeout \<Rightarrow> adaptive_timeout res" where
  "adaptive_timeout_check_missed_heartbeat fl t =
     bindr (u32_of_double (fl (u32_real (current_timeout t) * (3 / 2)))) (\<lambda>c.
       Inr (t\<lparr>missed_heartbeats := missed_heartbeats t + 1,
              current_timeout := (if cfg_max_timeout (at_config t) < c
                                  then cfg_max_timeout (at_config t) else c)\<rparr>))"

definition adaptive_timeout_get_current :: "adaptive_timeout option \<Rightarrow> u32" where
  "adaptive_timeout_get_current timeout =
     (case timeout of None \<Rightarrow> INITIAL_TIMEOUT_MS | Some t \<Rightarrow> current_timeout t)"

definition adaptive_timeout_get_stats ::
  "adaptive_timeout option \<Rightarrow> (u64 \<times> u64 \<times> real \<times> real \<times> real) option" where
  "adaptive_timeout_get_stats timeout =
     (case timeout of
        None \<Rightarrow> None
      | Some t \<Rightarrow> Some (total_rpcs t, missed_heartbeats t, min_rtt t, max_rtt t, avg_rtt t))"

section \<open>Sequences of operations\<close>

datatype adaptive_op =
    Rpc_start timespec
  | Rpc_end timespec
  | Heartbeat
  | Vote
  | Missed
  | Reset

fun adaptive_do :: "(real \<Rightarrow> real) \<Rightarrow> adaptive_op \<Rightarrow> adaptive_timeout \<Rightarrow> adaptive_timeout res" where
  "adaptive_do fl (Rpc_start now) t = Inr (adaptive_timeout_rpc_start now t)"
| "adaptive_do fl (Rpc_end now) t = adaptive_timeout_rpc_end fl now t"
| "adaptive_do fl Heartbeat t = Inr (adaptive_timeout_record_heartbeat t)"
| "adaptive_do fl Vote t = Inr (adaptive_timeout_record_vote t)"
| "adaptive_do fl Missed t = adaptive_timeout_check_missed_heartbeat fl t"
| "adaptive_do fl Reset t = Inr (adaptive_timeout_reset t)"

fun adaptive_run :: "(real \<Rightarrow> real) \<Rightarrow> adaptive_op list \<Rightarrow> adaptive_timeout \<Rightarrow> adaptive_timeout res" where
  "adaptive_run fl [] t = Inr t"
| "adaptive_run fl (op # ops) t = bindr (adaptive_do fl op t) (adaptive_run fl ops)"

text \<open>Configurations that make sense: the initial value is between the bounds.\<close>

definition config_wf :: "adaptive_config \<Rightarrow> bool" where
  "config_wf c \<longleftrightarrow> cfg_min_timeout c \<le> cfg_initial_timeout c \<and> cfg_initial_timeout c \<le> cfg_max_timeout c"

definition timeout_in_bounds :: "adaptive_timeout \<Rightarrow> bool" where
  "timeout_in_bounds t \<longleftrightarrow> config_wf (at_config t)
     \<and> cfg_min_timeout (at_config t) \<le> current_timeout t \<and> current_timeout t \<le> cfg_max_timeout (at_config t)"

section \<open>Rounding\<close>

text \<open>What IEEE 754 rounding to nearest guarantees and the bounds below use: it is monotone and
  odd, keeps the integers up to \<open>2 ^ 53\<close>, and never more than doubles a positive
  number.\<close>

locale double_rounding =
  fixes fl :: "real \<Rightarrow> real"
  assumes fl_mono: "x \<le> y \<Longrightarrow> fl x \<le> fl y"
    and fl_int: "\<bar>k\<bar> \<le> 2 ^ 53 \<Longrightarrow> fl (real_of_int k) = real_of_int k"
    and fl_odd: "fl (- x) = - fl x"
    and fl_double: "0 \<le> x \<Longrightarrow> fl x \<le> 2 * x"
begin

lemma fl_le_int: "x \<le> real_of_int k \<Longrightarrow> \<bar>k\<bar> \<le> 2 ^ 53 \<Longrightarrow> fl x \<le> real_of_int k"
  using fl_mono [of x "real_of_int k"] by (simp add: fl_int)

lemma fl_ge_int: "real_of_int k \<le> x \<Longrightarrow> \<bar>k\<bar> \<le> 2 ^ 53 \<Longrightarrow> real_of_int k \<le> fl x"
  using fl_mono [of "real_of_int k" x] by (simp add: fl_int)

lemma fl_nonneg: "0 \<le> x \<Longrightarrow> 0 \<le> fl x"
  using fl_ge_int [of 0 x] by simp

lemma fl_bound: "- x \<le> y \<Longrightarrow> y \<le> z \<Longrightarrow> 0 \<le> x \<Longrightarrow> 0 \<le> z \<Longrightarrow> - 2 * x \<le> fl y \<and> fl y \<le> 2 * z"
proof
  assume a: "- x \<le> y" "y \<le> z" "0 \<le> x" "0 \<le> z"
  show "fl y \<le> 2 * z" using fl_mono [OF a(2)] fl_double [OF a(4)] by linarith
  show "- 2 * x \<le> fl y" using fl_mono [OF a(1)] fl_double [OF a(3)] by (simp add: fl_odd)
qed

text \<open>The smoothed estimate stays between its old value and the bound \<open>B\<close> of the
  samples.\<close>

lemma ewma_bound:
  assumes a: "0 \<le> a" "a \<le> 1 / 4" and v: "0 \<le> v" "v \<le> B" and e: "- v \<le> e" "e \<le> B - v"
    and B: "B = real_of_int k" "\<bar>k\<bar> \<le> 2 ^ 53"
  shows "0 \<le> fl (v + fl (a * fl e))" "fl (v + fl (a * fl e)) \<le> B"
proof -
  from fl_bound [OF e] v have e': "- 2 * v \<le> fl e" "fl e \<le> 2 * (B - v)" by auto
  have "a * fl e \<le> a * (2 * (B - v))" using e'(2) a(1) by (rule mult_left_mono)
  also have "\<dots> \<le> (1 / 4) * (2 * (B - v))" using a(2) v by (intro mult_right_mono) simp_all
  finally have hi: "a * fl e \<le> (B - v) / 2" by simp
  have "(1 / 4) * (- 2 * v) \<le> a * (- 2 * v)"
    using mult_right_mono [OF a(2), of "2 * v"] v(1) by simp
  also have "\<dots> \<le> a * fl e" using e'(1) a(1) by (rule mult_left_mono)
  finally have lo: "- (v / 2) \<le> a * fl e" by simp
  have "- v \<le> fl (a * fl e) \<and> fl (a * fl e) \<le> B - v"
    using fl_bound [OF lo hi] v by simp
  then have "0 \<le> v + fl (a * fl e)" "v + fl (a * fl e) \<le> B" by simp_all
  then show "0 \<le> fl (v + fl (a * fl e))" "fl (v + fl (a * fl e)) \<le> B"
    using fl_nonneg fl_le_int B by simp_all
qed

end

lemma unat_u32_of_double:
  assumes "u32_of_double x = Inr w" "0 \<le> x"
  shows "unat w = nat \<lfloor>x\<rfloor>"
proof -
  from assms have "\<lfloor>x\<rfloor> < 2 ^ 32" "w = of_int \<lfloor>x\<rfloor>"
    by (auto simp: u32_of_double_def trunc_real_def floor_less_iff split: if_splits)
  then show ?thesis
    using assms(2) by (simp add: unsigned_of_int take_bit_int_eq_self unat_eq_nat_uint)
qed

definition default_timeout_inv :: "adaptive_timeout \<Rightarrow> bool" where
  "default_timeout_inv t \<longleftrightarrow> at_config t = default_config \<and> timeout_in_bounds t
     \<and> 0 \<le> estimated_rtt t \<and> estimated_rtt t \<le> 2 ^ 30 \<and> 0 \<le> rtt_dev t \<and> rtt_dev t \<le> 2 ^ 30"

fun rtts_ok :: "(real \<Rightarrow> real) \<Rightarrow> adaptive_op list \<Rightarrow> timespec \<Rightarrow> bool" where
  "rtts_ok fl [] lr = True"
| "rtts_ok fl (Rpc_start now # ops) lr = rtts_ok fl ops now"
| "rtts_ok fl (Rpc_end now # ops) lr =
     (0 \<le> rtt_ms fl now lr \<and> rtt_ms fl now lr \<le> 2 ^ 30 \<and> rtts_ok fl ops lr)"
| "rtts_ok fl (Heartbeat # ops) lr = rtts_ok fl ops lr"
| "rtts_ok fl (Vote # ops) lr = rtts_ok fl ops lr"
| "rtts_ok fl (Missed # ops) lr = rtts_ok fl ops lr"
| "rtts_ok fl (Reset # ops) lr = rtts_ok fl ops lr"

lemma default_config_sel [simp]:
  "cfg_alpha default_config = ALPHA" "cfg_beta default_config = BETA"
  "cfg_safety_factor default_config = SAFETY_FACTOR" "cfg_min_timeout default_config = 150"
  "cfg_max_timeout default_config = 300" "cfg_initial_timeout default_config = 200"
  by (simp_all add: default_config_def MIN_TIMEOUT_MS_def MAX_TIMEOUT_MS_def INITIAL_TIMEOUT_MS_def)

lemma default_bounds:
  "config_wf default_config"
  "at_config t = default_config \<Longrightarrow> timeout_in_bounds t \<longleftrightarrow> 150 \<le> current_timeout t \<and> current_timeout t \<le> 300"
  by (auto simp: timeout_in_bounds_def config_wf_def)

context double_rounding
begin

lemma missed_value:
  assumes "unat (current_timeout t) \<le> 2 ^ 31" "cfg_max_timeout (at_config t) \<le> 2 ^ 31"
    and "current_timeout t \<le> cfg_max_timeout (at_config t)"
  shows "\<exists>t'. adaptive_timeout_check_missed_heartbeat fl t = Inr t'
    \<and> current_timeout t \<le> current_timeout t' \<and> current_timeout t' \<le> cfg_max_timeout (at_config t)
    \<and> t' = t\<lparr>missed_heartbeats := missed_heartbeats t + 1, current_timeout := current_timeout t'\<rparr>"
proof -
  let ?c = "current_timeout t" and ?x = "fl (u32_real (current_timeout t) * (3 / 2))"
  have "u32_real ?c \<le> 2 ^ 31" using assms(1) by (simp add: u32_real_def flip: of_nat_le_iff [where 'a = real])
  then have "?x \<le> 3 * 2 ^ 30" using fl_le_int [of _ "3 * 2 ^ 30"] by simp
  moreover have lo: "u32_real ?c \<le> ?x"
  proof -
    have "real_of_int (int (unat ?c)) \<le> fl (u32_real ?c * (3 / 2))"
    proof (rule fl_ge_int)
      have "0 \<le> u32_real ?c" unfolding u32_real_def by (rule of_nat_0_le_iff)
      then show "real_of_int (int (unat ?c)) \<le> u32_real ?c * (3 / 2)"
        by (simp add: u32_real_def del: of_nat_unat)
      show "\<bar>int (unat ?c)\<bar> \<le> 2 ^ 53" using assms(1) by (simp del: of_nat_unat)
    qed
    then show ?thesis by (simp add: u32_real_def del: of_nat_unat)
  qed
  moreover have "0 \<le> u32_real ?c" unfolding u32_real_def by (rule of_nat_0_le_iff)
  ultimately obtain w where w: "u32_of_double ?x = Inr w"
    by (auto simp: u32_of_double_def)
  have "0 \<le> ?x" using lo \<open>0 \<le> u32_real ?c\<close> by linarith
  have "?c \<le> w"
    using unat_u32_of_double [OF w \<open>0 \<le> ?x\<close>] lo
    by (simp add: word_le_nat_alt u32_real_def le_nat_floor)
  with w assms(3) show ?thesis
    by (auto simp: adaptive_timeout_check_missed_heartbeat_def)
qed

lemma rpc_end_default:
  assumes inv: "default_timeout_inv t" and rtt: "0 \<le> rtt_ms fl now (last_request t)" "rtt_ms fl now (last_request t) \<le> 2 ^ 30"
  shows "\<exists>t'. adaptive_timeout_rpc_end fl now t = Inr t' \<and> default_timeout_inv t' \<and> last_request t' = last_request t"
proof -
  let ?r = "rtt_ms fl now (last_request t)" and ?B = "real_of_int (2 ^ 30)"
  let ?err = "fl (?r - estimated_rtt t)"
  let ?est = "fl (estimated_rtt t + fl (ALPHA * ?err))"
  let ?dev = "fl (rtt_dev t + fl (BETA * fl (\<bar>?err\<bar> - rtt_dev t)))"
  have e: "0 \<le> estimated_rtt t" "estimated_rtt t \<le> ?B" and d: "0 \<le> rtt_dev t" "rtt_dev t \<le> ?B"
    using inv by (simp_all add: default_timeout_inv_def)
  have est: "0 \<le> ?est" "?est \<le> ?B"
    using ewma_bound [of ALPHA "estimated_rtt t" ?B "?r - estimated_rtt t" "2 ^ 30"] e rtt
    by (simp_all add: ALPHA_def)
  have "\<bar>?err\<bar> \<le> ?B"
    using fl_le_int [of "?r - estimated_rtt t" "2 ^ 30"] fl_ge_int [of "- (2 ^ 30)" "?r - estimated_rtt t"] e rtt
    by (simp add: abs_le_iff)
  then have dev: "0 \<le> ?dev" "?dev \<le> ?B"
    using ewma_bound [of BETA "rtt_dev t" ?B "\<bar>?err\<bar> - rtt_dev t" "2 ^ 30"] d
    by (simp_all add: BETA_def)
  let ?x = "fl (?est + fl (SAFETY_FACTOR * ?dev))"
  have s: "0 \<le> fl (SAFETY_FACTOR * ?dev)" "fl (SAFETY_FACTOR * ?dev) \<le> real_of_int (3 * 2 ^ 29)"
    using dev by (intro fl_nonneg fl_le_int; simp add: SAFETY_FACTOR_def)+
  then have x: "0 \<le> ?x" "?x \<le> real_of_int (5 * 2 ^ 29)"
    using est by (intro fl_nonneg fl_le_int; simp)+
  then obtain w where w: "u32_of_double ?x = Inr w" by (auto simp: u32_of_double_def)
  have cfg: "at_config t = default_config" using inv by (simp add: default_timeout_inv_def)
  let ?w1 = "if w < 150 then 150 else w"
  have clamp: "150 \<le> (if 300 < ?w1 then 300 else ?w1) \<and> (if 300 < ?w1 then 300 else ?w1) \<le> (300 :: u32)"
    by auto
  have "\<exists>t'. adaptive_timeout_rpc_end fl now t = Inr t' \<and> at_config t' = default_config
    \<and> estimated_rtt t' = ?est \<and> rtt_dev t' = ?dev \<and> last_request t' = last_request t
    \<and> current_timeout t' = (if 300 < ?w1 then 300 else ?w1)"
    unfolding adaptive_timeout_rpc_end_def Let_def cfg default_config_sel w by (simp add: cfg)
  then obtain t' where t': "adaptive_timeout_rpc_end fl now t = Inr t'" "at_config t' = default_config"
    "estimated_rtt t' = ?est" "rtt_dev t' = ?dev" "last_request t' = last_request t"
    "current_timeout t' = (if 300 < ?w1 then 300 else ?w1)"
    by blast
  then show ?thesis
    using est dev clamp default_bounds(2) [OF t'(2)] by (simp add: default_timeout_inv_def)
qed

lemma adaptive_do_default:
  assumes "default_timeout_inv t" "rtts_ok fl (op # ops) (last_request t)"
  shows "\<exists>t'. adaptive_do fl op t = Inr t' \<and> default_timeout_inv t' \<and> rtts_ok fl ops (last_request t')"
proof (cases op)
  case (Rpc_end now)
  with assms rpc_end_default [of t now] show ?thesis by auto
next
  case Missed
  have b: "unat (current_timeout t) \<le> 2 ^ 31" "cfg_max_timeout (at_config t) \<le> 2 ^ 31"
    "current_timeout t \<le> cfg_max_timeout (at_config t)"
    using assms(1) by (auto simp: default_timeout_inv_def timeout_in_bounds_def default_config_def MAX_TIMEOUT_MS_def
        word_le_nat_alt)
  from missed_value [OF b] obtain t' where t': "adaptive_timeout_check_missed_heartbeat fl t = Inr t'"
    "current_timeout t \<le> current_timeout t'" "current_timeout t' \<le> cfg_max_timeout (at_config t)"
    "t' = t\<lparr>missed_heartbeats := missed_heartbeats t + 1, current_timeout := current_timeout t'\<rparr>"
    by blast
  have same: "at_config t' = at_config t" "estimated_rtt t' = estimated_rtt t" "rtt_dev t' = rtt_dev t"
    "last_request t' = last_request t"
    by (subst t'(4), simp)+
  with t'(1,2,3) assms Missed show ?thesis
    by (auto simp: default_timeout_inv_def timeout_in_bounds_def)
qed (use assms in \<open>auto simp: default_timeout_inv_def timeout_in_bounds_def config_wf_def u32_real_def
    adaptive_timeout_rpc_start_def adaptive_timeout_record_heartbeat_def adaptive_timeout_record_vote_def
    adaptive_timeout_reset_def\<close>)

lemma adaptive_run_default:
  "default_timeout_inv t \<Longrightarrow> rtts_ok fl ops (last_request t) \<Longrightarrow>
    \<exists>t'. adaptive_run fl ops t = Inr t' \<and> default_timeout_inv t'"
proof (induction ops arbitrary: t)
  case (Cons op ops)
  with adaptive_do_default [of t op ops] show ?case by fastforce
qed simp

lemma missed_run:
  assumes "unat (cfg_max_timeout (at_config t)) \<le> 2 ^ 31" "current_timeout t \<le> cfg_max_timeout (at_config t)"
  shows "\<exists>t'. adaptive_timeout_check_missed_heartbeat fl t = Inr t'
    \<and> current_timeout t \<le> current_timeout t' \<and> current_timeout t' \<le> cfg_max_timeout (at_config t)
    \<and> missed_heartbeats t' = missed_heartbeats t + 1"
proof -
  have "unat (current_timeout t) \<le> 2 ^ 31" "cfg_max_timeout (at_config t) \<le> 2 ^ 31"
    using assms by (auto simp: word_le_nat_alt)
  from missed_value [OF this assms(2)] obtain t' where
    t': "adaptive_timeout_check_missed_heartbeat fl t = Inr t'"
    "current_timeout t \<le> current_timeout t'" "current_timeout t' \<le> cfg_max_timeout (at_config t)"
    "t' = t\<lparr>missed_heartbeats := missed_heartbeats t + 1, current_timeout := current_timeout t'\<rparr>"
    by blast
  have "missed_heartbeats t' = missed_heartbeats t + 1" by (subst t'(4), simp)
  with t'(1-3) show ?thesis by blast
qed

end

section \<open>Properties\<close>

text \<open>C32: From the default configuration on, any sequence of measurements, heartbeats, votes,
  missed heartbeats and resets in which each measured round trip is between 0 and \<open>2 ^ 30\<close>
  milliseconds runs without undefined arithmetic and leaves the election timeout between 150
  and 300 milliseconds, whatever the rounding of the floating-point operations.\<close>

theorem adaptive_timeout_stays_in_bounds:
  assumes "double_rounding fl" "adaptive_timeout_init True (Some junk) = (0, Some t0)"
    and "rtts_ok fl ops (last_request t0)"
  shows "\<exists>t. adaptive_run fl ops t0 = Inr t \<and> 150 \<le> current_timeout t \<and> current_timeout t \<le> 300"
proof -
  have "default_timeout_inv t0"
    using assms(2) by (auto simp: adaptive_timeout_init_def init_with_config_def default_timeout_inv_def
        default_bounds u32_real_def)
  from double_rounding.adaptive_run_default [OF assms(1) this assms(3)]
  show ?thesis by (auto simp: default_timeout_inv_def default_bounds)
qed

text \<open>A missed heartbeat never lowers the timeout and never takes it beyond the maximum,
  and it is counted.\<close>

theorem missed_heartbeat_grows:
  assumes "double_rounding fl" "unat (cfg_max_timeout (at_config t)) \<le> 2 ^ 31"
    and "current_timeout t \<le> cfg_max_timeout (at_config t)"
  shows "\<exists>t'. adaptive_timeout_check_missed_heartbeat fl t = Inr t'
    \<and> current_timeout t \<le> current_timeout t' \<and> current_timeout t' \<le> cfg_max_timeout (at_config t)
    \<and> missed_heartbeats t' = missed_heartbeats t + 1"
  by (rule double_rounding.missed_run [OF assms])

text \<open>Rounding toward zero to multiples of \<open>2 ^ -20\<close> satisfies the laws.\<close>

definition round20 :: "real \<Rightarrow> real" where
  "round20 x = real_of_int (trunc_real (x * 2 ^ 20)) / 2 ^ 20"

lemma trunc_real_odd: "trunc_real (- x) = - trunc_real x"
  by (auto simp: trunc_real_def ceiling_minus floor_minus)

lemma trunc_real_mono: "x \<le> y \<Longrightarrow> trunc_real x \<le> trunc_real y"
proof -
  assume xy: "x \<le> y"
  have "\<lceil>x\<rceil> \<le> \<lfloor>y\<rfloor>" if "x < 0" "0 \<le> y"
    using that by (rule_tac order_trans [of _ 0]) simp_all
  with xy show ?thesis by (auto simp: trunc_real_def floor_mono ceiling_mono)
qed

interpretation round20: double_rounding round20
proof unfold_locales
  fix x y :: real and k :: int
  show "round20 x \<le> round20 y" if "x \<le> y"
    using that by (auto simp: round20_def intro!: divide_right_mono trunc_real_mono)
  have "real_of_int k * 2 ^ 20 = real_of_int (k * 2 ^ 20)" by simp
  then show "round20 (real_of_int k) = real_of_int k" if "\<bar>k\<bar> \<le> 2 ^ 53"
    by (simp add: round20_def trunc_real_def del: of_int_mult)
  show "round20 (- x) = - round20 x"
    by (simp add: round20_def trunc_real_odd)
  show "round20 x \<le> 2 * x" if "0 \<le> x"
  proof -
    have "real_of_int (trunc_real (x * 2 ^ 20)) \<le> x * 2 ^ 20"
      using that by (simp add: trunc_real_def)
    then show ?thesis using that by (simp add: round20_def)
  qed
qed

definition sample_timeout :: adaptive_timeout where
  "sample_timeout =
     \<lparr>estimated_rtt = 0, rtt_dev = 0, current_timeout = 0, last_request = \<lparr>tv_sec = 0, tv_nsec = 0\<rparr>,
      total_rpcs = 0, missed_heartbeats = 0, min_rtt = 0, max_rtt = 0, avg_rtt = 0, at_config = default_config\<rparr>"

theorem adaptive_timeout_stays_in_bounds_witness:
  "\<exists>t0 t. adaptive_timeout_init True (Some sample_timeout) = (0, Some t0)
    \<and> adaptive_run round20 [Rpc_start \<lparr>tv_sec = 5, tv_nsec = 0\<rparr>, Rpc_end \<lparr>tv_sec = 6, tv_nsec = 0\<rparr>, Missed, Vote, Missed]
        t0 = Inr t \<and> 150 \<le> current_timeout t \<and> current_timeout t \<le> 300"
proof -
  obtain t0 where t0: "adaptive_timeout_init True (Some sample_timeout) = (0, Some t0)"
    by (simp add: adaptive_timeout_init_def init_with_config_def Let_def)
  have "rtt_ms round20 \<lparr>tv_sec = 6, tv_nsec = 0\<rparr> \<lparr>tv_sec = 5, tv_nsec = 0\<rparr> = 1000"
    using round20.fl_int [of 0] round20.fl_int [of 1000] by (simp add: rtt_ms_def)
  then have "rtts_ok round20 [Rpc_start \<lparr>tv_sec = 5, tv_nsec = 0\<rparr>, Rpc_end \<lparr>tv_sec = 6, tv_nsec = 0\<rparr>, Missed, Vote, Missed]
      (last_request t0)"
    by simp
  from adaptive_timeout_stays_in_bounds [OF round20.double_rounding_axioms t0 this] t0 show ?thesis by blast
qed

theorem missed_heartbeat_grows_witness:
  "\<exists>t'. adaptive_timeout_check_missed_heartbeat round20 (sample_timeout\<lparr>current_timeout := 200\<rparr>) = Inr t'
    \<and> 200 \<le> current_timeout t' \<and> current_timeout t' \<le> 300"
  using missed_heartbeat_grows [OF round20.double_rounding_axioms, of "sample_timeout\<lparr>current_timeout := 200\<rparr>"]
  by (auto simp: sample_timeout_def)

end
