(* ===== verification/Kv_Store.thy ===== *)
theory Kv_Store
  imports Log_File
begin

text \<open>
  \<open>src/kv_store.c\<close>: the key-value store, a wrapper around RocksDB. RocksDB is not part
  of the repository: what its calls answer is an argument of the definitions, and the locale
  \<open>rocksdb_store\<close> states what its documentation promises of successful reads, writes and
  deletes. The contract \<open>kv_contract\<close> is what the state machine and the reader thread rely
  on; the sublocale derives it for \<open>kv_store_get\<close>, \<open>kv_store_set\<close> and
  \<open>kv_store_delete\<close>.
\<close>

section \<open>The store\<close>

text \<open>\<open>kv_store_t\<close>: a handle is a number, a null pointer is \<open>None\<close>. The field
  \<open>kv_db\<close> holds the state of the database the handle \<open>db\<close> stands for.\<close>

type_synonym handle = nat

record 'db kv_store_t =
  kv_db :: "'db option"
  kv_options :: "handle option"
  kv_write_options :: "handle option"
  kv_read_options :: "handle option"
  kv_logfile :: "logfile_t option"

text \<open>The calls of RocksDB that acquire and release resources, in the order they are made.\<close>

datatype rocksdb_call =
    Options_create handle
  | Options_destroy handle
  | Db_open
  | Db_close
  | Writeoptions_create handle
  | Writeoptions_destroy handle
  | Readoptions_create handle
  | Readoptions_destroy handle

text \<open>\<open>kv_store_init\<close>: the arguments \<open>opts\<close>, \<open>opened\<close>, \<open>wopts\<close> and
  \<open>ropts\<close> are what the four creating calls return (\<open>opened\<close> is \<open>None\<close> when
  \<open>rocksdb_open\<close> sets its error). The second component is the sequence of calls made.\<close>

definition kv_store_init ::
  "handle option \<Rightarrow> 'db option \<Rightarrow> handle option \<Rightarrow> handle option \<Rightarrow> logfile_t option
    \<Rightarrow> 'db kv_store_t \<times> rocksdb_call list" where
  "kv_store_init opts opened wopts ropts log_file =
     (let map0 = \<lparr>kv_db = None, kv_options = None, kv_write_options = None,
                  kv_read_options = None, kv_logfile = log_file\<rparr>
      in case opts of
        None \<Rightarrow> (map0, [])
      | Some opt \<Rightarrow>
          (case opened of
             None \<Rightarrow> (map0\<lparr>kv_options := None, kv_db := None\<rparr>, [Options_create opt, Options_destroy opt])
           | Some d \<Rightarrow>
               (case wopts of
                  None \<Rightarrow> (map0\<lparr>kv_db := None, kv_options := None\<rparr>,
                           [Options_create opt, Db_open, Db_close, Options_destroy opt])
                | Some w \<Rightarrow>
                    (case ropts of
                       None \<Rightarrow> (map0\<lparr>kv_write_options := None, kv_db := None, kv_options := None\<rparr>,
                                [Options_create opt, Db_open, Writeoptions_create w,
                                 Writeoptions_destroy w, Db_close, Options_destroy opt])
                     | Some r \<Rightarrow>
                         (map0\<lparr>kv_options := Some opt, kv_db := Some d, kv_write_options := Some w,
                               kv_read_options := Some r\<rparr>,
                          [Options_create opt, Db_open, Writeoptions_create w, Readoptions_create r])))))"

definition kv_store_destroy :: "'db kv_store_t option \<Rightarrow> 'db kv_store_t option \<times> rocksdb_call list" where
  "kv_store_destroy st =
     (case st of
        None \<Rightarrow> (None, [])
      | Some m \<Rightarrow>
          (Some (m\<lparr>kv_read_options := None, kv_write_options := None, kv_db := None, kv_options := None\<rparr>),
           (case kv_read_options m of None \<Rightarrow> [] | Some r \<Rightarrow> [Readoptions_destroy r])
           @ (case kv_write_options m of None \<Rightarrow> [] | Some w \<Rightarrow> [Writeoptions_destroy w])
           @ (case kv_db m of None \<Rightarrow> [] | Some _ \<Rightarrow> [Db_close])
           @ (case kv_options m of None \<Rightarrow> [] | Some opt \<Rightarrow> [Options_destroy opt])))"

section \<open>Reads and writes\<close>

text \<open>A key is the C string its pointer points to. \<open>rget\<close>, \<open>rput\<close> and
  \<open>rdelete\<close> are \<open>rocksdb_get\<close> (the value found and the error),
  \<open>rocksdb_put\<close> and \<open>rocksdb_delete\<close> (the error and the database left).
  The result of a read is the pair of the returned pointer and \<open>*value_length\<close>.\<close>

type_synonym 'db rget = "'db \<Rightarrow> handle option \<Rightarrow> bytes \<Rightarrow> bytes option \<times> bool"
type_synonym 'db rput = "'db \<Rightarrow> handle option \<Rightarrow> bytes \<Rightarrow> bytes \<Rightarrow> bool \<times> 'db"
type_synonym 'db rdelete = "'db \<Rightarrow> handle option \<Rightarrow> bytes \<Rightarrow> bool \<times> 'db"

definition kv_store_get ::
  "'db rget \<Rightarrow> 'db kv_store_t option \<Rightarrow> bytes option \<Rightarrow> (bytes option \<times> int) res" where
  "kv_store_get rget st key =
     (case (st, key) of
        (Some m, Some k) \<Rightarrow>
          (case kv_db m of
             None \<Rightarrow> Inl Assert_failed
           | Some d \<Rightarrow>
               (let (rocks_value, err) = rget d (kv_read_options m) k
                in if err then Inr (None, -1)
                   else case rocks_value of
                     None \<Rightarrow> Inr (None, -1)
                   | Some v \<Rightarrow> Inr (Some v, int (length v))))
      | _ \<Rightarrow> Inl Assert_failed)"

definition kv_store_set ::
  "'db rput \<Rightarrow> 'db kv_store_t option \<Rightarrow> bytes option \<Rightarrow> bytes option \<Rightarrow> nat
    \<Rightarrow> (int \<times> 'db kv_store_t) res" where
  "kv_store_set rput st key value value_len =
     (case (st, key, value) of
        (Some m, Some k, Some v) \<Rightarrow>
          (case kv_db m of
             None \<Rightarrow> Inl Assert_failed
           | Some d \<Rightarrow>
               bindr (rd_bytes v 0 value_len) (\<lambda>data.
                 let (err, d') = rput d (kv_write_options m) k data
                 in Inr (if err then -1 else 0, m\<lparr>kv_db := Some d'\<rparr>)))
      | _ \<Rightarrow> Inl Assert_failed)"

definition kv_store_delete ::
  "'db rdelete \<Rightarrow> 'db kv_store_t option \<Rightarrow> bytes option \<Rightarrow> (int \<times> 'db kv_store_t) res" where
  "kv_store_delete rdelete st key =
     (case (st, key) of
        (Some m, Some k) \<Rightarrow>
          (case kv_db m of
             None \<Rightarrow> Inl Assert_failed
           | Some d \<Rightarrow>
               (let (err, d') = rdelete d (kv_write_options m) k
                in Inr (if err then -1 else 0, m\<lparr>kv_db := Some d'\<rparr>)))
      | _ \<Rightarrow> Inl Assert_failed)"

text \<open>\<open>kv_store_display_values\<close>: a printed line carries the counter, the key, the first
  twenty bytes of the value (printable ones as they are, the others as a backslash, an x and
  two hexadecimal digits), whether it was cut, and the length of the value. \<open>items\<close> is what
  the iterator yields, \<open>None\<close> when it cannot be created. The result is the list of printed
  lines and the number the closing line reports.\<close>

definition hex_digit :: "nat \<Rightarrow> char" where
  "hex_digit n = (if n < 10 then char_of (48 + n) else char_of (87 + n))"

definition display_byte :: "u8 \<Rightarrow> string" where
  "display_byte b =
     (if 32 \<le> unat b \<and> unat b \<le> 126 then [char_of (unat b)]
      else [CHR 0x5C, CHR ''x'', hex_digit (unat b div 16), hex_digit (unat b mod 16)])"

definition display_line :: "nat \<Rightarrow> bytes \<times> bytes \<Rightarrow> nat \<times> bytes \<times> string \<times> bool \<times> nat" where
  "display_line counter kv =
     (counter, fst kv, concat (map display_byte (take 20 (snd kv))), 20 < length (snd kv), length (snd kv))"

fun display_loop ::
  "nat \<Rightarrow> (bytes \<times> bytes) list \<Rightarrow> (nat \<times> bytes \<times> string \<times> bool \<times> nat) list \<times> nat" where
  "display_loop counter [] = ([], counter)"
| "display_loop counter (kv # rest) =
     (let (ls, n) = display_loop (counter + 1) rest in (display_line (counter + 1) kv # ls, n))"

definition kv_store_display_values ::
  "('db \<Rightarrow> handle option \<Rightarrow> (bytes \<times> bytes) list option) \<Rightarrow> 'db kv_store_t option
    \<Rightarrow> ((nat \<times> bytes \<times> string \<times> bool \<times> nat) list \<times> nat) option res" where
  "kv_store_display_values iterate st =
     (case st of
        None \<Rightarrow> Inl Assert_failed
      | Some m \<Rightarrow>
          (case kv_db m of
             None \<Rightarrow> Inl Assert_failed
           | Some d \<Rightarrow>
               (case iterate d (kv_read_options m) of
                  None \<Rightarrow> Inr None
                | Some items \<Rightarrow> Inr (Some (display_loop 0 items)))))"

section \<open>Resources\<close>

text \<open>The handles still held after a sequence of calls: what was created and not destroyed
  since. A destruction of something not held makes the sequence invalid (\<open>None\<close>), and so
  does destroying the options of a database that is still open.\<close>

fun call_effect :: "rocksdb_call set option \<Rightarrow> rocksdb_call \<Rightarrow> rocksdb_call set option" where
  "call_effect None c = None"
| "call_effect (Some H) (Options_create h) = Some (insert (Options_create h) H)"
| "call_effect (Some H) (Options_destroy h) =
     (if Options_create h \<in> H \<and> Db_open \<notin> H then Some (H - {Options_create h}) else None)"
| "call_effect (Some H) Db_open = Some (insert Db_open H)"
| "call_effect (Some H) Db_close = (if Db_open \<in> H then Some (H - {Db_open}) else None)"
| "call_effect (Some H) (Writeoptions_create h) = Some (insert (Writeoptions_create h) H)"
| "call_effect (Some H) (Writeoptions_destroy h) =
     (if Writeoptions_create h \<in> H then Some (H - {Writeoptions_create h}) else None)"
| "call_effect (Some H) (Readoptions_create h) = Some (insert (Readoptions_create h) H)"
| "call_effect (Some H) (Readoptions_destroy h) =
     (if Readoptions_create h \<in> H then Some (H - {Readoptions_create h}) else None)"

definition held :: "rocksdb_call list \<Rightarrow> rocksdb_call set option" where
  "held cs = foldl call_effect (Some {}) cs"

text \<open>\<open>kv_store_init\<close> is all or nothing on each of its five paths: either the four
  handles are set, or all are null and every resource acquired on the way has been released,
  the options only after the database was closed.\<close>

theorem kv_store_init_all_or_nothing:
  "case kv_store_init opts opened wopts ropts lf of (m, calls) \<Rightarrow>
     (kv_db m = None \<and> kv_options m = None \<and> kv_write_options m = None \<and> kv_read_options m = None
        \<and> held calls = Some {})
   \<or> (\<exists>opt d w r. kv_db m = Some d \<and> kv_options m = Some opt \<and> kv_write_options m = Some w
        \<and> kv_read_options m = Some r
        \<and> held calls = Some {Options_create opt, Db_open, Writeoptions_create w, Readoptions_create r})"
  by (cases opts; cases opened; cases wopts; cases ropts)
    (auto simp: kv_store_init_def held_def Let_def)

text \<open>Destroying what \<open>kv_store_init\<close> returned releases everything it had acquired,
  on every path, and leaves a store whose handles are all null; a second destruction makes no
  call.\<close>

theorem kv_store_init_destroy:
  "case kv_store_init opts opened wopts ropts lf of (m, calls) \<Rightarrow>
   case kv_store_destroy (Some m) of (m', calls') \<Rightarrow>
     held (calls @ calls') = Some {}
     \<and> kv_store_destroy m' = (m', [])"
  by (cases opts; cases opened; cases wopts; cases ropts)
    (auto simp: kv_store_init_def kv_store_destroy_def held_def Let_def)

section \<open>Contracts\<close>

text \<open>The abstract view: the map from keys to values a store holds. \<open>kv_ready\<close> are the
  stores \<open>kv_store_init\<close> returned successfully.\<close>

definition kv_ready :: "'db kv_store_t \<Rightarrow> bool" where
  "kv_ready m \<longleftrightarrow> kv_db m \<noteq> None \<and> kv_options m \<noteq> None \<and> kv_write_options m \<noteq> None \<and> kv_read_options m \<noteq> None"

definition kv_content :: "('db \<Rightarrow> bytes \<rightharpoonup> bytes) \<Rightarrow> 'db kv_store_t \<Rightarrow> bytes \<rightharpoonup> bytes" where
  "kv_content content m = (case kv_db m of None \<Rightarrow> Map.empty | Some d \<Rightarrow> content d)"

text \<open>RocksDB: a read, a write and a delete with the options created for them, when they
  report no error.\<close>

locale rocksdb_store =
  fixes rget :: "'db rget" and rput :: "'db rput" and rdelete :: "'db rdelete"
    and content :: "'db \<Rightarrow> bytes \<rightharpoonup> bytes"
  assumes get_ok: "\<not> snd (rget d (Some r) k) \<Longrightarrow> fst (rget d (Some r) k) = content d k"
    and put_ok: "\<not> fst (rput d (Some w) k v) \<Longrightarrow> content (snd (rput d (Some w) k v)) = (content d)(k \<mapsto> v)"
    and delete_ok: "\<not> fst (rdelete d (Some w) k) \<Longrightarrow> content (snd (rdelete d (Some w) k)) = (content d)(k := None)"

text \<open>What a client of the store relies on: a zero return code means that the operation took
  effect on the map, a read that returns a value returns the one stored, and no operation
  fails an assertion on a ready store.\<close>

locale kv_contract =
  fixes get :: "'s option \<Rightarrow> bytes option \<Rightarrow> (bytes option \<times> int) res"
    and set :: "'s option \<Rightarrow> bytes option \<Rightarrow> bytes option \<Rightarrow> nat \<Rightarrow> (int \<times> 's) res"
    and delete :: "'s option \<Rightarrow> bytes option \<Rightarrow> (int \<times> 's) res"
    and abs :: "'s \<Rightarrow> bytes \<rightharpoonup> bytes" and ready :: "'s \<Rightarrow> bool"
  assumes get_total: "ready s \<Longrightarrow> \<exists>r. get (Some s) (Some k) = Inr r"
    and get_value: "ready s \<Longrightarrow> get (Some s) (Some k) = Inr (Some v, l) \<Longrightarrow> abs s k = Some v \<and> l = int (length v)"
    and get_none: "ready s \<Longrightarrow> get (Some s) (Some k) = Inr (None, l) \<Longrightarrow> l = -1"
    and set_total: "ready s \<Longrightarrow> n \<le> length v \<Longrightarrow> \<exists>rc s'. set (Some s) (Some k) (Some v) n = Inr (rc, s') \<and> ready s'"
    and set_ok: "ready s \<Longrightarrow> set (Some s) (Some k) (Some v) n = Inr (0, s') \<Longrightarrow> abs s' = (abs s)(k \<mapsto> take n v)"
    and delete_total: "ready s \<Longrightarrow> \<exists>rc s'. delete (Some s) (Some k) = Inr (rc, s') \<and> ready s'"
    and delete_ok: "ready s \<Longrightarrow> delete (Some s) (Some k) = Inr (0, s') \<Longrightarrow> abs s' = (abs s)(k := None)"
begin

lemma set_then_get:
  assumes "ready s" "n \<le> length v" "set (Some s) (Some k) (Some v) n = Inr (0, s')"
    and "get (Some s') (Some k) = Inr (Some u, m)"
  shows "u = take n v \<and> m = int n"
proof -
  have "ready s'" using set_total [OF assms(1,2), of k] assms(3) by auto
  from get_value [OF this assms(4)] set_ok [OF assms(1,3)] assms(2) show ?thesis by auto
qed

lemma delete_then_get:
  assumes "ready s" "delete (Some s) (Some k) = Inr (0, s')"
  shows "get (Some s') (Some k) = Inr (None, -1)"
proof -
  have r: "ready s'" using delete_total [OF assms(1), of k] assms(2) by auto
  obtain u m where g: "get (Some s') (Some k) = Inr (u, m)" using get_total [OF r, of k] by auto
  have "abs s' k = None" using delete_ok [OF assms] by simp
  then have "u = None" using get_value [OF r, of k] g by (cases u) auto
  with g get_none [OF r, of k m] show ?thesis by simp
qed

lemma set_other:
  assumes "ready s" "set (Some s) (Some k) (Some v) n = Inr (0, s')" "k \<noteq> k'"
  shows "abs s' k' = abs s k'"
  using set_ok [OF assms(1,2)] assms(3) by simp

end

sublocale rocksdb_store \<subseteq> store: kv_contract
  "kv_store_get rget" "kv_store_set rput" "kv_store_delete rdelete" "kv_content content" kv_ready
proof unfold_locales
  fix s :: "'db kv_store_t" and k
  assume s: "kv_ready s"
  then obtain d w r where d: "kv_db s = Some d" "kv_write_options s = Some w" "kv_read_options s = Some r"
    by (auto simp: kv_ready_def)
  show "\<exists>r. kv_store_get rget (Some s) (Some k) = Inr r"
    by (auto simp: kv_store_get_def d Let_def split: prod.splits option.splits)
  show "\<exists>rc s'. kv_store_delete rdelete (Some s) (Some k) = Inr (rc, s') \<and> kv_ready s'"
    using s by (auto simp: kv_store_delete_def d kv_ready_def split: prod.splits)
  show "kv_content content s' = (kv_content content s)(k := None)"
    if "kv_store_delete rdelete (Some s) (Some k) = Inr (0, s')" for s'
    using that delete_ok [of d w k]
    by (auto simp: kv_store_delete_def d kv_content_def split: prod.splits if_splits)
  show "kv_content content s k = Some v \<and> n = int (length v)"
    if "kv_store_get rget (Some s) (Some k) = Inr (Some v, n)" for v n
    using that get_ok [of d r k]
    by (auto simp: kv_store_get_def d kv_content_def split: prod.splits option.splits if_splits)
  show "n = -1" if "kv_store_get rget (Some s) (Some k) = Inr (None, n)" for n
    using that by (auto simp: kv_store_get_def d split: prod.splits option.splits if_splits)
  fix v n
  show "\<exists>rc s'. kv_store_set rput (Some s) (Some k) (Some v) n = Inr (rc, s') \<and> kv_ready s'"
    if "n \<le> length v"
    using s that by (auto simp: kv_store_set_def rd_bytes_def d kv_ready_def split: prod.splits)
  show "kv_content content s' = (kv_content content s)(k \<mapsto> take n v)"
    if "kv_store_set rput (Some s) (Some k) (Some v) n = Inr (0, s')" for s'
    using that put_ok [of d w k "take n v"]
    by (auto simp: kv_store_set_def rd_bytes_def d kv_content_def split: prod.splits if_splits)
qed

section \<open>An executable database with the RocksDB contract\<close>

type_synonym map_db = "bytes \<Rightarrow> bytes option"

definition map_get :: "map_db rget" where "map_get d r k = (d k, r = None)"
definition map_put :: "map_db rput" where
  "map_put d w k v = (case w of None \<Rightarrow> (True, d) | Some _ \<Rightarrow> (False, d(k \<mapsto> v)))"
definition map_delete :: "map_db rdelete" where
  "map_delete d w k = (case w of None \<Rightarrow> (True, d) | Some _ \<Rightarrow> (False, d(k := None)))"

interpretation map_store: rocksdb_store map_get map_put map_delete "\<lambda>d. d"
  by unfold_locales (simp_all add: map_get_def map_put_def map_delete_def)

definition empty_store :: "map_db kv_store_t" where
  "empty_store = fst (kv_store_init (Some 1) (Some Map.empty) (Some 2) (Some 3) None)"

lemma empty_store_ready [simp]: "kv_ready empty_store"
  by (simp add: empty_store_def kv_store_init_def kv_ready_def Let_def)

context rocksdb_store
begin

lemmas store_set_then_get = store.set_then_get
lemmas store_delete_then_get = store.delete_then_get
lemmas store_set_other = store.set_other

end

section \<open>Reading back what was written\<close>

text \<open>On a store that \<open>kv_store_init\<close> returned successfully, a value read after a write
  of the same key that returned 0 is the value written, of the written length, and every other
  key still maps to what it did.\<close>

theorem kv_store_set_get:
  assumes "rocksdb_store rget rput rdelete content" "kv_ready s" "n \<le> length v"
    and "kv_store_set rput (Some s) (Some k) (Some v) n = Inr (0, s')"
  shows "(\<forall>u m. kv_store_get rget (Some s') (Some k) = Inr (Some u, m) \<longrightarrow> u = take n v \<and> m = int n)
    \<and> (\<forall>k'. k' \<noteq> k \<longrightarrow> kv_content content s' k' = kv_content content s k')"
proof (intro conjI allI impI)
  fix u m assume "kv_store_get rget (Some s') (Some k) = Inr (Some u, m)"
  then show "u = take n v" "m = int n"
    using rocksdb_store.store_set_then_get [OF assms] by simp_all
next
  fix k' assume "k' \<noteq> k"
  then show "kv_content content s' k' = kv_content content s k'"
    using rocksdb_store.store_set_other [OF assms(1,2,4), of k'] by simp
qed

theorem kv_store_set_get_witness:
  "\<exists>s'. kv_store_set map_put (Some empty_store) (Some [107]) (Some [1, 2]) 2 = Inr (0, s')
    \<and> (\<forall>u m. kv_store_get map_get (Some s') (Some [107]) = Inr (Some u, m) \<longrightarrow> u = [1, 2] \<and> m = 2)"
proof -
  obtain s' where s: "kv_store_set map_put (Some empty_store) (Some [107]) (Some [1, 2]) 2 = Inr (0, s')"
    by (simp add: kv_store_set_def empty_store_def kv_store_init_def map_put_def rd_bytes_def Let_def)
  with kv_store_set_get [OF map_store.rocksdb_store_axioms _ _ s] show ?thesis by auto
qed

text \<open>After a delete that returned 0 on such a store, a read of the key reports its absence
  (a null pointer and the length -1).\<close>

theorem kv_store_delete_get:
  assumes "rocksdb_store rget rput rdelete content" "kv_ready s"
    and "kv_store_delete rdelete (Some s) (Some k) = Inr (0, s')"
  shows "kv_store_get rget (Some s') (Some k) = Inr (None, -1)"
  using rocksdb_store.store_delete_then_get [OF assms] .

theorem kv_store_delete_get_witness:
  "\<exists>s'. kv_store_delete map_delete (Some empty_store) (Some [107]) = Inr (0, s')
    \<and> kv_store_get map_get (Some s') (Some [107]) = Inr (None, -1)"
proof -
  obtain s' where s: "kv_store_delete map_delete (Some empty_store) (Some [107]) = Inr (0, s')"
    by (simp add: kv_store_delete_def empty_store_def kv_store_init_def map_delete_def Let_def)
  with kv_store_delete_get [OF map_store.rocksdb_store_axioms _ s] show ?thesis by auto
qed

end
