(* ===== verification/Heap.thy ===== *)
theory Heap
  imports Prelude
begin

text \<open>
  The allocator as the program sees it. A block is identified by a number and is never reused,
  so that a use after \<open>free\<close> and a second \<open>free\<close> are visible; a pointer into a block is
  the block and an offset. Every block starts at an address aligned to 16 bytes, which is all
  the code asserts about addresses. Whether the next calls of \<open>malloc\<close> and
  \<open>realloc\<close> succeed is a list of answers carried by the state; when it is exhausted they
  succeed.
\<close>

record heap =
  h_blocks :: "bytes option list"
  h_answers :: "bool list"

definition malloc_base :: u64 where
  "malloc_base = 4096"

lemma malloc_base_aligned [simp]: "unat malloc_base mod 8 = 0"
  by (simp add: malloc_base_def)

text \<open>An allocation of a structure or an array that the model keeps as a value: only the
  answer is consumed.\<close>

definition h_alloc :: "heap \<Rightarrow> bool \<times> heap" where
  "h_alloc h = (case h_answers h of [] \<Rightarrow> (True, h) | b # bs \<Rightarrow> (b, h\<lparr>h_answers := bs\<rparr>))"

text \<open>An allocation of a data block, with the content written right after it.\<close>

definition h_malloc :: "bytes \<Rightarrow> heap \<Rightarrow> nat option \<times> heap" where
  "h_malloc content h =
     (let (ok, h') = h_alloc h
      in if ok then (Some (length (h_blocks h)), h'\<lparr>h_blocks := h_blocks h @ [Some content]\<rparr>)
         else (None, h'))"

definition h_load :: "heap \<Rightarrow> nat option \<Rightarrow> bytes res" where
  "h_load h p =
     (case p of
        None \<Rightarrow> Inl Null_deref
      | Some a \<Rightarrow>
          if a < length (h_blocks h)
          then (case h_blocks h ! a of None \<Rightarrow> Inl Use_after_free | Some bs \<Rightarrow> Inr bs)
          else Inl Out_of_bounds)"

definition h_free :: "nat option \<Rightarrow> heap \<Rightarrow> heap res" where
  "h_free p h =
     (case p of
        None \<Rightarrow> Inr h
      | Some a \<Rightarrow>
          if a < length (h_blocks h)
          then (case h_blocks h ! a of
                  None \<Rightarrow> Inl Double_free
                | Some _ \<Rightarrow> Inr (h\<lparr>h_blocks := (h_blocks h)[a := None]\<rparr>))
          else Inl Out_of_bounds)"

lemma h_alloc_blocks [simp]: "h_blocks (snd (h_alloc h)) = h_blocks h"
  by (simp add: h_alloc_def split: list.splits)

lemma h_malloc_cases:
  obtains (ok) h' where "h_malloc content h = (Some (length (h_blocks h)), h')"
      "h_blocks h' = h_blocks h @ [Some content]"
  | (fail) h' where "h_malloc content h = (None, h')" "h_blocks h' = h_blocks h"
proof (cases "h_alloc h")
  case (Pair b h')
  then have "h_blocks h' = h_blocks h" using h_alloc_blocks [of h] by simp
  with Pair show thesis
    by (cases b) (auto simp: h_malloc_def intro: ok fail)
qed

lemma h_malloc_load:
  "h_malloc content h = (Some a, h') \<Longrightarrow> h_load h' (Some a) = Inr content"
  by (rule h_malloc_cases [of content h]) (auto simp: h_load_def)

lemma h_load_mono:
  assumes "h_malloc content h = (p, h')" "h_load h q = Inr bs"
  shows "h_load h' q = Inr bs"
  using assms by (cases rule: h_malloc_cases [of content h])
    (auto simp: h_load_def nth_append split: option.splits if_splits)

lemma h_free_load:
  assumes "h_free (Some a) h = Inr h'"
  shows "h_load h' (Some a) = Inl Use_after_free"
    and "h_free (Some a) h' = Inl Double_free"
    and "p \<noteq> Some a \<Longrightarrow> h_load h' p = h_load h p"
proof -
  from assms obtain bs where b: "a < length (h_blocks h)" "h_blocks h ! a = Some bs"
      "h' = h\<lparr>h_blocks := (h_blocks h)[a := None]\<rparr>"
    by (auto simp: h_free_def split: if_splits option.splits)
  then show "h_load h' (Some a) = Inl Use_after_free" "h_free (Some a) h' = Inl Double_free"
    by (simp_all add: h_load_def h_free_def)
  show "h_load h' p = h_load h p" if "p \<noteq> Some a"
    using that b by (cases p) (simp_all add: h_load_def)
qed

lemma h_free_loaded: "h_load h (Some a) = Inr bs \<Longrightarrow> \<exists>h'. h_free (Some a) h = Inr h'"
  by (auto simp: h_free_def h_load_def split: if_splits option.splits)

end
