(* ===== verification/Kv_State_Machine.thy ===== *)
theory Kv_State_Machine
  imports Kv_Store Heap
begin

text \<open>
  \<open>src/kv_state_machine.c\<close>: the state machine the Raft log is applied to. A command is a
  pointer into a data block: the address of the block, its bytes and an offset. The lemmas
  give the effect of \<open>kv_state_machine_apply\<close> on an encoded command for every operation
  code; they show that a set is acknowledged and not stored, and that an entry made by
  \<open>raft_create_entry_from_command\<close> is too short to be applied.
\<close>

section \<open>Log entries\<close>

datatype raft_entry_type_t = RAFT_ENTRY_NOOP | RAFT_ENTRY_COMMAND

record raft_entry_t =
  e_term :: u64
  e_index :: u64
  e_type :: raft_entry_type_t
  e_data :: "nat option"
  e_data_len :: nat

section \<open>Applying a command\<close>

text \<open>A command pointer: base address, bytes of the block, offset.\<close>

type_synonym cmd_ptr = "u64 \<times> bytes \<times> nat"

text \<open>The value the code computes from the key and the value of a set and then drops.\<close>

definition cmd_hash :: "bytes \<Rightarrow> bytes \<Rightarrow> u64" where
  "cmd_hash key value = foldl (\<lambda>h b. h * 31 + ucast b) 0 (key @ value)"

text \<open>The result carries the return code, \<open>*result\<close> with \<open>*result_size\<close>, and the
  store; \<open>result\<close> and \<open>result_size\<close> are addresses of variables at every call.\<close>

definition kv_state_machine_apply ::
  "'db rget \<Rightarrow> 'db rdelete \<Rightarrow> 'db kv_store_t option \<Rightarrow> cmd_ptr option
    \<Rightarrow> (int \<times> (bytes option \<times> int) \<times> 'db kv_store_t option) res" where
  "kv_state_machine_apply rget rdelete ctx cmd =
     (case (ctx, cmd) of
        (Some kv_store, Some (base, bs, off)) \<Rightarrow>
          bindr (kvs_type bs off) (\<lambda>t. case t of
              CMD_SET \<Rightarrow>
                bindr (kvs_command_get_key base bs off) (\<lambda>key.
                bindr (kvs_command_get_value base bs off) (\<lambda>value.
                bindr (kvs_key_length bs off) (\<lambda>klen.
                bindr (kvs_value_length bs off) (\<lambda>vlen.
                bindr (rd_bytes bs key (unat klen)) (\<lambda>k.
                bindr (rd_bytes bs value (unat vlen)) (\<lambda>v.
                  let cmd_byte_offset = cmd_hash k v
                  in Inr (0, (None, 0), Some kv_store)))))))
            | CMD_DELETE \<Rightarrow>
                bindr (kvs_command_get_key base bs off) (\<lambda>key.
                bindr (c_str bs key) (\<lambda>k.
                bindr (kv_store_delete rdelete (Some kv_store) (Some k)) (\<lambda>(rc, kv').
                  Inr (rc, (None, 0), Some kv'))))
            | CMD_GET \<Rightarrow>
                bindr (kvs_command_get_key base bs off) (\<lambda>key.
                bindr (c_str bs key) (\<lambda>k.
                bindr (kv_store_get rget (Some kv_store) (Some k)) (\<lambda>(value, value_len).
                  if 0 \<le> value_len \<and> value \<noteq> None
                  then Inr (0, (value, value_len), Some kv_store)
                  else Inr (-1, (None, 0), Some kv_store))))
            | _ \<Rightarrow> Inr (-2, (None, 0), Some kv_store))
      | _ \<Rightarrow> Inr (-1, (None, 0), ctx))"

text \<open>\<open>raft_create_entry_from_command\<close>: the entry structure is a value, its data a block
  of the heap.\<close>

definition raft_create_entry_from_command ::
  "u64 \<Rightarrow> cmd_ptr option \<Rightarrow> heap \<Rightarrow> (raft_entry_t option \<times> heap) res" where
  "raft_create_entry_from_command term cmd h =
     (case cmd of
        None \<Rightarrow> Inr (None, h)
      | Some (base, bs, off) \<Rightarrow>
          bindr (kvs_key_length bs off) (\<lambda>klen.
          bindr (kvs_value_length bs off) (\<lambda>vlen.
            let cmd_size = sizeof_kvs_command_t + unat klen + unat vlen;
                (ok, h1) = h_alloc h
            in if \<not> ok then Inr (None, h1)
               else let (data, h2) = h_malloc (take cmd_size (drop off bs)) h1
               in case data of
                    None \<Rightarrow> Inr (None, h2)
                  | Some a \<Rightarrow>
                      bindr (rd_bytes bs off cmd_size) (\<lambda>_.
                        Inr (Some \<lparr>e_term = term, e_index = 0, e_type = RAFT_ENTRY_COMMAND,
                                   e_data = Some a, e_data_len = cmd_size\<rparr>, h2)))))"

text \<open>\<open>kv_state_machine_create\<close> and \<open>kv_state_machine_destroy\<close>: the structure holds the
  store as its context and \<open>kv_state_machine_apply\<close> as its operation.\<close>

definition kv_state_machine_create :: "'db kv_store_t option \<Rightarrow> heap \<Rightarrow> 'db kv_store_t option \<times> heap" where
  "kv_state_machine_create kv_store h =
     (case kv_store of
        None \<Rightarrow> (None, h)
      | Some kv \<Rightarrow> (let (ok, h') = h_alloc h in (if ok then Some kv else None, h')))"

section \<open>The effect of a command\<close>

lemma kvs_at_key_read:
  assumes "kvs_at base bs off c"
  obtains p where "kvs_command_get_key base bs off = Inr p" "c_str bs p = Inr (kc_key c)"
    "rd_bytes bs p (length (kc_key c)) = Inr (kc_key c)"
proof -
  from kvs_at_key [OF assms] obtain p where p: "kvs_command_get_key base bs off = Inr p" "c_str bs p = Inr (kc_key c)"
    by (auto simp: bindr_eq_Inr)
  have "takeWhile (\<lambda>b. b \<noteq> 0) (drop p bs) = kc_key c"
    using p(2) by (auto simp: c_str_def split: if_splits)
  then have "take (length (kc_key c)) (drop p bs) = kc_key c"
    by (metis takeWhile_eq_take)
  moreover then have "length (kc_key c) \<le> length (drop p bs)"
    by (metis length_take min.cobounded1)
  moreover have "p \<le> length bs"
    using p(2) by (cases "p \<le> length bs") (auto simp: c_str_def split: if_splits)
  ultimately have "rd_bytes bs p (length (kc_key c)) = Inr (kc_key c)"
    by (simp add: rd_bytes_def le_diff_conv2)
  with p that show thesis by blast
qed

lemma kvs_at_value_read:
  assumes "kvs_at base bs off c"
  obtains p where "kvs_command_get_value base bs off = Inr p"
    "rd_bytes bs p (length (kc_value c)) = Inr (kc_value c)"
  using kvs_at_value [OF assms] by (auto simp: bindr_eq_Inr)

lemma apply_set:
  assumes "kvs_at base bs off c" "kc_op c = CMD_SET"
  shows "kv_state_machine_apply rget rdelete (Some s) (Some (base, bs, off)) = Inr (0, (None, 0), Some s)"
proof -
  obtain p where p: "kvs_command_get_key base bs off = Inr p"
    "rd_bytes bs p (length (kc_key c)) = Inr (kc_key c)"
    using kvs_at_key_read [OF assms(1)] by metis
  obtain q where q: "kvs_command_get_value base bs off = Inr q"
    "rd_bytes bs q (length (kc_value c)) = Inr (kc_value c)"
    using kvs_at_value_read [OF assms(1)] by metis
  have "kvs_wf c" using assms(1) by (simp add: kvs_at_def)
  then have "unat (of_nat (length (kc_key c)) :: u32) = length (kc_key c)"
    "unat (of_nat (length (kc_value c)) :: u32) = length (kc_value c)"
    by (simp_all only: unat_of_nat_u32 kvs_wf_def)
  with p q kvs_at_fields [OF assms(1)] assms(2) show ?thesis
    by (simp add: kv_state_machine_apply_def Let_def)
qed

lemma apply_delete:
  assumes "kvs_at base bs off c" "kc_op c = CMD_DELETE"
  shows "kv_state_machine_apply rget rdelete (Some s) (Some (base, bs, off))
    = bindr (kv_store_delete rdelete (Some s) (Some (kc_key c))) (\<lambda>(rc, s'). Inr (rc, (None, 0), Some s'))"
  using assms(2) kvs_at_fields [OF assms(1)]
  by (rule_tac kvs_at_key_read [OF assms(1)]) (simp add: kv_state_machine_apply_def)

lemma apply_get:
  assumes "kvs_at base bs off c" "kc_op c = CMD_GET"
  shows "kv_state_machine_apply rget rdelete (Some s) (Some (base, bs, off))
    = bindr (kv_store_get rget (Some s) (Some (kc_key c))) (\<lambda>(v, n).
        if 0 \<le> n \<and> v \<noteq> None then Inr (0, (v, n), Some s) else Inr (-1, (None, 0), Some s))"
  using assms(2) kvs_at_fields [OF assms(1)]
  by (rule_tac kvs_at_key_read [OF assms(1)]) (simp add: kv_state_machine_apply_def)

lemma apply_nop:
  assumes "kvs_at base bs off c" "kc_op c = CMD_NOP"
  shows "kv_state_machine_apply rget rdelete (Some s) (Some (base, bs, off)) = Inr (-2, (None, 0), Some s)"
  using assms(2) kvs_at_fields [OF assms(1)] by (simp add: kv_state_machine_apply_def)

text \<open>What the store has to do for the state machine, over the abstract map.\<close>

definition apply_effect ::
  "(bytes \<rightharpoonup> bytes) \<Rightarrow> kvs_cmd \<Rightarrow> int \<Rightarrow> bytes option \<Rightarrow> (bytes \<rightharpoonup> bytes) \<Rightarrow> bool" where
  "apply_effect m c rc v m' \<longleftrightarrow>
     (case kc_op c of
        CMD_SET \<Rightarrow> rc = 0 \<and> v = None \<and> m' = m
      | CMD_DELETE \<Rightarrow> v = None \<and> (rc = 0 \<longrightarrow> m' = m(kc_key c := None)) \<and> rc \<in> {0, -1}
      | CMD_GET \<Rightarrow> m' = m \<and> (rc = 0 \<longrightarrow> v \<noteq> None \<and> v = m (kc_key c)) \<and> (rc \<noteq> 0 \<longrightarrow> rc = -1 \<and> v = None)
      | _ \<Rightarrow> rc = -2 \<and> v = None \<and> m' = m)"

context rocksdb_store
begin

lemma apply_total:
  assumes s: "kv_ready s" and at: "kvs_at base bs off c"
  shows "\<exists>rc v n s'. kv_state_machine_apply rget rdelete (Some s) (Some (base, bs, off)) = Inr (rc, (v, n), Some s')
    \<and> kv_ready s' \<and> apply_effect (kv_content content s) c rc v (kv_content content s')"
proof -
  have "kc_op c \<in> {CMD_NOP, CMD_GET, CMD_SET, CMD_DELETE}"
    using at by (simp add: kvs_at_def kvs_wf_def)
  then consider "kc_op c = CMD_NOP" | "kc_op c = CMD_GET" | "kc_op c = CMD_SET" | "kc_op c = CMD_DELETE"
    by auto
  then show ?thesis
  proof cases
    case 1
    with apply_nop [OF at 1, of rget rdelete s] s show ?thesis by (simp add: apply_effect_def)
  next
    case 2
    obtain v n where g: "kv_store_get rget (Some s) (Some (kc_key c)) = Inr (v, n)"
      using store.get_total [OF s, of "kc_key c"] by auto
    show ?thesis
      using apply_get [OF at 2, of rget rdelete s] s g 2 store.get_value [OF s] store.get_none [OF s, of "kc_key c" n]
      by (cases v) (auto simp: apply_effect_def)
  next
    case 3
    with apply_set [OF at 3, of rget rdelete s] s show ?thesis by (simp add: apply_effect_def)
  next
    case 4
    obtain rc s' where d: "kv_store_delete rdelete (Some s) (Some (kc_key c)) = Inr (rc, s')" "kv_ready s'"
      using store.delete_total [OF s, of "kc_key c"] by auto
    have "rc \<in> {0, -1}"
      using d(1) by (auto simp: kv_store_delete_def split: option.splits prod.splits)
    then show ?thesis
      using apply_delete [OF at 4, of rget rdelete s] d 4 store.delete_ok [OF s, of "kc_key c" s']
      by (auto simp: apply_effect_def)
  qed
qed

end

text \<open>C31: On a ready store, \<open>kv_state_machine_apply\<close> returns for every encoded command, with
  the effect of its operation: a delete that returns 0 removes the key, a get that returns 0
  returns the value stored (and -1 otherwise), an unknown operation is refused with -2, and a
  set returns 0 without storing anything, since the call of \<open>kv_store_set\<close> is commented
  out.\<close>

theorem kv_state_machine_apply_effect:
  assumes "rocksdb_store rget rput rdelete content" "kv_ready s" "kvs_at base bs off c"
  shows "\<exists>rc v n s'. kv_state_machine_apply rget rdelete (Some s) (Some (base, bs, off)) = Inr (rc, (v, n), Some s')
    \<and> kv_ready s' \<and> apply_effect (kv_content content s) c rc v (kv_content content s')"
  using rocksdb_store.apply_total [OF assms] .

definition sample_set :: kvs_cmd where
  "sample_set = \<lparr>kc_op = CMD_SET, kc_key = [107], kc_value = [1, 2, 3, 4], kc_addr = replicate 16 0\<rparr>"

lemma sample_set_wf [simp]: "kvs_wf sample_set"
  by (simp add: sample_set_def kvs_wf_def)

lemma sample_set_length: "length (kvs_encode sample_set) = 40"
  using length_kvs_body [OF sample_set_wf]
  by (simp add: length_kvs_encode sample_set_def roundup_def)

theorem kv_state_machine_apply_effect_witness:
  "\<exists>v n s'. kv_state_machine_apply map_get map_delete (Some empty_store)
      (Some (malloc_base, kvs_encode sample_set, 0)) = Inr (0, (v, n), Some s') \<and> kv_ready s'
    \<and> kv_content (\<lambda>d. d) s' [107] = None"
proof -
  have at: "kvs_at malloc_base (kvs_encode sample_set) 0 sample_set"
    by (simp add: kvs_at_def sample_set_length malloc_base_def)
  have "kc_op sample_set = CMD_SET" by (simp add: sample_set_def)
  with kv_state_machine_apply_effect [OF map_store.rocksdb_store_axioms empty_store_ready at] show ?thesis
    by (auto simp: apply_effect_def kv_content_def empty_store_def kv_store_init_def Let_def)
qed

section \<open>Entries made from a command\<close>

text \<open>The data of such an entry: the first \<open>28 + key_length + value_length\<close> bytes of the
  command. The padding of the value and the null byte of the key are not counted.\<close>

lemma entry_from_command_data:
  assumes at: "kvs_at base bs off c"
    and "raft_create_entry_from_command term (Some (base, bs, off)) h = Inr (Some e, h')"
  shows "h_load h' (e_data e) = Inr (take (28 + length (kc_key c) + length (kc_value c)) (kvs_encode c))
    \<and> e_data_len e = 28 + length (kc_key c) + length (kc_value c) \<and> e_term e = term"
proof -
  from at obtain pre post where bs: "bs = pre @ kvs_encode c @ post" "off = length pre" and wf: "kvs_wf c"
    by (rule kvs_atE)
  let ?n = "28 + length (kc_key c) + length (kc_value c)"
  have n: "unat (of_nat (length (kc_key c)) :: u32) = length (kc_key c)"
    "unat (of_nat (length (kc_value c)) :: u32) = length (kc_value c)"
    using wf by (simp_all only: unat_of_nat_u32 kvs_wf_def)
  have "?n \<le> length (kvs_encode c)"
    using length_kvs_body [OF wf] roundup_ge [of 4 "length (kc_value c)"] roundup_ge [of 8 "length (kvs_body c)"]
    by (simp add: length_kvs_encode)
  then have "take ?n (drop off bs) = take ?n (kvs_encode c)" by (simp add: bs)
  with assms(2) kvs_at_fields [OF at] n show ?thesis
    by (auto simp: raft_create_entry_from_command_def sizeof_kvs_command_t_def Let_def
        split: prod.splits if_splits option.splits dest: h_malloc_load)
qed

lemma truncated_no_nul:
  assumes wf: "kvs_wf c" and p: "p = 28 + roundup 4 (length (kc_value c))"
  shows "0 \<notin> set (drop p (take (28 + length (kc_key c) + length (kc_value c)) (kvs_encode c)))"
proof -
  let ?v = "length (kc_value c)" and ?k = "length (kc_key c)"
  let ?hdr = "le_enc 4 (of_nat ?k :: u32) @ le_enc 4 (of_nat ?v :: u32)
     @ kc_addr c @ le_enc 4 (kvs_op_code (kc_op c)) @ kc_value c @ kvs_pad 4 ?v"
  have L: "length ?hdr = p"
    using wf length_kvs_pad [of 4 ?v] by (simp add: p kvs_wf_def)
  obtain rest where e: "kvs_encode c = ?hdr @ kc_key c @ rest"
    by (simp add: kvs_encode_def kvs_body_def)
  have "drop p (take (28 + ?k + ?v) (kvs_encode c)) = take (28 + ?k + ?v - p) (drop p (kvs_encode c))"
    by (simp add: drop_take)
  also have "drop p (kvs_encode c) = kc_key c @ rest"
    unfolding e using L by (metis append_eq_conv_conj)
  also have "28 + ?k + ?v - p \<le> ?k"
    using roundup_ge [of 4 ?v] by (simp add: p)
  then have "take (28 + ?k + ?v - p) (kc_key c @ rest) = take (28 + ?k + ?v - p) (kc_key c)"
    by simp
  finally show ?thesis
    using wf by (auto simp: kvs_wf_def dest: in_set_takeD)
qed

lemma truncated_reads:
  assumes wf: "kvs_wf c" and fits: "length (kvs_encode c) < 2 ^ 63"
  defines "bs \<equiv> take (28 + length (kc_key c) + length (kc_value c)) (kvs_encode c)"
  shows "kvs_type bs 0 = Inr (kc_op c)"
    and "kvs_command_get_key malloc_base bs 0 = Inr (28 + roundup 4 (length (kc_value c)))"
proof -
  have at: "kvs_at malloc_base (kvs_encode c) 0 c"
    using wf fits by (simp add: kvs_at_def malloc_base_def)
  have "length (kvs_encode c) \<ge> 28 + length (kc_key c) + length (kc_value c)"
    using length_kvs_body [OF wf] roundup_ge [of 4 "length (kc_value c)"] roundup_ge [of 8 "length (kvs_body c)"]
    by (simp add: length_kvs_encode)
  then have L: "28 \<le> length bs" and pre: "kvs_encode c = bs @ drop (length bs) (kvs_encode c)"
    by (simp_all add: bs_def)
  have same: "(rd n bs i :: u32 res) = rd n (kvs_encode c) i" if "i + n \<le> 28" for n i
    using L that by (subst pre) (simp add: rd_append)
  show "kvs_type bs 0 = Inr (kc_op c)"
    using kvs_at_fields(4) [OF at] same [of 24 4] by (simp add: kvs_type_def)
  show "kvs_command_get_key malloc_base bs 0 = Inr (28 + roundup 4 (length (kc_value c)))"
    using kvs_at_get_key [OF at] same [of 4 4]
    by (simp add: kvs_command_get_key_def kvs_value_length_def)
qed

text \<open>An entry that \<open>raft_create_entry_from_command\<close> makes from a get or a delete
  cannot be applied: its data block is cut before the null byte of the key, and
  \<open>kv_state_machine_apply\<close> reads past its end.\<close>

theorem entry_from_command_overread:
  assumes "kvs_at base bs off c" "kc_op c \<in> {CMD_GET, CMD_DELETE}" "length (kvs_encode c) < 2 ^ 63"
    and "raft_create_entry_from_command term (Some (base, bs, off)) h = Inr (Some e, h')"
  shows "bindr (h_load h' (e_data e)) (\<lambda>data.
      kv_state_machine_apply rget rdelete (Some s) (Some (malloc_base, data, 0))) = Inl Out_of_bounds"
proof -
  have wf: "kvs_wf c" using assms(1) by (simp add: kvs_at_def)
  note r = truncated_reads [OF wf assms(3)] truncated_no_nul [OF wf refl]
  show ?thesis
    using entry_from_command_data [OF assms(1,4)] assms(2) r
    by (auto simp: kv_state_machine_apply_def c_str_def)
qed

theorem entry_from_command_overread_witness:
  "\<exists>e h'. raft_create_entry_from_command 1
        (Some (malloc_base, kvs_encode (sample_set\<lparr>kc_op := CMD_GET\<rparr>), 0)) \<lparr>h_blocks = [], h_answers = []\<rparr>
      = Inr (Some e, h')
    \<and> bindr (h_load h' (e_data e)) (\<lambda>data.
      kv_state_machine_apply map_get map_delete (Some empty_store) (Some (malloc_base, data, 0))) = Inl Out_of_bounds"
proof -
  let ?c = "sample_set\<lparr>kc_op := CMD_GET\<rparr>"
  have wf: "kvs_wf ?c" by (simp add: sample_set_def kvs_wf_def)
  have len: "length (kvs_encode ?c) = 40"
    using length_kvs_body [OF wf] by (simp add: length_kvs_encode sample_set_def roundup_def)
  have at: "kvs_at malloc_base (kvs_encode ?c) 0 ?c"
    using wf by (simp add: kvs_at_def len malloc_base_def)
  obtain e h' where e: "raft_create_entry_from_command 1 (Some (malloc_base, kvs_encode ?c, 0))
      \<lparr>h_blocks = [], h_answers = []\<rparr> = Inr (Some e, h')"
    using kvs_at_fields [OF at] len
    by (simp add: raft_create_entry_from_command_def h_malloc_def h_alloc_def rd_bytes_def
        sizeof_kvs_command_t_def sample_set_def)
  have "kc_op ?c \<in> {CMD_GET, CMD_DELETE}" "length (kvs_encode ?c) < 2 ^ 63"
    using len by simp_all
  from entry_from_command_overread [OF at this e, of map_get map_delete empty_store] e show ?thesis by blast
qed

end
