(* ===== verification/Raft_State.thy ===== *)
theory Raft_State
  imports Adaptive_Timeout Command_Batcher Kv_State_Machine
begin

text \<open>
  The state of a Raft node (\<open>include/raft_core.h\<close>), its log, the wrappers of
  \<open>src/raft_core_adaptive.c\<close>, and of \<open>src/raft_core.c\<close> the operations that create,
  destroy and change the state of a node: \<open>raft_init\<close>, \<open>raft_destroy\<close>, the
  transitions between follower, candidate and leader, the election timer, the log operations
  and the callback of the command batcher. \<open>pthread_mutex_lock\<close> on the mutex its holder
  already holds is \<open>Self_deadlock\<close>.
\<close>

section \<open>Node and log\<close>

definition MAX_NODES :: nat where "MAX_NODES = 5"
definition ELECTION_TIMEOUT_MIN :: int where "ELECTION_TIMEOUT_MIN = 150"
definition ELECTION_TIMEOUT_MAX :: int where "ELECTION_TIMEOUT_MAX = 300"
definition MILLISECONDS_PER_SECOND :: u32 where "MILLISECONDS_PER_SECOND = 1000"
definition INITIAL_LOG_CAPACITY :: nat where "INITIAL_LOG_CAPACITY = 1024"

datatype raft_state_t = RAFT_STATE_FOLLOWER | RAFT_STATE_CANDIDATE | RAFT_STATE_LEADER

text \<open>The used slots of the entry array, and its size.\<close>

record raft_log_t =
  log_entries :: "raft_entry_t list"
  log_capacity :: nat

definition log_count :: "raft_log_t \<Rightarrow> u64" where
  "log_count l = of_nat (length (log_entries l))"

record 'sm raft_node_t =
  rstate :: raft_state_t
  node_id :: u32
  current_term :: u64
  voted_for :: u32
  votes_received :: u32
  last_heartbeat :: int
  leader_id :: u32
  rlog :: raft_log_t
  commit_index :: u64
  last_applied :: u64
  next_index :: "u64 list"
  match_index :: "u64 list"
  state_machine :: "'sm option"
  applying_entries :: bool
  mutex_held :: bool
  batcher :: command_batcher
  adaptive :: "adaptive_timeout option"

definition lock_node :: "'sm raft_node_t \<Rightarrow> 'sm raft_node_t res" where
  "lock_node n = (if mutex_held n then Inl Self_deadlock else Inr (n\<lparr>mutex_held := True\<rparr>))"

definition unlock_node :: "'sm raft_node_t \<Rightarrow> 'sm raft_node_t" where
  "unlock_node n = n\<lparr>mutex_held := False\<rparr>"

text \<open>\<open>if (!node) return r\<close> at the start of a function.\<close>

definition nonnull :: "'r \<Rightarrow> 'n option \<Rightarrow> ('n \<Rightarrow> ('r \<times> 'n) res) \<Rightarrow> ('r \<times> 'n option) res" where
  "nonnull r node f =
     (case node of None \<Rightarrow> Inr (r, None) | Some n \<Rightarrow> bindr (f n) (\<lambda>(r', n'). Inr (r', Some n')))"

lemma nonnull_simps [simp, res_simps]:
  "nonnull r None f = Inr (r, None)"
  "nonnull r (Some n) f = bindr (f n) (\<lambda>(r', n'). Inr (r', Some n'))"
  by (simp_all add: nonnull_def)

lemma lock_free [simp, res_simps]: "\<not> mutex_held n \<Longrightarrow> lock_node n = Inr (n\<lparr>mutex_held := True\<rparr>)"
  by (simp add: lock_node_def)

lemma lock_held [simp, res_simps]: "mutex_held n \<Longrightarrow> lock_node n = Inl Self_deadlock"
  by (simp add: lock_node_def)

lemma lock_node_eq_Inr [simp]: "lock_node n = Inr n' \<longleftrightarrow> \<not> mutex_held n \<and> n' = n\<lparr>mutex_held := True\<rparr>"
  by (auto simp: lock_node_def)

section \<open>The adaptive timeout of a node\<close>

definition raft_adaptive_init ::
  "bool \<Rightarrow> adaptive_timeout \<Rightarrow> 'sm raft_node_t option \<Rightarrow> heap \<Rightarrow> int \<times> 'sm raft_node_t option \<times> heap" where
  "raft_adaptive_init mutex_ok junk node h =
     (case node of
        None \<Rightarrow> (-1, None, h)
      | Some n \<Rightarrow>
          let (ok, h') = h_alloc h
          in if \<not> ok then (-1, Some (n\<lparr>adaptive := None\<rparr>), h')
             else let (r, t) = adaptive_timeout_init mutex_ok (Some junk)
                  in (r, Some (n\<lparr>adaptive := t\<rparr>), h'))"

definition raft_adaptive_destroy :: "'sm raft_node_t option \<Rightarrow> 'sm raft_node_t option" where
  "raft_adaptive_destroy node =
     (case node of
        None \<Rightarrow> None
      | Some n \<Rightarrow> (case adaptive n of None \<Rightarrow> Some n | Some _ \<Rightarrow> Some (n\<lparr>adaptive := None\<rparr>)))"

definition raft_adaptive_rpc_start :: "timespec \<Rightarrow> 'sm raft_node_t \<Rightarrow> 'sm raft_node_t" where
  "raft_adaptive_rpc_start t n =
     (case adaptive n of None \<Rightarrow> n | Some a \<Rightarrow> n\<lparr>adaptive := Some (adaptive_timeout_rpc_start t a)\<rparr>)"

definition raft_adaptive_rpc_end ::
  "(real \<Rightarrow> real) \<Rightarrow> timespec \<Rightarrow> 'sm raft_node_t \<Rightarrow> 'sm raft_node_t res" where
  "raft_adaptive_rpc_end fl t n =
     (case adaptive n of
        None \<Rightarrow> Inr n
      | Some a \<Rightarrow> bindr (adaptive_timeout_rpc_end fl t a) (\<lambda>a'. Inr (n\<lparr>adaptive := Some a'\<rparr>)))"

definition raft_adaptive_record_heartbeat :: "'sm raft_node_t \<Rightarrow> 'sm raft_node_t" where
  "raft_adaptive_record_heartbeat n =
     (case adaptive n of None \<Rightarrow> n | Some a \<Rightarrow> n\<lparr>adaptive := Some (adaptive_timeout_record_heartbeat a)\<rparr>)"

definition raft_adaptive_record_vote :: "'sm raft_node_t \<Rightarrow> 'sm raft_node_t" where
  "raft_adaptive_record_vote n =
     (case adaptive n of None \<Rightarrow> n | Some a \<Rightarrow> n\<lparr>adaptive := Some (adaptive_timeout_record_vote a)\<rparr>)"

definition raft_adaptive_check_missed_heartbeat ::
  "(real \<Rightarrow> real) \<Rightarrow> 'sm raft_node_t \<Rightarrow> 'sm raft_node_t res" where
  "raft_adaptive_check_missed_heartbeat fl n =
     (case adaptive n of
        None \<Rightarrow> Inr n
      | Some a \<Rightarrow> bindr (adaptive_timeout_check_missed_heartbeat fl a) (\<lambda>a'. Inr (n\<lparr>adaptive := Some a'\<rparr>)))"

definition raft_adaptive_get_timeout :: "'sm raft_node_t \<Rightarrow> u32" where
  "raft_adaptive_get_timeout n =
     (case adaptive n of None \<Rightarrow> INITIAL_TIMEOUT_MS | Some a \<Rightarrow> adaptive_timeout_get_current (Some a))"

section \<open>Log operations\<close>

definition generate_timeout :: "int \<Rightarrow> int" where
  "generate_timeout random =
     ELECTION_TIMEOUT_MIN + random mod (ELECTION_TIMEOUT_MAX - ELECTION_TIMEOUT_MIN)"

definition log_init :: "heap \<Rightarrow> raft_log_t option \<times> heap" where
  "log_init h =
     (let (ok1, h1) = h_alloc h
      in if \<not> ok1 then (None, h1)
         else let (ok2, h2) = h_alloc h1
              in if \<not> ok2 then (None, h2)
                 else (Some \<lparr>log_entries = [], log_capacity = INITIAL_LOG_CAPACITY\<rparr>, h2))"

fun free_all :: "raft_entry_t list \<Rightarrow> heap \<Rightarrow> heap res" where
  "free_all [] h = Inr h"
| "free_all (e # es) h = bindr (h_free (e_data e) h) (free_all es)"

definition log_destroy :: "raft_log_t option \<Rightarrow> heap \<Rightarrow> heap res" where
  "log_destroy l h = (case l of None \<Rightarrow> Inr h | Some l' \<Rightarrow> free_all (log_entries l') h)"

definition raft_create_entry ::
  "u64 \<Rightarrow> raft_entry_type_t \<Rightarrow> bytes option \<Rightarrow> nat \<Rightarrow> heap \<Rightarrow> (raft_entry_t option \<times> heap) res" where
  "raft_create_entry term type data data_len h =
     (if data = None \<and> 0 < data_len then Inr (None, h)
      else
        let (ok, h1) = h_alloc h
        in if \<not> ok then Inr (None, h1)
           else
             let entry = \<lparr>e_term = term, e_index = 0, e_type = type, e_data = None, e_data_len = data_len\<rparr>
             in if 0 < data_len
                then bindr (case data of None \<Rightarrow> Inl Null_deref | Some d \<Rightarrow> rd_bytes d 0 data_len) (\<lambda>content.
                       let (p, h2) = h_malloc content h1
                       in case p of
                            None \<Rightarrow> Inr (None, h2)
                          | Some a \<Rightarrow> Inr (Some (entry\<lparr>e_data := Some a\<rparr>), h2))
                else Inr (Some entry, h1))"

definition raft_free_entry :: "raft_entry_t option \<Rightarrow> heap \<Rightarrow> heap res" where
  "raft_free_entry entry h = (case entry of None \<Rightarrow> Inr h | Some e \<Rightarrow> h_free (e_data e) h)"

text \<open>\<open>raft_append_entry\<close>: the entry structure is copied into the log, its data pointer
  with it.\<close>

definition raft_append_entry ::
  "'sm raft_node_t option \<Rightarrow> raft_entry_t option \<Rightarrow> heap
    \<Rightarrow> (int \<times> 'sm raft_node_t option \<times> raft_entry_t option \<times> heap) res" where
  "raft_append_entry node entry h =
     (case (node, entry) of
        (Some n0, Some e) \<Rightarrow>
          bindr (lock_node n0) (\<lambda>n.
            let l = rlog n;
                (grown, h') =
                  (if log_capacity l \<le> length (log_entries l)
                   then let (ok, h1) = h_alloc h
                        in (if ok then Some (l\<lparr>log_capacity := log_capacity l * 2\<rparr>) else None, h1)
                   else (Some l, h))
            in case grown of
                 None \<Rightarrow> Inr (-1, Some (unlock_node n), Some e, h')
               | Some l1 \<Rightarrow>
                   let e1 = e\<lparr>e_index := log_count l1 + 1\<rparr>
                   in if length (log_entries l1) < log_capacity l1
                      then Inr (0, Some (unlock_node (n\<lparr>rlog := l1\<lparr>log_entries := log_entries l1 @ [e1]\<rparr>\<rparr>)),
                                Some e1, h')
                      else Inl Out_of_bounds)
      | _ \<Rightarrow> Inr (-1, node, entry, h))"

definition advance_next :: "u32 \<Rightarrow> u64 \<Rightarrow> nat \<Rightarrow> u64 \<Rightarrow> u64" where
  "advance_next self count i next_idx =
     (if of_nat i = self then next_idx else if next_idx \<le> count then next_idx + 1 else next_idx)"

definition raft_replicate_logs :: "'sm raft_node_t option \<Rightarrow> (int \<times> 'sm raft_node_t option) res" where
  "raft_replicate_logs node =
     nonnull (-1) node (\<lambda>n0.
       if rstate n0 \<noteq> RAFT_STATE_LEADER then Inr (-1, n0)
       else bindr (lock_node n0) (\<lambda>n.
         Inr (0, unlock_node (n\<lparr>next_index :=
           map2 (advance_next (node_id n) (log_count (rlog n))) [0..<MAX_NODES] (next_index n)\<rparr>))))"

text \<open>\<open>process_raft_batch\<close>, the callback of the batcher. The entry structure is gone
  afterwards, and so is the block its copy in the log still points to.\<close>

definition process_raft_batch ::
  "command_batch \<Rightarrow> 'sm raft_node_t \<Rightarrow> heap \<Rightarrow> ('sm raft_node_t \<times> heap) res" where
  "process_raft_batch batch n h =
     bindr (raft_create_entry (current_term n) RAFT_ENTRY_COMMAND (Some (commands batch))
              (unat (total_length batch)) h) (\<lambda>(entry, h1).
     bindr (raft_append_entry (Some n) entry h1) (\<lambda>(_, n1, entry1, h2).
     bindr (if rstate (the n1) = RAFT_STATE_LEADER
            then bindr (raft_replicate_logs n1) (\<lambda>(_, n2). Inr n2) else Inr n1) (\<lambda>n2.
       case entry1 of
         None \<Rightarrow> Inl Null_deref
       | Some e \<Rightarrow> bindr (h_free (e_data e) h2) (\<lambda>h3. Inr (the n2, h3)))))"

text \<open>\<open>command_batcher_stop\<close> on the batcher of a node: the join waits for the callback the
  processor thread is in (\<open>in_callback\<close>, the copy it holds), then the rest of the batch goes
  through the callback.\<close>

definition stop_node_batcher ::
  "timespec \<Rightarrow> command_batch option \<Rightarrow> 'sm raft_node_t \<Rightarrow> heap \<Rightarrow> (int \<times> 'sm raft_node_t \<times> heap) res" where
  "stop_node_batcher t in_callback n h =
     (let (rc, rest, b) = command_batcher_stop t (Some (batcher n))
      in if rc \<noteq> 0 then Inr (rc, n, h)
         else
           bindr (case in_callback of None \<Rightarrow> Inr (n, h) | Some c \<Rightarrow> process_raft_batch c n h) (\<lambda>(n1, h1).
           let n2 = n1\<lparr>batcher := the b\<rparr>
           in bindr (case rest of None \<Rightarrow> Inr (n2, h1) | Some c \<Rightarrow> process_raft_batch c n2 h1) (\<lambda>(n3, h2).
              Inr (rc, n3, h2))))"

section \<open>Creation and destruction\<close>

definition zero_timespec :: timespec where
  "zero_timespec = \<lparr>tv_sec = 0, tv_nsec = 0\<rparr>"

definition zero_node :: "'sm raft_node_t" where
  "zero_node =
     \<lparr>rstate = RAFT_STATE_FOLLOWER, node_id = 0, current_term = 0, voted_for = 0, votes_received = 0,
      last_heartbeat = 0, leader_id = 0, rlog = \<lparr>log_entries = [], log_capacity = 0\<rparr>,
      commit_index = 0, last_applied = 0, next_index = replicate MAX_NODES 0, match_index = replicate MAX_NODES 0,
      state_machine = None, applying_entries = False, mutex_held = False, batcher = zero_batcher,
      adaptive = None\<rparr>"

text \<open>\<open>raft_init\<close>: \<open>ok_a\<close>, \<open>ok_m\<close>, \<open>ok_b\<close> are the results of the three mutex
  initialisations (adaptive timeout, node, batcher), \<open>now\<close> the wall clock, \<open>t\<close> the
  monotonic clock and \<open>junk\<close> what the block of the adaptive timeout holds.\<close>

definition raft_init ::
  "bool \<Rightarrow> bool \<Rightarrow> bool \<Rightarrow> int \<Rightarrow> timespec \<Rightarrow> adaptive_timeout \<Rightarrow> u32 \<Rightarrow> heap
    \<Rightarrow> 'sm raft_node_t option \<times> heap" where
  "raft_init ok_a ok_m ok_b now t junk self h =
     (let (ok, h1) = h_alloc h
      in if \<not> ok then (None, h1)
         else case log_init h1 of
           (None, h2) \<Rightarrow> (None, h2)
         | (Some l, h2) \<Rightarrow>
             let n1 = zero_node\<lparr>rlog := l, node_id := self, rstate := RAFT_STATE_FOLLOWER, current_term := 0,
                   voted_for := 0, votes_received := 0, leader_id := 0, commit_index := 0, last_applied := 0,
                   next_index := replicate MAX_NODES 1, match_index := replicate MAX_NODES 0\<rparr>
             in case raft_adaptive_init ok_a junk (Some n1) h2 of
                  (r, n2, h3) \<Rightarrow>
                    if r \<noteq> 0 then (None, h3)
                    else if \<not> ok_m then (None, h3)
                    else
                      let n3 = (the n2)\<lparr>last_heartbeat := now, state_machine := None, applying_entries := False\<rparr>;
                          (_, b) = command_batcher_init t ok_b (Some (batcher n3)) DEFAULT_BATCH_DELAY_MS True
                      in (Some (n3\<lparr>batcher := the b\<rparr>), h3))"

definition raft_stop_apply_thread :: "'sm raft_node_t option \<Rightarrow> (int \<times> 'sm raft_node_t option) res" where
  "raft_stop_apply_thread node =
     nonnull (-1) node (\<lambda>n0. bindr (lock_node n0) (\<lambda>n.
       if \<not> applying_entries n then Inr (0, unlock_node n)
       else Inr (0, unlock_node (n\<lparr>applying_entries := False\<rparr>))))"

text \<open>\<open>raft_destroy\<close>: what is left is the heap.\<close>

definition raft_destroy ::
  "timespec \<Rightarrow> command_batch option \<Rightarrow> 'sm raft_node_t option \<Rightarrow> heap \<Rightarrow> heap res" where
  "raft_destroy t in_callback node h =
     (case node of
        None \<Rightarrow> Inr h
      | Some n \<Rightarrow>
          bindr (if applying_entries n then bindr (raft_stop_apply_thread (Some n)) (\<lambda>(_, n'). Inr (the n'))
                 else Inr n) (\<lambda>n1.
          bindr (stop_node_batcher t in_callback n1 h) (\<lambda>(_, n2, h2).
            log_destroy (Some (rlog n2)) h2)))"

section \<open>State transitions\<close>

definition raft_become_follower ::
  "int \<Rightarrow> timespec \<Rightarrow> command_batch option \<Rightarrow> 'sm raft_node_t option \<Rightarrow> u64 \<Rightarrow> heap
    \<Rightarrow> ('sm raft_node_t option \<times> heap) res" where
  "raft_become_follower now t in_callback node term h =
     (case node of
        None \<Rightarrow> Inr (None, h)
      | Some n0 \<Rightarrow>
          bindr (lock_node n0) (\<lambda>n.
          bindr (if rstate n = RAFT_STATE_LEADER
                 then bindr (stop_node_batcher t in_callback n h) (\<lambda>(_, n', h'). Inr (n', h'))
                 else Inr (n, h)) (\<lambda>(n1, h1).
            let n2 = raft_adaptive_record_heartbeat
                  (n1\<lparr>rstate := RAFT_STATE_FOLLOWER, current_term := term, voted_for := 0,
                      votes_received := 0, leader_id := 0\<rparr>)
            in Inr (Some (unlock_node (n2\<lparr>last_heartbeat := now\<rparr>)), h1))))"

definition raft_become_candidate :: "int \<Rightarrow> 'sm raft_node_t option \<Rightarrow> (unit \<times> 'sm raft_node_t option) res" where
  "raft_become_candidate now node =
     nonnull () node (\<lambda>n0. bindr (lock_node n0) (\<lambda>n.
       let n1 = n\<lparr>rstate := RAFT_STATE_CANDIDATE, current_term := current_term n + 1,
                  voted_for := node_id n, votes_received := 1, leader_id := 0\<rparr>;
           n2 = raft_adaptive_record_vote n1
       in Inr ((), unlock_node (n2\<lparr>last_heartbeat := now\<rparr>))))"

definition raft_become_leader :: "bool \<Rightarrow> 'sm raft_node_t option \<Rightarrow> (unit \<times> 'sm raft_node_t option) res" where
  "raft_become_leader thread_ok node =
     nonnull () node (\<lambda>n0. bindr (lock_node n0) (\<lambda>n.
       let n1 = n\<lparr>rstate := RAFT_STATE_LEADER, leader_id := node_id n,
                  next_index := replicate MAX_NODES (log_count (rlog n) + 1),
                  match_index := replicate MAX_NODES 0\<rparr>;
           (_, b) = command_batcher_start thread_ok (Some (batcher n1))
       in Inr ((), unlock_node (n1\<lparr>batcher := the b\<rparr>))))"

section \<open>Election timer and votes\<close>

definition raft_check_election_timeout ::
  "(real \<Rightarrow> real) \<Rightarrow> int \<Rightarrow> 'sm raft_node_t option \<Rightarrow> (bool \<times> 'sm raft_node_t option) res" where
  "raft_check_election_timeout fl now node =
     nonnull False node (\<lambda>n0. bindr (lock_node n0) (\<lambda>n.
       if rstate n \<noteq> RAFT_STATE_LEADER
       then
         let elapsed = now - last_heartbeat n;
             timeout = raft_adaptive_get_timeout n
         in if int (unat (timeout div MILLISECONDS_PER_SECOND)) \<le> elapsed
            then bindr (raft_adaptive_check_missed_heartbeat fl n) (\<lambda>n1. Inr (True, unlock_node n1))
            else Inr (False, unlock_node n)
       else Inr (False, unlock_node n)))"

definition raft_reset_election_timer :: "int \<Rightarrow> 'sm raft_node_t option \<Rightarrow> (unit \<times> 'sm raft_node_t option) res" where
  "raft_reset_election_timer now node =
     nonnull () node (\<lambda>n. Inr ((), (raft_adaptive_record_heartbeat n)\<lparr>last_heartbeat := now\<rparr>))"

definition raft_record_vote :: "'sm raft_node_t option \<Rightarrow> (bool \<times> 'sm raft_node_t option) res" where
  "raft_record_vote node =
     nonnull False node (\<lambda>n0.
       if rstate n0 \<noteq> RAFT_STATE_CANDIDATE then Inr (False, n0)
       else bindr (lock_node n0) (\<lambda>n.
         let n1 = n\<lparr>votes_received := votes_received n + 1\<rparr>;
             has_majority = of_nat (MAX_NODES div 2) < votes_received n1
         in Inr (has_majority, unlock_node n1)))"

definition raft_start_election :: "int \<Rightarrow> 'sm raft_node_t option \<Rightarrow> (int \<times> 'sm raft_node_t option) res" where
  "raft_start_election now node =
     nonnull (-1) node (\<lambda>n0. bindr (lock_node n0) (\<lambda>n.
       Inr (0, unlock_node (n\<lparr>rstate := RAFT_STATE_CANDIDATE, current_term := current_term n + 1,
         voted_for := node_id n, votes_received := 1, last_heartbeat := now\<rparr>))))"

definition raft_check_heartbeat_status ::
  "(real \<Rightarrow> real) \<Rightarrow> int \<Rightarrow> 'sm raft_node_t option \<Rightarrow> (unit \<times> 'sm raft_node_t option) res" where
  "raft_check_heartbeat_status fl now node =
     nonnull () node (\<lambda>n.
       if rstate n \<noteq> RAFT_STATE_FOLLOWER then Inr ((), n)
       else
         let expected_interval = raft_adaptive_get_timeout n div 2;
             expected_seconds = int (unat (expected_interval div 1000 + 1))
         in if expected_seconds < now - last_heartbeat n
            then bindr (raft_adaptive_check_missed_heartbeat fl n) (\<lambda>n1. Inr ((), n1))
            else Inr ((), n))"

definition raft_start_apply_thread :: "bool \<Rightarrow> 'sm raft_node_t option \<Rightarrow> (int \<times> 'sm raft_node_t option) res" where
  "raft_start_apply_thread thread_ok node =
     nonnull (-1) node (\<lambda>n0. bindr (lock_node n0) (\<lambda>n.
       if applying_entries n then Inr (0, unlock_node n)
       else if \<not> thread_ok then Inr (-1, unlock_node (n\<lparr>applying_entries := False\<rparr>))
       else Inr (0, unlock_node (n\<lparr>applying_entries := True\<rparr>))))"

section \<open>The log\<close>

text \<open>The invariant of a log: the entries are numbered from 1, they fit into the array, and
  the array has room for one.\<close>

definition log_wf :: "raft_log_t \<Rightarrow> bool" where
  "log_wf l \<longleftrightarrow> length (log_entries l) \<le> log_capacity l \<and> 0 < log_capacity l
     \<and> (\<forall>i < length (log_entries l). e_index (log_entries l ! i) = of_nat (i + 1))"

lemma raft_append_entry_cases:
  assumes "log_wf (rlog n)" "\<not> mutex_held n"
  obtains (appended) l' h' where
      "raft_append_entry (Some n) (Some e) h
        = Inr (0, Some (n\<lparr>rlog := l'\<rparr>), Some (e\<lparr>e_index := log_count (rlog n) + 1\<rparr>), h')"
      "log_entries l' = log_entries (rlog n) @ [e\<lparr>e_index := log_count (rlog n) + 1\<rparr>]"
      "log_wf l'" "h_blocks h' = h_blocks h" "log_capacity (rlog n) \<le> log_capacity l'"
  | (no_memory) h' where "raft_append_entry (Some n) (Some e) h = Inr (-1, Some n, Some e, h')"
      "h_blocks h' = h_blocks h" "length (log_entries (rlog n)) = log_capacity (rlog n)"
proof -
  let ?l = "rlog n"
  have un: "unlock_node (n\<lparr>mutex_held := True\<rparr>) = n" "\<And>l. unlock_node (n\<lparr>mutex_held := True, rlog := l\<rparr>) = n\<lparr>rlog := l\<rparr>"
    using assms(2) by (simp_all add: unlock_node_def)
  have idx: "log_wf (l\<lparr>log_entries := log_entries ?l @ [e\<lparr>e_index := log_count ?l + 1\<rparr>]\<rparr>)"
    if "length (log_entries ?l) < log_capacity l" for l
    using assms(1) that by (auto simp: log_wf_def nth_append less_Suc_eq log_count_def)
  show thesis
  proof (cases "log_capacity ?l \<le> length (log_entries ?l)")
    case False
    then have "raft_append_entry (Some n) (Some e) h
      = Inr (0, Some (n\<lparr>rlog := ?l\<lparr>log_entries := log_entries ?l @ [e\<lparr>e_index := log_count ?l + 1\<rparr>]\<rparr>\<rparr>),
             Some (e\<lparr>e_index := log_count ?l + 1\<rparr>), h)"
      using assms(2) by (simp add: raft_append_entry_def un Let_def)
    with False idx [of ?l] show thesis by (intro appended) auto
  next
    case True
    then have full: "length (log_entries ?l) = log_capacity ?l" using assms(1) by (simp add: log_wf_def)
    obtain ok h1 where a: "h_alloc h = (ok, h1)" by fastforce
    then have b: "h_blocks h1 = h_blocks h" using h_alloc_blocks [of h] by simp
    show thesis
    proof (cases ok)
      case False
      with True a assms(2) have "raft_append_entry (Some n) (Some e) h = Inr (-1, Some n, Some e, h1)"
        by (simp add: raft_append_entry_def un)
      from this b full show thesis by (rule no_memory)
    next
      case ok: True
      have room: "length (log_entries ?l) < log_capacity ?l * 2"
        using assms(1) full by (simp add: log_wf_def)
      with True ok a assms(2) have "raft_append_entry (Some n) (Some e) h
        = Inr (0, Some (n\<lparr>rlog := ?l\<lparr>log_capacity := log_capacity ?l * 2,
              log_entries := log_entries ?l @ [e\<lparr>e_index := log_count ?l + 1\<rparr>]\<rparr>\<rparr>),
             Some (e\<lparr>e_index := log_count ?l + 1\<rparr>), h1)"
        by (simp add: raft_append_entry_def un log_count_def Let_def)
      with b idx [of "?l\<lparr>log_capacity := log_capacity ?l * 2\<rparr>"] room show thesis
        by (intro appended [where h' = h1]) auto
    qed
  qed
qed

text \<open>\<open>raft_append_entry\<close> on a well-formed log of a node whose mutex is free either
  appends the entry at the end, numbered with its position, doubling the array when it is full,
  or fails with -1 and changes nothing, which happens only when the array is full and the
  allocator has no memory. In both cases the log stays well-formed and the mutex free.\<close>

theorem raft_append_entry_log:
  assumes "log_wf (rlog n)" "\<not> mutex_held n"
  shows "\<exists>rc n' e' h'. raft_append_entry (Some n) (Some e) h = Inr (rc, Some n', Some e', h')
    \<and> log_wf (rlog n') \<and> \<not> mutex_held n' \<and> n' = n\<lparr>rlog := rlog n'\<rparr>
    \<and> (if rc = 0
       then e' = e\<lparr>e_index := of_nat (length (log_entries (rlog n)) + 1)\<rparr>
            \<and> log_entries (rlog n') = log_entries (rlog n) @ [e']
       else rc = -1 \<and> rlog n' = rlog n \<and> length (log_entries (rlog n)) = log_capacity (rlog n))"
proof (cases rule: raft_append_entry_cases [OF assms, of e h])
  case (1 l' h')
  with assms(2) show ?thesis by (auto simp: log_count_def)
next
  case (2 h')
  with assms show ?thesis by auto
qed

definition empty_heap :: heap where
  "empty_heap = \<lparr>h_blocks = [], h_answers = []\<rparr>"

definition sample_node :: "nat raft_node_t" where
  "sample_node = the (fst (raft_init True True True 1000 zero_timespec sample_timeout 1 empty_heap))"

lemma sample_node_sel [simp]:
  "rstate sample_node = RAFT_STATE_FOLLOWER" "node_id sample_node = 1" "current_term sample_node = 0"
  "voted_for sample_node = 0" "votes_received sample_node = 0" "last_heartbeat sample_node = 1000"
  "leader_id sample_node = 0" "rlog sample_node = \<lparr>log_entries = [], log_capacity = 1024\<rparr>"
  "commit_index sample_node = 0" "last_applied sample_node = 0" "next_index sample_node = replicate MAX_NODES 1"
  "match_index sample_node = replicate MAX_NODES 0" "state_machine sample_node = None"
  "\<not> applying_entries sample_node" "\<not> mutex_held sample_node"
  "batcher sample_node = the (snd (command_batcher_init zero_timespec True (Some zero_batcher) 50 True))"
  "adaptive sample_node = snd (adaptive_timeout_init True (Some sample_timeout))"
  by (simp_all add: sample_node_def raft_init_def h_alloc_def empty_heap_def log_init_def raft_adaptive_init_def
      adaptive_timeout_init_def init_with_config_def zero_node_def command_batcher_init_def
      INITIAL_LOG_CAPACITY_def DEFAULT_BATCH_DELAY_MS_def Let_def)

lemma sample_node_log_wf [simp]: "log_wf (rlog sample_node)"
  by (simp add: log_wf_def)

lemma sample_node_unlocked: "\<not> mutex_held sample_node"
  by simp

definition sample_entry :: raft_entry_t where
  "sample_entry = \<lparr>e_term = 1, e_index = 0, e_type = RAFT_ENTRY_NOOP, e_data = None, e_data_len = 0\<rparr>"

theorem raft_append_entry_log_witness:
  "\<exists>rc n' e' h'. raft_append_entry (Some sample_node) (Some sample_entry) empty_heap = Inr (rc, Some n', Some e', h')
    \<and> rc = 0 \<and> log_entries (rlog n') = [e'] \<and> e_index e' = 1"
  using raft_append_entry_log [OF sample_node_log_wf, of sample_entry empty_heap]
  by (auto split: if_splits)

section \<open>The batch callback\<close>

text \<open>An entry of the log whose data block has been freed.\<close>

definition freed_block :: "nat \<Rightarrow> heap \<Rightarrow> bool" where
  "freed_block a h \<longleftrightarrow> a < length (h_blocks h) \<and> h_blocks h ! a = None"

definition dangling :: "'sm raft_node_t \<Rightarrow> heap \<Rightarrow> bool" where
  "dangling n h \<longleftrightarrow> (\<exists>e \<in> set (log_entries (rlog n)). \<exists>a. e_data e = Some a \<and> freed_block a h)"

lemma freed_block_free: "h_free p h = Inr h' \<Longrightarrow> freed_block a h \<Longrightarrow> freed_block a h'"
  by (auto simp: h_free_def freed_block_def nth_list_update split: option.splits if_splits)

lemma freed_block_malloc: "h_malloc c h = (p, h') \<Longrightarrow> freed_block a h \<Longrightarrow> freed_block a h'"
  by (cases rule: h_malloc_cases [of c h]) (auto simp: freed_block_def nth_append)

lemma freed_block_blocks: "h_blocks h' = h_blocks h \<Longrightarrow> freed_block a h' = freed_block a h"
  by (simp add: freed_block_def)

lemma freed_block_load: "freed_block a h \<Longrightarrow> h_load h (Some a) = Inl Use_after_free"
  by (simp add: freed_block_def h_load_def)

lemma free_all_freed:
  "e \<in> set es \<Longrightarrow> e_data e = Some a \<Longrightarrow> freed_block a h \<Longrightarrow> \<exists>err. free_all es h = Inl err"
proof (induction es arbitrary: h)
  case (Cons x es)
  show ?case
  proof (cases "h_free (e_data x) h")
    case (Inr h')
    have "x \<noteq> e"
      using Inr Cons.prems by (auto simp: h_free_def freed_block_def)
    with Cons.prems freed_block_free [OF Inr] Cons.IH [of h'] Inr show ?thesis by auto
  qed auto
qed simp

lemma create_entry_command:
  assumes "0 < len" "len \<le> length d"
  obtains (made) e h' where "raft_create_entry term RAFT_ENTRY_COMMAND (Some d) len h = Inr (Some e, h')"
      "e_data e = Some (length (h_blocks h))" "h_blocks h' = h_blocks h @ [Some (take len d)]"
      "e_term e = term" "e_type e = RAFT_ENTRY_COMMAND" "e_data_len e = len"
  | (no_memory) h' where "raft_create_entry term RAFT_ENTRY_COMMAND (Some d) len h = Inr (None, h')"
      "h_blocks h' = h_blocks h"
proof -
  obtain ok h1 where a: "h_alloc h = (ok, h1)" by fastforce
  then have b: "h_blocks h1 = h_blocks h" using h_alloc_blocks [of h] by simp
  show thesis
  proof (cases ok)
    case False
    with a b show thesis by (intro no_memory [where h' = h1]) (simp_all add: raft_create_entry_def)
  next
    case True
    show thesis
    proof (cases rule: h_malloc_cases [of "take len d" h1])
      case (ok h')
      with a b True assms show thesis
        by (intro made [where h' = h'], simp add: raft_create_entry_def rd_bytes_def) simp_all
    next
      case (fail h')
      with a b True assms show thesis by (intro no_memory [where h' = h']) (simp_all add: raft_create_entry_def rd_bytes_def)
    qed
  qed
qed

lemma h_alloc_same: "h_alloc h = (ok, h') \<Longrightarrow> h_blocks h' = h_blocks h"
  using h_alloc_blocks [of h] by simp

lemma h_alloc_freed: "h_alloc h = (ok, h') \<Longrightarrow> freed_block a h \<Longrightarrow> freed_block a h'"
  using h_alloc_blocks [of h] by (simp add: freed_block_def)

lemma create_entry_freed:
  assumes "raft_create_entry term type data len h = Inr (e, h')" "freed_block a h"
  shows "freed_block a h'"
  using assms
  by (auto simp: raft_create_entry_def Let_def split: if_splits prod.splits option.splits
      intro: h_alloc_freed) (metis h_alloc_freed freed_block_malloc)+

lemma append_entry_keeps:
  assumes "raft_append_entry (Some n) e h = Inr (rc, n', e', h')"
  obtains m where "n' = Some m" "set (log_entries (rlog n)) \<subseteq> set (log_entries (rlog m))"
    "h_blocks h' = h_blocks h" "rstate m = rstate n" "batcher m = batcher n"
proof -
  have "\<exists>m. n' = Some m \<and> set (log_entries (rlog n)) \<subseteq> set (log_entries (rlog m))
    \<and> h_blocks h' = h_blocks h \<and> rstate m = rstate n \<and> batcher m = batcher n"
    using assms
    by (auto simp: raft_append_entry_def Let_def unlock_node_def split: option.splits prod.splits if_splits)
      (metis h_alloc_same)+
  with that show thesis by blast
qed

lemma replicate_keeps:
  assumes "raft_replicate_logs (Some n) = Inr (rc, n')"
  obtains m where "n' = Some m" "rlog m = rlog n" "rstate m = rstate n" "batcher m = batcher n"
    "mutex_held m = mutex_held n"
  using assms by (auto simp: raft_replicate_logs_def unlock_node_def split: if_splits)

lemma process_raft_batch_dangling:
  assumes "process_raft_batch batch n h = Inr (n', h')" "dangling n h"
  shows "dangling n' h'"
proof -
  from assms(1) obtain entry h1 where c: "raft_create_entry (current_term n) RAFT_ENTRY_COMMAND (Some (commands batch))
      (unat (total_length batch)) h = Inr (entry, h1)"
    and rest: "bindr (raft_append_entry (Some n) entry h1) (\<lambda>(_, n1, entry1, h2).
     bindr (if rstate (the n1) = RAFT_STATE_LEADER
            then bindr (raft_replicate_logs n1) (\<lambda>(_, n2). Inr n2) else Inr n1) (\<lambda>n2.
       case entry1 of None \<Rightarrow> Inl Null_deref
       | Some e \<Rightarrow> bindr (h_free (e_data e) h2) (\<lambda>h3. Inr (the n2, h3)))) = Inr (n', h')"
    unfolding process_raft_batch_def by auto
  from rest obtain rc n1 entry1 h2 where a: "raft_append_entry (Some n) entry h1 = Inr (rc, n1, entry1, h2)"
    and rest2: "bindr (if rstate (the n1) = RAFT_STATE_LEADER
            then bindr (raft_replicate_logs n1) (\<lambda>(_, n2). Inr n2) else Inr n1) (\<lambda>n2.
       case entry1 of None \<Rightarrow> Inl Null_deref
       | Some e \<Rightarrow> bindr (h_free (e_data e) h2) (\<lambda>h3. Inr (the n2, h3))) = Inr (n', h')"
    by auto
  obtain m where m: "n1 = Some m" "set (log_entries (rlog n)) \<subseteq> set (log_entries (rlog m))" "h_blocks h2 = h_blocks h1"
    using append_entry_keeps [OF a] by metis
  from rest2 m(1) have "rlog n' = rlog m \<and> (\<exists>p. h_free p h2 = Inr h')"
    by (auto split: if_splits option.splits elim!: replicate_keeps)
  then have "rlog n' = rlog m" and "\<And>b. freed_block b h \<Longrightarrow> freed_block b h'"
    using create_entry_freed [OF c] freed_block_blocks [OF m(3)] freed_block_free by auto
  with m(2) assms(2) show ?thesis by (auto simp: dangling_def)
qed

text \<open>The three outcomes of the callback on a node whose mutex is free.\<close>

lemma batch_wf_room: "batch_wf c \<Longrightarrow> unat (total_length c) \<le> length (commands c)"
  by (simp add: batch_wf_def)

text \<open>The end of the callback: a leader replicates, which leaves the log alone.\<close>

lemma replicate_keeps_log:
  assumes "\<not> mutex_held m"
  obtains m' where "(if rstate (the (Some m)) = RAFT_STATE_LEADER
      then bindr (raft_replicate_logs (Some m)) (\<lambda>(_, n2). Inr n2) else Inr (Some m)) = Inr (Some m')" "rlog m' = rlog m"
proof -
  have "\<exists>m'. (if rstate (the (Some m)) = RAFT_STATE_LEADER
      then bindr (raft_replicate_logs (Some m)) (\<lambda>(_, n2). Inr n2) else Inr (Some m)) = Inr (Some m') \<and> rlog m' = rlog m"
    using assms by (auto simp: raft_replicate_logs_def unlock_node_def)
  then show thesis using that by blast
qed

lemma free_last_block:
  assumes "h_blocks h2 = h_blocks h @ [Some bs]" "d = Some (length (h_blocks h))"
  obtains h3 where "h_free d h2 = Inr h3" "freed_block (length (h_blocks h)) h3"
  using assms by (auto simp: h_free_def freed_block_def nth_append)

lemma process_raft_batch_cases:
  assumes wf: "log_wf (rlog n)" "\<not> mutex_held n" "unat (total_length batch) \<le> length (commands batch)"
    "0 < total_length batch"
  obtains (appended) n' h' e where "process_raft_batch batch n h = Inr (n', h')"
      "log_entries (rlog n') = log_entries (rlog n) @ [e]" "log_wf (rlog n')"
      "e_data e = Some (length (h_blocks h))" "freed_block (length (h_blocks h)) h'"
      "e_term e = current_term n" "e_index e = log_count (rlog n) + 1"
  | (full) n' h' where "process_raft_batch batch n h = Inr (n', h')" "rlog n' = rlog n"
  | (no_memory) "process_raft_batch batch n h = Inl Null_deref"
proof -
  have len: "0 < unat (total_length batch)" "unat (total_length batch) \<le> length (commands batch)"
    using assms(3,4) by (simp_all add: unat_gt_0 word_neq_0_conv)
  show thesis
  proof (cases rule: create_entry_command [OF len, of "current_term n" h])
    case c: (1 e h1)
    show thesis
    proof (cases rule: raft_append_entry_cases [OF wf(1,2), of e h1])
      case a: (1 l' h2)
      obtain m' where m': "(if rstate (the (Some (n\<lparr>rlog := l'\<rparr>))) = RAFT_STATE_LEADER
        then bindr (raft_replicate_logs (Some (n\<lparr>rlog := l'\<rparr>))) (\<lambda>(_, n2). Inr n2) else Inr (Some (n\<lparr>rlog := l'\<rparr>)))
          = Inr (Some m')" "rlog m' = l'"
        using replicate_keeps_log [of "n\<lparr>rlog := l'\<rparr>"] wf(2) by auto
      have "h_blocks h2 = h_blocks h @ [Some (take (unat (total_length batch)) (commands batch))]" using a c by simp
      then obtain h3 where f: "h_free (e_data e) h2 = Inr h3" "freed_block (length (h_blocks h)) h3"
        using c(2) by (rule free_last_block)
      have "process_raft_batch batch n h = Inr (m', h3)"
        unfolding process_raft_batch_def using c a m' f by simp
      with m' a c f show thesis by (intro appended [of m' h3 "e\<lparr>e_index := log_count (rlog n) + 1\<rparr>"]) simp_all
    next
      case a: (2 h2)
      obtain m' where m': "(if rstate (the (Some n)) = RAFT_STATE_LEADER
        then bindr (raft_replicate_logs (Some n)) (\<lambda>(_, n2). Inr n2) else Inr (Some n)) = Inr (Some m')" "rlog m' = rlog n"
        using replicate_keeps_log [OF wf(2)] .
      have "h_blocks h2 = h_blocks h @ [Some (take (unat (total_length batch)) (commands batch))]" using a c by simp
      then obtain h3 where f: "h_free (e_data e) h2 = Inr h3"
        using c(2) by (rule free_last_block)
      have "process_raft_batch batch n h = Inr (m', h3)"
        unfolding process_raft_batch_def using c a m' f by simp
      with m' show thesis by (intro full [of m' h3]) simp_all
    qed
  next
    case (2 h1)
    have "raft_append_entry (Some n) None h1 = Inr (-1, Some n, None, h1)"
      by (simp add: raft_append_entry_def)
    moreover obtain m' where "(if rstate (the (Some n)) = RAFT_STATE_LEADER
        then bindr (raft_replicate_logs (Some n)) (\<lambda>(_, n2). Inr n2) else Inr (Some n)) = Inr (Some m')"
      using replicate_keeps_log [OF wf(2)] .
    ultimately have "process_raft_batch batch n h = Inl Null_deref"
      unfolding process_raft_batch_def using 2 by simp
    then show thesis by (rule no_memory)
  qed
qed

text \<open>C40: The callback of the command batcher leaves the log with a dangling pointer: if the
  batch was appended, the entry appended is numbered with its position and carries the current
  term, and its data block has been freed, so that reading the entry is a use after free.\<close>

theorem process_raft_batch_use_after_free:
  assumes "log_wf (rlog n)" "\<not> mutex_held n" "batch_wf batch" "0 < total_length batch"
    and "process_raft_batch batch n h = Inr (n', h')" "rlog n' \<noteq> rlog n"
  shows "\<exists>e. log_entries (rlog n') = log_entries (rlog n) @ [e] \<and> e_term e = current_term n
    \<and> e_index e = of_nat (length (log_entries (rlog n)) + 1) \<and> h_load h' (e_data e) = Inl Use_after_free"
proof (cases rule: process_raft_batch_cases [OF assms(1,2) batch_wf_room [OF assms(3)] assms(4), of h])
  case (1 n'' h'' e)
  with assms(5) have "n'' = n'" "h'' = h'" by simp_all
  with 1 show ?thesis by (auto simp: log_count_def freed_block_load)
qed (use assms(5,6) in auto)

definition small_batch :: "bytes \<Rightarrow> command_batch" where
  "small_batch cmd =
     \<lparr>num_commands = 1, total_length = of_nat (length cmd),
      commands = cmd @ replicate (MAX_COMMAND_BUFFER - length cmd) 0, creation_time = zero_timespec\<rparr>"

lemma small_batch_wf:
  assumes "0 < length cmd" "length cmd \<le> MAX_COMMAND_BUFFER"
  shows "batch_wf (small_batch cmd)" "0 < total_length (small_batch cmd)"
proof -
  have u: "unat (of_nat (length cmd) :: u64) = length cmd"
    using assms(2) by (intro unat_of_nat_u64) (simp add: MAX_COMMAND_BUFFER_def)
  have "0 < unat (of_nat (length cmd) :: u64)" using assms(1) by (simp only: u)
  then show "0 < total_length (small_batch cmd)"
    by (simp add: small_batch_def word_less_nat_alt)
  show "batch_wf (small_batch cmd)"
    using assms u by (simp add: batch_wf_def small_batch_def Suc_le_eq)
qed

lemma sample_batch_appended:
  obtains n' h' where "process_raft_batch (small_batch (kvs_encode sample_set)) sample_node empty_heap = Inr (n', h')"
    "length (log_entries (rlog n')) = 1"
proof -
  have len: "0 < length (kvs_encode sample_set)" "length (kvs_encode sample_set) \<le> MAX_COMMAND_BUFFER"
    by (simp_all add: sample_set_length MAX_COMMAND_BUFFER_def)
  note wf = small_batch_wf [OF len]
  show thesis
  proof (cases rule: process_raft_batch_cases [OF sample_node_log_wf sample_node_unlocked batch_wf_room [OF wf(1)] wf(2), of empty_heap])
    case (1 n' h' e)
    with that show thesis by simp
  next
    case (2 n' h')
    then show thesis
      by (auto simp: process_raft_batch_def raft_create_entry_def rd_bytes_def h_alloc_def h_malloc_def
          empty_heap_def raft_append_entry_def unlock_node_def small_batch_def sample_set_length h_free_def
          log_count_def Let_def dest: arg_cong [where f = log_entries])
  next
    case 3
    then show thesis
      by (simp add: process_raft_batch_def raft_create_entry_def rd_bytes_def h_alloc_def h_malloc_def
          empty_heap_def raft_append_entry_def unlock_node_def small_batch_def sample_set_length h_free_def
          log_count_def Let_def)
  qed
qed

theorem process_raft_batch_use_after_free_witness:
  "\<exists>n' h' e. process_raft_batch (small_batch (kvs_encode sample_set)) sample_node empty_heap = Inr (n', h')
    \<and> log_entries (rlog n') = [e] \<and> h_load h' (e_data e) = Inl Use_after_free"
proof -
  obtain n' h' where r: "process_raft_batch (small_batch (kvs_encode sample_set)) sample_node empty_heap = Inr (n', h')"
    "length (log_entries (rlog n')) = 1"
    by (rule sample_batch_appended)
  have "rlog n' \<noteq> rlog sample_node" using r(2) by auto
  have len: "0 < length (kvs_encode sample_set)" "length (kvs_encode sample_set) \<le> MAX_COMMAND_BUFFER"
    by (simp_all add: sample_set_length MAX_COMMAND_BUFFER_def)
  from process_raft_batch_use_after_free [OF sample_node_log_wf sample_node_unlocked small_batch_wf [OF len] r(1)
      \<open>rlog n' \<noteq> rlog sample_node\<close>] r(1)
  show ?thesis by auto
qed

lemma stop_batcher_dangling:
  assumes "stop_node_batcher t c n h = Inr (rc, n', h')" "dangling n h"
  shows "dangling n' h'"
proof -
  have d: "dangling (n\<lparr>batcher := b\<rparr>) h = dangling n h" for n :: "'a raft_node_t" and b h
    by (simp add: dangling_def)
  show ?thesis
    using assms
    by (auto simp: stop_node_batcher_def Let_def d split: prod.splits if_splits option.splits
        dest!: process_raft_batch_dangling)
qed

text \<open>A node whose log holds a freed data block, as every batch leaves behind, cannot be
  destroyed: \<open>raft_destroy\<close> frees the block a second time, or fails before that.\<close>

theorem raft_destroy_double_free:
  fixes n :: "'sm raft_node_t"
  assumes "dangling n h"
  shows "\<exists>err. raft_destroy t in_callback (Some n) h = Inl err"
proof (rule ccontr)
  assume "\<not> ?thesis"
  then obtain h' where "raft_destroy t in_callback (Some n) h = Inr h'"
    by (cases "raft_destroy t in_callback (Some n) h") auto
  then have "\<exists>(n1 :: 'sm raft_node_t) rc n2 h2. stop_node_batcher t in_callback n1 h = Inr (rc, n2, h2)
      \<and> free_all (log_entries (rlog n2)) h2 = Inr h' \<and> rlog n1 = rlog n"
    by (auto simp: raft_destroy_def log_destroy_def raft_stop_apply_thread_def unlock_node_def split: if_splits)
      fastforce+
  then obtain n1 :: "'sm raft_node_t" and rc n2 h2 where s: "stop_node_batcher t in_callback n1 h = Inr (rc, n2, h2)"
    and f: "free_all (log_entries (rlog n2)) h2 = Inr h'" and l: "rlog n1 = rlog n"
    by blast
  have "dangling n1 h" using assms l by (simp add: dangling_def)
  from stop_batcher_dangling [OF s this] free_all_freed f show False
    by (fastforce simp: dangling_def)
qed

theorem raft_destroy_double_free_witness:
  "\<exists>n' h' err. process_raft_batch (small_batch (kvs_encode sample_set)) sample_node empty_heap = Inr (n', h')
    \<and> raft_destroy zero_timespec None (Some n') h' = Inl err"
proof -
  obtain n' h' where r: "process_raft_batch (small_batch (kvs_encode sample_set)) sample_node empty_heap = Inr (n', h')"
    "length (log_entries (rlog n')) = 1"
    by (rule sample_batch_appended)
  have len: "0 < length (kvs_encode sample_set)" "length (kvs_encode sample_set) \<le> MAX_COMMAND_BUFFER"
    by (simp_all add: sample_set_length MAX_COMMAND_BUFFER_def)
  have "dangling n' h'"
  proof (cases rule: process_raft_batch_cases
      [OF sample_node_log_wf sample_node_unlocked batch_wf_room [OF small_batch_wf(1) [OF len]] small_batch_wf(2) [OF len],
       of empty_heap])
    case (1 n'' h'' e)
    with r show ?thesis by (auto simp: dangling_def)
  next
    case (2 n'' h'')
    with r show ?thesis by auto
  qed (use r in simp_all)
  from raft_destroy_double_free [OF this] r(1) show ?thesis by blast
qed

section \<open>Stepping down\<close>





text \<open>In every other state, \<open>raft_become_follower\<close> on a node whose mutex is free makes
  it a follower of the given term without vote or leader and with the minimal election
  timeout, leaves log and heap alone and releases the mutex.\<close>

theorem become_follower_effect:
  assumes "rstate n \<noteq> RAFT_STATE_LEADER \<or> \<not> active (batcher n)" "\<not> mutex_held n"
  shows "\<exists>n'. raft_become_follower now t in_callback (Some n) term h = Inr (Some n', h)
    \<and> rstate n' = RAFT_STATE_FOLLOWER \<and> current_term n' = term \<and> voted_for n' = 0 \<and> votes_received n' = 0
    \<and> leader_id n' = 0 \<and> last_heartbeat n' = now \<and> rlog n' = rlog n \<and> \<not> mutex_held n'
    \<and> (\<forall>a. adaptive n = Some a \<longrightarrow> raft_adaptive_get_timeout n' = cfg_min_timeout (at_config a))"
  using assms
  by (auto simp: raft_become_follower_def stop_node_batcher_def command_batcher_stop_def unlock_node_def
      raft_adaptive_record_heartbeat_def raft_adaptive_get_timeout_def adaptive_timeout_get_current_def
      adaptive_timeout_record_heartbeat_def Let_def split: option.splits)

theorem become_follower_effect_witness:
  "\<exists>n'. raft_become_follower 1001 zero_timespec None (Some sample_node) 7 empty_heap = Inr (Some n', empty_heap)
    \<and> current_term n' = 7 \<and> voted_for n' = 0 \<and> raft_adaptive_get_timeout n' = 150"
  using become_follower_effect [of sample_node 1001 zero_timespec None 7 empty_heap]
  by (auto simp: adaptive_timeout_init_def init_with_config_def)

section \<open>Elections\<close>

text \<open>The election timer never waits: the timeout in milliseconds is divided by 1000 and
  every timeout of the default configuration is below 1000, so that a node that is not the
  leader is told to start an election at its first check, even in the second of its last
  heartbeat, and the check counts as a missed heartbeat.\<close>

theorem election_timeout_immediate:
  assumes "double_rounding fl" "adaptive n = Some a" "default_timeout_inv a"
    and "rstate n \<noteq> RAFT_STATE_LEADER" "\<not> mutex_held n" "last_heartbeat n \<le> now"
  shows "\<exists>n' a'. raft_check_election_timeout fl now (Some n) = Inr (True, Some n')
    \<and> adaptive n' = Some a' \<and> missed_heartbeats a' = missed_heartbeats a + 1
    \<and> current_timeout a \<le> current_timeout a' \<and> current_timeout a' \<le> 300"
proof -
  have cfg: "at_config a = default_config" and c: "current_timeout a \<le> 300"
    using assms(3) by (auto simp: default_timeout_inv_def default_bounds)
  then have "unat (current_timeout a) < 1000" by (simp add: word_le_nat_alt)
  then have z: "current_timeout a div 1000 = 0"
    by (simp add: word_arith_nat_div)
  obtain a' where a': "adaptive_timeout_check_missed_heartbeat fl a = Inr a'"
    "current_timeout a \<le> current_timeout a'" "current_timeout a' \<le> 300" "missed_heartbeats a' = missed_heartbeats a + 1"
    using double_rounding.missed_run [OF assms(1), of a] c by (auto simp: cfg)
  then show ?thesis
    using assms z
    by (auto simp: raft_check_election_timeout_def raft_adaptive_get_timeout_def adaptive_timeout_get_current_def
        MILLISECONDS_PER_SECOND_def raft_adaptive_check_missed_heartbeat_def unlock_node_def Let_def)
qed

theorem election_timeout_immediate_witness:
  "\<exists>n'. raft_check_election_timeout round20 1000 (Some sample_node) = Inr (True, Some n')"
proof -
  obtain a where a: "adaptive sample_node = Some a" "default_timeout_inv a"
    by (auto simp: adaptive_timeout_init_def init_with_config_def default_timeout_inv_def default_bounds u32_real_def)
  show ?thesis
    using election_timeout_immediate [OF round20.double_rounding_axioms a, of 1000] by auto
qed

text \<open>The votes of a candidate, counted one by one.\<close>

fun record_votes :: "nat \<Rightarrow> 'sm raft_node_t \<Rightarrow> (bool list \<times> 'sm raft_node_t) res" where
  "record_votes 0 n = Inr ([], n)"
| "record_votes (Suc k) n =
     bindr (raft_record_vote (Some n)) (\<lambda>(b, n1).
     bindr (record_votes k (the n1)) (\<lambda>(bs, n2). Inr (b # bs, n2)))"

lemma record_votes_count:
  assumes "\<not> mutex_held n" "rstate n = RAFT_STATE_CANDIDATE" "unat (votes_received n) + k < 2 ^ 32"
  shows "\<exists>n'. record_votes k n = Inr (map (\<lambda>i. 2 < unat (votes_received n) + i) [1..<Suc k], n')
    \<and> votes_received n' = votes_received n + of_nat k"
  using assms
proof (induction k arbitrary: n)
  case (Suc k)
  let ?n1 = "n\<lparr>votes_received := votes_received n + 1, mutex_held := False\<rparr>"
  have u: "unat (votes_received n + 1) = unat (votes_received n) + 1"
    using Suc.prems(3) by (simp add: unat_word_ariths)
  have g: "(2 < votes_received n + 1) = (2 < unat (votes_received n) + 1)"
    by (simp only: word_less_nat_alt u) simp
  have step: "raft_record_vote (Some n) = Inr (2 < unat (votes_received n) + 1, Some ?n1)"
    using Suc.prems g by (simp add: raft_record_vote_def unlock_node_def MAX_NODES_def Let_def)
  have prem: "\<not> mutex_held ?n1" "rstate ?n1 = RAFT_STATE_CANDIDATE" "unat (votes_received ?n1) + k < 2 ^ 32"
    using Suc.prems u by simp_all
  from Suc.IH [OF prem] obtain n' where n': "record_votes k ?n1
      = Inr (map (\<lambda>i. 2 < unat (votes_received ?n1) + i) [1..<Suc k], n')"
    "votes_received n' = votes_received n + 1 + of_nat k"
    by auto
  have "[1..<Suc (Suc k)] = 1 # map Suc [1..<Suc k]"
    by (simp only: map_Suc_upt) (simp add: upt_conv_Cons del: upt_Suc)
  then have "map (\<lambda>i. 2 < unat (votes_received n) + i) [1..<Suc (Suc k)]
      = (2 < unat (votes_received n) + 1) # map (\<lambda>i. 2 < unat (votes_received n) + i) (map Suc [1..<Suc k])"
    by (simp only: list.map)
  also have "\<dots> = (2 < unat (votes_received n) + 1) # map (\<lambda>i. 2 < unat (votes_received ?n1) + i) [1..<Suc k]"
    by (simp add: u del: upt_Suc)
  finally show ?case using step n' by (simp add: add.assoc)
qed simp

text \<open>After \<open>raft_start_election\<close> the node is a candidate of the next term that voted
  for itself, and the \<open>k\<close>-th call of \<open>raft_record_vote\<close> reports a majority exactly when
  the votes, its own included, are at least three, a strict majority of five.\<close>

theorem election_majority:
  assumes "\<not> mutex_held n" "k < 2 ^ 31"
  shows "\<exists>c n'. raft_start_election now (Some n) = Inr (0, Some c)
    \<and> rstate c = RAFT_STATE_CANDIDATE \<and> current_term c = current_term n + 1 \<and> voted_for c = node_id n
    \<and> record_votes k c = Inr (map (\<lambda>i. MAX_NODES < 2 * (1 + i)) [1..<Suc k], n')"
proof -
  let ?c = "unlock_node (n\<lparr>mutex_held := True, rstate := RAFT_STATE_CANDIDATE, current_term := current_term n + 1,
      voted_for := node_id n, votes_received := 1, last_heartbeat := now\<rparr>)"
  have "\<not> mutex_held ?c" "rstate ?c = RAFT_STATE_CANDIDATE" "votes_received ?c = 1"
    by (simp_all add: unlock_node_def)
  moreover from this obtain n' where "record_votes k ?c = Inr (map (\<lambda>i. 2 < unat (votes_received ?c) + i) [1..<Suc k], n')"
    using record_votes_count [of ?c k] assms(2) by auto
  moreover have "(\<lambda>i. 2 < unat (1 :: u32) + i) = (\<lambda>i. MAX_NODES < 2 * (1 + i))"
    by (auto simp: MAX_NODES_def)
  ultimately have "record_votes k ?c = Inr (map (\<lambda>i. MAX_NODES < 2 * (1 + i)) [1..<Suc k], n')"
    by simp
  moreover have "raft_start_election now (Some n) = Inr (0, Some ?c)"
    using assms(1) by (simp add: raft_start_election_def)
  ultimately show ?thesis by (simp add: unlock_node_def)
qed

theorem election_majority_witness:
  "\<exists>c n'. raft_start_election 1002 (Some sample_node) = Inr (0, Some c) \<and> current_term c = 1
    \<and> record_votes 3 c = Inr ([False, True, True], n')"
  using election_majority [of sample_node 3 1002] by (auto simp: upt_rec MAX_NODES_def)

end
