(* ===== verification/Raft_Rpc.thy ===== *)
theory Raft_Rpc
  imports Raft_State
begin

text \<open>
  The remote procedure calls of \<open>src/raft_core.c\<close>: the message types of
  \<open>include/raft_core.h\<close>, the handlers \<open>raft_handle_append_entries\<close> and
  \<open>raft_handle_request_vote\<close> and the senders. A message is its header and the bytes that
  follow it; the handlers read and write the request and response structures at their offsets
  in those bytes.
\<close>

section \<open>Messages\<close>

datatype raft_rpc_type_t =
    RAFT_RPC_APPEND_ENTRIES
  | RAFT_RPC_REQUEST_VOTE
  | RAFT_RPC_RESP_APPEND_ENTRIES
  | RAFT_RPC_RESP_REQUEST_VOTE
  | RAFT_RPC_other u32

record raft_msg_t =
  body_length :: u64
  msg_term :: u64
  sender_node_id :: u64
  rpc_type :: raft_rpc_type_t
  msg_data :: bytes

definition sizeof_raft_msg_t :: nat where "sizeof_raft_msg_t = 32"

text \<open>\<open>raft_append_entries_req_t\<close>: \<open>prev_log_index\<close>, \<open>prev_log_term\<close>,
  \<open>leader_commit\<close>, \<open>n_entries\<close> (8 bytes each), then the batch header and the
  commands.\<close>

definition ae_req_prev_log_index :: "bytes \<Rightarrow> u64 res" where "ae_req_prev_log_index d = rd 8 d 0"
definition ae_req_prev_log_term :: "bytes \<Rightarrow> u64 res" where "ae_req_prev_log_term d = rd 8 d 8"
definition ae_req_leader_commit :: "bytes \<Rightarrow> u64 res" where "ae_req_leader_commit d = rd 8 d 16"
definition ae_req_entries_header :: nat where "ae_req_entries_header = 32"
definition ae_req_entries_data :: nat where "ae_req_entries_data = 80"

text \<open>\<open>raft_append_entries_resp_t\<close>: \<open>success\<close> and its padding, \<open>log_idx\<close>,
  \<open>term\<close>. \<open>raft_request_vote_req_t\<close>: \<open>last_log_index\<close>,
  \<open>last_log_term\<close>. \<open>raft_request_vote_resp_t\<close>: \<open>vote_granted\<close>.\<close>

definition ae_resp_set_success :: "bool \<Rightarrow> bytes \<Rightarrow> bytes res" where
  "ae_resp_set_success b d = memcpy_into d 0 [if b then 1 else 0]"

definition ae_resp_success :: "bytes \<Rightarrow> bool res" where
  "ae_resp_success d = bindr (rd_bytes d 0 1) (\<lambda>b. Inr (b ! 0 \<noteq> 0))"

definition rv_req_last_log_index :: "bytes \<Rightarrow> u64 res" where "rv_req_last_log_index d = rd 8 d 0"
definition rv_req_last_log_term :: "bytes \<Rightarrow> u64 res" where "rv_req_last_log_term d = rd 8 d 8"

definition rv_resp_set_granted :: "bool \<Rightarrow> bytes \<Rightarrow> bytes res" where
  "rv_resp_set_granted b d = memcpy_into d 0 [if b then 1 else 0]"

definition rv_resp_granted :: "bytes \<Rightarrow> bool res" where
  "rv_resp_granted d = bindr (rd_bytes d 0 1) (\<lambda>b. Inr (b ! 0 \<noteq> 0))"

section \<open>Handlers\<close>

definition entry_at :: "raft_log_t \<Rightarrow> u64 \<Rightarrow> raft_entry_t res" where
  "entry_at l i = (if unat i < length (log_entries l) then Inr (log_entries l ! unat i) else Inl Out_of_bounds)"

text \<open>Step 4 of \<open>raft_handle_append_entries\<close>: whether the log is consistent with the
  request.\<close>

definition ae_consistent :: "raft_log_t \<Rightarrow> bytes \<Rightarrow> bool res" where
  "ae_consistent l req_data =
     bindr (ae_req_prev_log_index req_data) (\<lambda>prev_log_index.
       if 0 < prev_log_index
       then
         if log_count l < prev_log_index then Inr False
         else bindr (entry_at l (prev_log_index - 1)) (\<lambda>e.
              bindr (ae_req_prev_log_term req_data) (\<lambda>prev_log_term.
                Inr (e_term e = prev_log_term)))
       else Inr True)"

definition raft_handle_append_entries ::
  "int \<Rightarrow> 'sm raft_node_t option \<Rightarrow> raft_msg_t option \<Rightarrow> raft_msg_t option
    \<Rightarrow> (int \<times> 'sm raft_node_t option \<times> raft_msg_t option) res" where
  "raft_handle_append_entries now node req resp =
     (case (node, req, resp) of
        (Some n0, Some rq, Some rs) \<Rightarrow>
          bindr (assert_c (rpc_type rq = RAFT_RPC_APPEND_ENTRIES)) (\<lambda>_.
          bindr (lock_node n0) (\<lambda>n.
            let rs1 = rs\<lparr>msg_term := current_term n, rpc_type := RAFT_RPC_RESP_APPEND_ENTRIES\<rparr> in
            bindr (ae_resp_set_success False (msg_data rs1)) (\<lambda>d.
            let rs2 = rs1\<lparr>msg_data := d\<rparr> in
            if msg_term rq < current_term n then Inr (0, Some (unlock_node n), Some rs2)
            else
              let n1 = (if current_term n < msg_term rq
                        then n\<lparr>current_term := msg_term rq, voted_for := 0, rstate := RAFT_STATE_FOLLOWER\<rparr>
                        else n);
                  n2 = n1\<lparr>last_heartbeat := now, leader_id := ucast (sender_node_id rq)\<rparr>
              in
              bindr (ae_consistent (rlog n2) (msg_data rq)) (\<lambda>consistent.
              if \<not> consistent then Inr (0, Some (unlock_node n2), Some rs2)
              else bindr (ae_resp_set_success True (msg_data rs2)) (\<lambda>d'.
                Inr (0, Some (unlock_node n2), Some (rs2\<lparr>msg_data := d'\<rparr>)))))))
      | _ \<Rightarrow> Inr (-1, node, resp))"

text \<open>The log comparison in step 3 of \<open>raft_handle_request_vote\<close>.\<close>

definition rv_log_ok :: "raft_log_t \<Rightarrow> bytes \<Rightarrow> bool res" where
  "rv_log_ok l req_data =
     (let last_idx = log_count l in
      bindr (if 0 < last_idx then bindr (entry_at l (last_idx - 1)) (\<lambda>e. Inr (e_term e)) else Inr 0) (\<lambda>last_term.
      bindr (rv_req_last_log_term req_data) (\<lambda>cand_term.
        if last_term < cand_term then Inr True
        else if cand_term = last_term
        then bindr (rv_req_last_log_index req_data) (\<lambda>i. Inr (last_idx \<le> i))
        else Inr False)))"

definition raft_handle_request_vote ::
  "int \<Rightarrow> 'sm raft_node_t option \<Rightarrow> raft_msg_t option \<Rightarrow> raft_msg_t option
    \<Rightarrow> (int \<times> 'sm raft_node_t option \<times> raft_msg_t option) res" where
  "raft_handle_request_vote now node req resp =
     (case (node, req, resp) of
        (Some n0, Some rq, Some rs) \<Rightarrow>
          bindr (lock_node n0) (\<lambda>n.
            let rs1 = rs\<lparr>rpc_type := RAFT_RPC_RESP_REQUEST_VOTE, msg_term := current_term n\<rparr> in
            bindr (rv_resp_set_granted False (msg_data rs1)) (\<lambda>d.
            let rs2 = rs1\<lparr>msg_data := d\<rparr> in
            if msg_term rq < current_term n then Inr (0, Some (unlock_node n), Some rs2)
            else
              let n1 = (if current_term n < msg_term rq
                        then n\<lparr>current_term := msg_term rq, rstate := RAFT_STATE_FOLLOWER, voted_for := 0\<rparr>
                        else n)
              in
              bindr (rv_log_ok (rlog n1) (msg_data rq)) (\<lambda>log_ok.
              if (voted_for n1 = 0 \<or> ucast (voted_for n1) = sender_node_id rq) \<and> log_ok
              then bindr (rv_resp_set_granted True (msg_data rs2)) (\<lambda>d'.
                Inr (0, Some (unlock_node (n1\<lparr>voted_for := ucast (sender_node_id rq), last_heartbeat := now\<rparr>)),
                     Some (rs2\<lparr>msg_data := d'\<rparr>)))
              else Inr (0, Some (unlock_node n1), Some rs2))))
      | _ \<Rightarrow> Inr (-1, node, resp))"

section \<open>Senders\<close>

text \<open>\<open>raft_send_append_entries\<close>: \<open>next_index_addr\<close> is the address of the array
  \<open>next_index\<close>, which the code casts to a number; \<open>&data[i]\<close> of an array of
  \<open>kvs_command_t\<close> is 28 bytes times \<open>i\<close>. \<open>t1\<close> and \<open>t2\<close> are the clock at
  the start and at the end. The request is built and not sent.\<close>

definition ae_request_body ::
  "u64 \<Rightarrow> 'sm raft_node_t \<Rightarrow> bytes \<Rightarrow> nat \<Rightarrow> bytes res" where
  "ae_request_body next_index_addr n entries entries_len =
     (let body = replicate (entries_len + 2 * sizeof_kvsb_header_t) 0;
          header = kvsb_header_calc_checksum
            \<lparr>kh_term = current_term n, kh_num_commands = 0, kh_log_index = next_index_addr,
             kh_data_length = of_nat entries_len, header_checsum = \<lparr>low64 = 0, high64 = 0\<rparr>\<rparr>
      in
      bindr (memcpy_into body 8 (le_enc 8 (if current_term n = 0 then 0 else current_term n - 1))) (\<lambda>b1.
      bindr (memcpy_into b1 0 (le_enc 8 (next_index_addr - 1))) (\<lambda>b2.
      bindr (memcpy_into b2 16 (le_enc 8 (commit_index n))) (\<lambda>b3.
      bindr (memcpy_into b3 ae_req_entries_header (header_bytes header)) (\<lambda>b4.
      bindr (memcpy_into b4 (ae_req_entries_data + sizeof_kvs_command_t * entries_len) (header_bytes header)) (\<lambda>b5.
      bindr (rd_bytes entries 0 entries_len) (\<lambda>src.
        memcpy_into b5 ae_req_entries_data src)))))))"

definition raft_send_append_entries ::
  "(real \<Rightarrow> real) \<Rightarrow> timespec \<Rightarrow> timespec \<Rightarrow> u64 \<Rightarrow> 'sm raft_node_t option \<Rightarrow> u32
    \<Rightarrow> bytes option \<Rightarrow> nat \<Rightarrow> heap \<Rightarrow> (int \<times> 'sm raft_node_t option \<times> heap) res" where
  "raft_send_append_entries fl t1 t2 next_index_addr node target_id entries entries_len h =
     (case (node, entries) of
        (Some n0, Some es) \<Rightarrow>
          bindr (lock_node (raft_adaptive_rpc_start t1 n0)) (\<lambda>n.
            let (ok, h1) = h_alloc h in
            if \<not> ok then Inl Null_deref
            else
              bindr (ae_request_body next_index_addr n es entries_len) (\<lambda>req.
              if unat target_id < length (next_index n)
              then
                let n1 = unlock_node (n\<lparr>next_index :=
                      (next_index n)[unat target_id := next_index n ! unat target_id + of_nat entries_len]\<rparr>)
                in bindr (raft_adaptive_rpc_end fl t2 n1) (\<lambda>n2. Inr (0, Some n2, h1))
              else Inl Out_of_bounds))
      | _ \<Rightarrow> Inr (-1, node, h))"

text \<open>\<open>raft_send_request_vote\<close>: the request body is written over the start of the message
  header, not behind it. The second component is the message as it stands at the end.\<close>

definition rv_request_message :: "'sm raft_node_t \<Rightarrow> raft_msg_t res" where
  "rv_request_message n =
     (let req = \<lparr>body_length = 16, msg_term = current_term n, sender_node_id = ucast (node_id n),
                 rpc_type = RAFT_RPC_REQUEST_VOTE, msg_data = replicate 16 0\<rparr>;
          last_idx = log_count (rlog n)
      in bindr (if 0 < last_idx then bindr (entry_at (rlog n) (last_idx - 1)) (\<lambda>e. Inr (e_term e)) else Inr 0)
           (\<lambda>last_term. Inr (req\<lparr>body_length := last_idx, msg_term := last_term\<rparr>)))"

definition raft_send_request_vote ::
  "(real \<Rightarrow> real) \<Rightarrow> timespec \<Rightarrow> timespec \<Rightarrow> 'sm raft_node_t option \<Rightarrow> u32 \<Rightarrow> heap
    \<Rightarrow> (int \<times> raft_msg_t option \<times> 'sm raft_node_t option \<times> heap) res" where
  "raft_send_request_vote fl t1 t2 node target_id h =
     (case node of
        None \<Rightarrow> Inr (-1, None, None, h)
      | Some n0 \<Rightarrow>
          bindr (lock_node (raft_adaptive_rpc_start t1 n0)) (\<lambda>n.
            let (ok, h1) = h_alloc h in
            if \<not> ok then Inl Null_deref
            else bindr (rv_request_message n) (\<lambda>req.
                 bindr (raft_adaptive_rpc_end fl t2 (unlock_node n)) (\<lambda>n2. Inr (0, Some req, Some n2, h1)))))"

section \<open>What the handlers do\<close>

definition last_term :: "raft_log_t \<Rightarrow> u64" where
  "last_term l = (if log_entries l = [] then 0 else e_term (last (log_entries l)))"

text \<open>The log comparison of the Raft paper, section 5.4.1.\<close>

definition up_to_date :: "raft_log_t \<Rightarrow> u64 \<Rightarrow> u64 \<Rightarrow> bool" where
  "up_to_date l i t \<longleftrightarrow> last_term l < t \<or> t = last_term l \<and> log_count l \<le> i"

text \<open>The log matching test: there is no preceding entry, or the log has an entry with the
  given index and term.\<close>

definition matches :: "raft_log_t \<Rightarrow> u64 \<Rightarrow> u64 \<Rightarrow> bool" where
  "matches l i t \<longleftrightarrow> i = 0 \<or> unat i \<le> length (log_entries l) \<and> e_term (log_entries l ! (unat i - 1)) = t"

definition log_fits :: "raft_log_t \<Rightarrow> bool" where
  "log_fits l \<longleftrightarrow> length (log_entries l) < 2 ^ 63"

definition set_term :: "u64 \<Rightarrow> 'sm raft_node_t \<Rightarrow> 'sm raft_node_t" where
  "set_term t n = (if current_term n < t
     then n\<lparr>current_term := t, voted_for := 0, rstate := RAFT_STATE_FOLLOWER\<rparr> else n)"

lemma unat_log_count: "log_fits l \<Longrightarrow> unat (log_count l) = length (log_entries l)"
  by (simp add: log_count_def log_fits_def unat_of_nat_u64)

lemma entry_at_index:
  assumes "log_fits l" "0 < i" "unat i \<le> length (log_entries l)"
  shows "entry_at l (i - 1) = Inr (log_entries l ! (unat i - 1))"
proof -
  have i: "0 < unat i" using assms(2) by (simp add: word_less_nat_alt)
  then have "unat (i - 1) = unat i - 1" by (simp add: unat_sub word_le_nat_alt)
  with i assms(3) show ?thesis by (simp add: entry_at_def)
qed

lemma last_entry_term:
  assumes "log_fits l"
  shows "(if 0 < log_count l then bindr (entry_at l (log_count l - 1)) (\<lambda>e. Inr (e_term e)) else Inr 0)
    = Inr (last_term l)"
proof (cases "log_entries l = []")
  case True
  then show ?thesis by (simp add: log_count_def last_term_def)
next
  case False
  then have "0 < log_count l" using unat_log_count [OF assms] by (simp add: word_less_nat_alt)
  with False unat_log_count [OF assms] entry_at_index [OF assms, of "log_count l"] show ?thesis
    by (simp add: last_term_def last_conv_nth)
qed

lemma rv_log_ok_eq:
  assumes "log_fits l" "rv_req_last_log_index d = Inr i" "rv_req_last_log_term d = Inr t"
  shows "rv_log_ok l d = Inr (up_to_date l i t)"
  unfolding rv_log_ok_def Let_def last_entry_term [OF assms(1)]
  by (auto simp: assms up_to_date_def)

lemma ae_consistent_eq:
  assumes "log_fits l" "ae_req_prev_log_index d = Inr i" "ae_req_prev_log_term d = Inr t"
  shows "ae_consistent l d = Inr (matches l i t)"
  using entry_at_index [OF assms(1), of i] unat_log_count [OF assms(1)] assms(2,3)
  by (cases "i = 0") (auto simp: ae_consistent_def matches_def word_less_nat_alt unat_eq_0)

lemma set_granted:
  assumes "d \<noteq> []"
  obtains d' where "rv_resp_set_granted b d = Inr d'" "rv_resp_granted d' = Inr b" "d' \<noteq> []"
  using assms by (cases d) (auto simp: rv_resp_set_granted_def memcpy_into_def rv_resp_granted_def rd_bytes_def)

lemma set_success:
  assumes "d \<noteq> []"
  obtains d' where "ae_resp_set_success b d = Inr d'" "ae_resp_success d' = Inr b" "d' \<noteq> []"
  using assms by (cases d) (auto simp: ae_resp_set_success_def memcpy_into_def ae_resp_success_def rd_bytes_def)

lemma unlock_lock [simp]: "\<not> mutex_held n \<Longrightarrow> unlock_node (n\<lparr>mutex_held := True\<rparr>) = n"
  by (simp add: unlock_node_def)

text \<open>C15: \<open>raft_handle_request_vote\<close> on a node whose mutex is free. A request of an older
  term is refused and changes nothing. Otherwise a newer term is adopted first, and the vote is
  granted exactly when the node has not voted for another candidate in that term and the
  candidate's log is at least as up to date as its own; a grant records the candidate and
  resets the election timer. The response carries the term the node had before.\<close>

theorem request_vote_effect:
  assumes "\<not> mutex_held n" "log_fits (rlog n)" "msg_data rs \<noteq> []"
    and "rv_req_last_log_index (msg_data rq) = Inr i" "rv_req_last_log_term (msg_data rq) = Inr t"
  shows "\<exists>n' rs'. raft_handle_request_vote now (Some n) (Some rq) (Some rs) = Inr (0, Some n', Some rs')
    \<and> rpc_type rs' = RAFT_RPC_RESP_REQUEST_VOTE \<and> msg_term rs' = current_term n \<and> \<not> mutex_held n'
    \<and> (if msg_term rq < current_term n then n' = n \<and> rv_resp_granted (msg_data rs') = Inr False
       else let n1 = set_term (msg_term rq) n;
                granted = ((voted_for n1 = 0 \<or> ucast (voted_for n1) = sender_node_id rq) \<and> up_to_date (rlog n) i t)
            in rv_resp_granted (msg_data rs') = Inr granted
               \<and> n' = (if granted then n1\<lparr>voted_for := ucast (sender_node_id rq), last_heartbeat := now\<rparr> else n1))"
proof -
  obtain d where d: "rv_resp_set_granted False (msg_data rs) = Inr d" "rv_resp_granted d = Inr False" "d \<noteq> []"
    using set_granted [OF assms(3)] by metis
  obtain d' where d': "rv_resp_set_granted True d = Inr d'" "rv_resp_granted d' = Inr True"
    using set_granted [OF d(3)] by metis
  let ?n1 = "if current_term n < msg_term rq
       then n\<lparr>mutex_held := True, current_term := msg_term rq, rstate := RAFT_STATE_FOLLOWER, voted_for := 0\<rparr>
       else n\<lparr>mutex_held := True\<rparr>"
  have n1: "rlog ?n1 = rlog n" "unlock_node ?n1 = set_term (msg_term rq) n"
    "voted_for ?n1 = voted_for (set_term (msg_term rq) n)"
    "unlock_node (?n1\<lparr>voted_for := v, last_heartbeat := now\<rparr>)
      = (set_term (msg_term rq) n)\<lparr>voted_for := v, last_heartbeat := now\<rparr>" for v
    using assms(1) by (simp_all add: set_term_def unlock_node_def)
  have ok: "rv_log_ok (rlog n) (msg_data rq) = Inr (up_to_date (rlog n) i t)"
    by (rule rv_log_ok_eq [OF assms(2,4,5)])
  have free: "\<not> mutex_held (set_term (msg_term rq) n)" using assms(1) by (simp add: set_term_def)
  show ?thesis
  proof (cases "msg_term rq < current_term n")
    case True
    then show ?thesis using assms(1) d by (simp add: raft_handle_request_vote_def Let_def)
  next
    case False
    have run: "raft_handle_request_vote now (Some n) (Some rq) (Some rs) =
      (if (voted_for ?n1 = 0 \<or> ucast (voted_for ?n1) = sender_node_id rq) \<and> up_to_date (rlog n) i t
       then Inr (0, Some (unlock_node (?n1\<lparr>voted_for := ucast (sender_node_id rq), last_heartbeat := now\<rparr>)),
                 Some (rs\<lparr>rpc_type := RAFT_RPC_RESP_REQUEST_VOTE, msg_term := current_term n, msg_data := d'\<rparr>))
       else Inr (0, Some (unlock_node ?n1),
                 Some (rs\<lparr>rpc_type := RAFT_RPC_RESP_REQUEST_VOTE, msg_term := current_term n, msg_data := d\<rparr>)))"
      using False assms(1) d d' ok by (simp add: raft_handle_request_vote_def Let_def)
    show ?thesis
      using False d(2) d'(2) free unfolding run n1 Let_def by auto
  qed
qed

text \<open>C16: \<open>raft_handle_append_entries\<close> on a node whose mutex is free. A request of an
  older term is refused and changes nothing. Otherwise a newer term is adopted, the sender
  becomes the leader, the election timer is reset, and the answer is whether the log has the
  entry that precedes the new ones. The entries of the request are never appended and
  \<open>leader_commit\<close> is never used: log, commit index and state machine are unchanged.\<close>

theorem append_entries_effect:
  assumes "\<not> mutex_held n" "log_fits (rlog n)" "msg_data rs \<noteq> []" "rpc_type rq = RAFT_RPC_APPEND_ENTRIES"
    and "ae_req_prev_log_index (msg_data rq) = Inr i" "ae_req_prev_log_term (msg_data rq) = Inr t"
  shows "\<exists>n' rs' ok. raft_handle_append_entries now (Some n) (Some rq) (Some rs) = Inr (0, Some n', Some rs')
    \<and> rpc_type rs' = RAFT_RPC_RESP_APPEND_ENTRIES \<and> msg_term rs' = current_term n
    \<and> ae_resp_success (msg_data rs') = Inr ok \<and> \<not> mutex_held n'
    \<and> rlog n' = rlog n \<and> commit_index n' = commit_index n \<and> state_machine n' = state_machine n
    \<and> (if msg_term rq < current_term n then n' = n \<and> \<not> ok
       else n' = (set_term (msg_term rq) n)\<lparr>last_heartbeat := now, leader_id := ucast (sender_node_id rq)\<rparr>
            \<and> (ok \<longleftrightarrow> matches (rlog n) i t))"
proof -
  obtain d where d: "ae_resp_set_success False (msg_data rs) = Inr d" "ae_resp_success d = Inr False" "d \<noteq> []"
    using set_success [OF assms(3)] by metis
  obtain d' where d': "ae_resp_set_success True d = Inr d'" "ae_resp_success d' = Inr True"
    using set_success [OF d(3)] by metis
  let ?n2 = "(if current_term n < msg_term rq
       then n\<lparr>mutex_held := True, current_term := msg_term rq, voted_for := 0, rstate := RAFT_STATE_FOLLOWER\<rparr>
       else n\<lparr>mutex_held := True\<rparr>)\<lparr>last_heartbeat := now, leader_id := ucast (sender_node_id rq)\<rparr>"
  let ?m = "(set_term (msg_term rq) n)\<lparr>last_heartbeat := now, leader_id := ucast (sender_node_id rq)\<rparr>"
  have n2: "rlog ?n2 = rlog n" "unlock_node ?n2 = ?m"
    using assms(1) by (simp_all add: set_term_def unlock_node_def)
  have m: "\<not> mutex_held ?m" "rlog ?m = rlog n" "commit_index ?m = commit_index n" "state_machine ?m = state_machine n"
    using assms(1) by (simp_all add: set_term_def)
  have cons: "ae_consistent (rlog n) (msg_data rq) = Inr (matches (rlog n) i t)"
    by (rule ae_consistent_eq [OF assms(2,5,6)])
  show ?thesis
  proof (cases "msg_term rq < current_term n")
    case True
    then show ?thesis
      using assms(1,4) d by (auto simp: raft_handle_append_entries_def Let_def)
  next
    case False
    have run: "raft_handle_append_entries now (Some n) (Some rq) (Some rs) =
      (if \<not> matches (rlog n) i t
       then Inr (0, Some (unlock_node ?n2),
                 Some (rs\<lparr>msg_term := current_term n, rpc_type := RAFT_RPC_RESP_APPEND_ENTRIES, msg_data := d\<rparr>))
       else Inr (0, Some (unlock_node ?n2),
                 Some (rs\<lparr>msg_term := current_term n, rpc_type := RAFT_RPC_RESP_APPEND_ENTRIES, msg_data := d'\<rparr>)))"
      using False assms(1,4) d d' cons by (simp add: raft_handle_append_entries_def Let_def)
    show ?thesis
      using False d(2) d'(2) m unfolding run n2 by auto
  qed
qed

section \<open>Requests on concrete nodes\<close>

lemma ucast_u32_inj [simp]: "(ucast (a :: u32) :: u64) = ucast b \<longleftrightarrow> a = b"
  by (metis unat_ucast_u32 unsigned_word_eqI)

text \<open>A request for a vote, and an empty response.\<close>

definition vote_request :: "u64 \<Rightarrow> u64 \<Rightarrow> u64 \<Rightarrow> u64 \<Rightarrow> raft_msg_t" where
  "vote_request term sender idx lterm =
     \<lparr>body_length = 16, msg_term = term, sender_node_id = sender, rpc_type = RAFT_RPC_REQUEST_VOTE,
      msg_data = le_enc 8 idx @ le_enc 8 lterm\<rparr>"

definition blank_response :: raft_msg_t where
  "blank_response =
     \<lparr>body_length = 24, msg_term = 0, sender_node_id = 0, rpc_type = RAFT_RPC_RESP_REQUEST_VOTE,
      msg_data = replicate 24 0\<rparr>"

lemma vote_request_fields [simp]:
  "rv_req_last_log_index (msg_data (vote_request term sender idx lterm)) = Inr idx"
  "rv_req_last_log_term (msg_data (vote_request term sender idx lterm)) = Inr lterm"
  "msg_term (vote_request term sender idx lterm) = term"
  "sender_node_id (vote_request term sender idx lterm) = sender"
  "msg_data blank_response \<noteq> []"
  using rd_at_prefix [of "[]" 0 8 idx "le_enc 8 lterm"] rd_at_prefix [of "le_enc 8 idx" 8 8 lterm "[]"]
  by (simp_all add: rv_req_last_log_index_def rv_req_last_log_term_def vote_request_def blank_response_def)

lemma vote_for_empty_log:
  assumes "\<not> mutex_held n" "log_entries (rlog n) = []" "current_term n \<le> term"
    and "current_term n < term \<or> voted_for n = 0 \<or> ucast (voted_for n) = sender"
  obtains n' rs' where "raft_handle_request_vote now (Some n) (Some (vote_request term sender idx lterm)) (Some blank_response)
      = Inr (0, Some n', Some rs')" "rv_resp_granted (msg_data rs') = Inr True"
    "current_term n' = term" "voted_for n' = ucast sender" "\<not> mutex_held n'" "rlog n' = rlog n" "rstate n' = rstate n \<or> rstate n' = RAFT_STATE_FOLLOWER"
    "node_id n' = node_id n" "batcher n' = batcher n"
proof -
  have fits: "log_fits (rlog n)" using assms(2) by (simp add: log_fits_def)
  have up: "up_to_date (rlog n) idx lterm"
    using assms(2) by (auto simp: up_to_date_def last_term_def log_count_def word_neq_0_conv [symmetric] simp del: word_neq_0_conv)
  have "voted_for (set_term term n) = 0 \<or> ucast (voted_for (set_term term n)) = sender"
    using assms(4) by (auto simp: set_term_def)
  with request_vote_effect [OF assms(1) fits, of blank_response "vote_request term sender idx lterm" idx lterm now]
    up assms(3) show thesis
    by (auto simp: Let_def set_term_def intro!: that split: if_splits)
qed

text \<open>A candidate with node id 0, as a cluster of this program has one, is not remembered:
  0 also means that no vote was cast, so the node votes for node 0 and then for node 2 in the
  same term.\<close>

theorem node_zero_votes_twice:
  "\<exists>n1 rs1 n2 rs2.
     raft_handle_request_vote 0 (Some sample_node) (Some (vote_request 5 0 0 0)) (Some blank_response) = Inr (0, Some n1, Some rs1)
   \<and> raft_handle_request_vote 0 (Some n1) (Some (vote_request 5 2 0 0)) (Some blank_response) = Inr (0, Some n2, Some rs2)
   \<and> rv_resp_granted (msg_data rs1) = Inr True \<and> rv_resp_granted (msg_data rs2) = Inr True"
proof -
  have pre: "\<not> mutex_held sample_node" "log_entries (rlog sample_node) = []"
    "current_term sample_node \<le> 5" "current_term sample_node < 5 \<or> voted_for sample_node = 0 \<or> ucast (voted_for sample_node) = (0 :: u64)"
    by simp_all
  obtain n1 rs1 where v1: "raft_handle_request_vote 0 (Some sample_node) (Some (vote_request 5 0 0 0)) (Some blank_response)
      = Inr (0, Some n1, Some rs1)" "rv_resp_granted (msg_data rs1) = Inr True" "current_term n1 = 5"
      "voted_for n1 = 0" "\<not> mutex_held n1" "rlog n1 = rlog sample_node"
    by (rule vote_for_empty_log [OF pre, of 0 0 0]) (rule that, simp_all)
  have pre1: "\<not> mutex_held n1" "log_entries (rlog n1) = []" "current_term n1 \<le> 5"
    "current_term n1 < 5 \<or> voted_for n1 = 0 \<or> ucast (voted_for n1) = (2 :: u64)"
    using v1 by simp_all
  obtain n2 rs2 where "raft_handle_request_vote 0 (Some n1) (Some (vote_request 5 2 0 0)) (Some blank_response)
      = Inr (0, Some n2, Some rs2)" "rv_resp_granted (msg_data rs2) = Inr True"
    using vote_for_empty_log [OF pre1, of 0 0 0] by metis
  with v1 show ?thesis by blast
qed

text \<open>\<open>raft_become_follower\<close> forgets the vote even when the term does not change: a
  node that voted for node 2 in term 5 and is told to become a follower of term 5 votes for
  node 3 in the same term.\<close>

theorem become_follower_votes_twice:
  "\<exists>n1 rs1 n2 n3 rs3.
     raft_handle_request_vote 0 (Some sample_node) (Some (vote_request 5 2 0 0)) (Some blank_response) = Inr (0, Some n1, Some rs1)
   \<and> raft_become_follower 0 zero_timespec None (Some n1) 5 empty_heap = Inr (Some n2, empty_heap)
   \<and> raft_handle_request_vote 0 (Some n2) (Some (vote_request 5 3 0 0)) (Some blank_response) = Inr (0, Some n3, Some rs3)
   \<and> rv_resp_granted (msg_data rs1) = Inr True \<and> rv_resp_granted (msg_data rs3) = Inr True"
proof -
  have pre: "\<not> mutex_held sample_node" "log_entries (rlog sample_node) = []"
    "current_term sample_node \<le> 5" "current_term sample_node < 5 \<or> voted_for sample_node = 0 \<or> ucast (voted_for sample_node) = (2 :: u64)"
    by simp_all
  obtain n1 rs1 where v1: "raft_handle_request_vote 0 (Some sample_node) (Some (vote_request 5 2 0 0)) (Some blank_response)
      = Inr (0, Some n1, Some rs1)" "rv_resp_granted (msg_data rs1) = Inr True" "\<not> mutex_held n1"
      "rlog n1 = rlog sample_node" "rstate n1 = RAFT_STATE_FOLLOWER"
    by (rule vote_for_empty_log [OF pre, of 0 0 0]) (rule that, simp_all)
  let ?n2 = "unlock_node ((raft_adaptive_record_heartbeat (n1\<lparr>mutex_held := True, rstate := RAFT_STATE_FOLLOWER,
      current_term := 5, voted_for := 0, votes_received := 0, leader_id := 0\<rparr>))\<lparr>last_heartbeat := 0\<rparr>)"
  have f: "raft_become_follower 0 zero_timespec None (Some n1) 5 empty_heap = Inr (Some ?n2, empty_heap)"
    using v1 by (simp add: raft_become_follower_def Let_def)
  have "current_term ?n2 = 5" "voted_for ?n2 = 0" "\<not> mutex_held ?n2" "rlog ?n2 = rlog n1"
    by (simp_all add: unlock_node_def raft_adaptive_record_heartbeat_def split: option.splits)
  then have pre2: "\<not> mutex_held ?n2" "log_entries (rlog ?n2) = []" "current_term ?n2 \<le> 5"
    "current_term ?n2 < 5 \<or> voted_for ?n2 = 0 \<or> ucast (voted_for ?n2) = (3 :: u64)"
    using v1 by simp_all
  obtain n3 rs3 where "raft_handle_request_vote 0 (Some ?n2) (Some (vote_request 5 3 0 0)) (Some blank_response)
      = Inr (0, Some n3, Some rs3)" "rv_resp_granted (msg_data rs3) = Inr True"
    by (rule vote_for_empty_log [OF pre2, of 0 0 0]) (rule that, simp_all)
  with v1 f show ?thesis by blast
qed

theorem request_vote_effect_witness:
  "\<exists>n' rs'. raft_handle_request_vote 7 (Some sample_node) (Some (vote_request 5 2 0 0)) (Some blank_response)
      = Inr (0, Some n', Some rs') \<and> current_term n' = 5 \<and> voted_for n' = 2
    \<and> rv_resp_granted (msg_data rs') = Inr True"
  using request_vote_effect [of sample_node blank_response "vote_request 5 2 0 0" 0 0 7]
  by (auto simp: log_fits_def set_term_def up_to_date_def last_term_def log_count_def Let_def split: if_splits)

definition append_request :: "u64 \<Rightarrow> u64 \<Rightarrow> u64 \<Rightarrow> u64 \<Rightarrow> u64 \<Rightarrow> raft_msg_t" where
  "append_request term sender prev_idx prev_term commit =
     \<lparr>body_length = 80, msg_term = term, sender_node_id = sender, rpc_type = RAFT_RPC_APPEND_ENTRIES,
      msg_data = le_enc 8 prev_idx @ le_enc 8 prev_term @ le_enc 8 commit @ replicate 56 0\<rparr>"

lemma append_request_fields [simp]:
  "ae_req_prev_log_index (msg_data (append_request term sender i t c)) = Inr i"
  "ae_req_prev_log_term (msg_data (append_request term sender i t c)) = Inr t"
  "msg_term (append_request term sender i t c) = term"
  "sender_node_id (append_request term sender i t c) = sender"
  "rpc_type (append_request term sender i t c) = RAFT_RPC_APPEND_ENTRIES"
  using rd_at_prefix [of "[]" 0 8 i] rd_at_prefix [of "le_enc 8 i" 8 8 t]
  by (simp_all add: ae_req_prev_log_index_def ae_req_prev_log_term_def append_request_def)

theorem append_entries_effect_witness:
  "\<exists>n' rs'. raft_handle_append_entries 9 (Some sample_node) (Some (append_request 3 2 1 1 8)) (Some blank_response)
      = Inr (0, Some n', Some rs') \<and> current_term n' = 3 \<and> leader_id n' = 2
    \<and> ae_resp_success (msg_data rs') = Inr False"
  using append_entries_effect [of sample_node blank_response "append_request 3 2 1 1 8" 1 1 9]
  by (auto simp: log_fits_def set_term_def matches_def)

section \<open>The senders\<close>

text \<open>\<open>raft_send_append_entries\<close> never completes: whenever its buffer is allocated, the
  second copy of the batch header is written past the end of it, since \<open>&data[entries_len]\<close>
  scales by the size of a command and the request structure is not counted in the size.\<close>

theorem send_append_entries_overflow:
  assumes "\<not> mutex_held n" "h_alloc h = (True, h1)"
  shows "raft_send_append_entries fl t1 t2 addr (Some n) target (Some entries) len h = Inl Out_of_bounds"
proof -
  have "ae_request_body addr m entries len = Inl Out_of_bounds" for m :: "'a raft_node_t"
    by (simp add: ae_request_body_def memcpy_into_def header_bytes_def sizeof_kvsb_header_t_def
        ae_req_entries_header_def ae_req_entries_data_def sizeof_kvs_command_t_def Let_def)
  moreover have "\<not> mutex_held (raft_adaptive_rpc_start t1 n)"
    using assms(1) by (simp add: raft_adaptive_rpc_start_def split: option.splits)
  ultimately show ?thesis using assms(2) by (simp add: raft_send_append_entries_def)
qed

theorem send_append_entries_overflow_witness:
  "raft_send_append_entries round20 zero_timespec zero_timespec 64 (Some sample_node) 2
      (Some [1, 2, 3]) 3 empty_heap = Inl Out_of_bounds"
  by (rule send_append_entries_overflow) (simp_all add: h_alloc_def empty_heap_def)

text \<open>\<open>raft_send_request_vote\<close> builds a request whose header says neither the term of
  the candidate nor the length of the body: both are overwritten by the log index and the log
  term, and the body stays empty. A node that votes on such a request reads 0 for both.\<close>

theorem send_request_vote_header:
  assumes "log_fits (rlog n)" "rv_request_message n = Inr m"
  shows "body_length m = log_count (rlog n) \<and> msg_term m = last_term (rlog n)
    \<and> sender_node_id m = ucast (node_id n) \<and> rpc_type m = RAFT_RPC_REQUEST_VOTE
    \<and> rv_req_last_log_index (msg_data m) = Inr 0 \<and> rv_req_last_log_term (msg_data m) = Inr 0"
proof -
  have m: "m = \<lparr>body_length = log_count (rlog n), msg_term = last_term (rlog n), sender_node_id = ucast (node_id n),
      rpc_type = RAFT_RPC_REQUEST_VOTE, msg_data = replicate 16 0\<rparr>"
    using assms(2) last_entry_term [OF assms(1)] by (simp add: rv_request_message_def Let_def)
  have z: "le_dec (replicate 8 0) = (0 :: u64)" by (simp add: numeral_eq_Suc)
  show ?thesis by (simp add: m rv_req_last_log_index_def rv_req_last_log_term_def rd_def z)
qed

theorem send_request_vote_header_witness:
  "\<exists>m. rv_request_message (sample_node\<lparr>current_term := 9\<rparr>) = Inr m \<and> msg_term m = 0 \<and> body_length m = 0"
proof -
  obtain m where m: "rv_request_message (sample_node\<lparr>current_term := 9\<rparr>) = Inr m"
    by (simp add: rv_request_message_def log_count_def)
  with send_request_vote_header [OF _ m] show ?thesis
    by (simp add: log_fits_def log_count_def last_term_def)
qed

end
