(* ===== verification/Raft_Apply.thy ===== *)
theory Raft_Apply
  imports Raft_Rpc
begin

text \<open>
  The part of \<open>src/raft_core.c\<close> that connects the log with the state machine and with the
  clients: \<open>apply_command_batch\<close>, \<open>raft_apply_committed_entries\<close>,
  \<open>raft_init_state_machine\<close> and \<open>raft_handle_client_command\<close>. The operation of the
  state machine is an argument of the definitions; the locale \<open>command_machine\<close> is what the
  walk over a batch relies on, and its interpretation is \<open>kv_state_machine_apply\<close>.
\<close>

section \<open>Applying a batch\<close>

type_synonym 'sm apply_fn = "'sm \<Rightarrow> cmd_ptr option \<Rightarrow> (int \<times> (bytes option \<times> int) \<times> 'sm) res"

lemma kvs_command_len_pos:
  assumes "kvs_command_len base bs off = Inr w"
  shows "32 \<le> unat w"
proof -
  from assms obtain v k :: u32 where w: "w = jump_to_alignment (of_nat sizeof_kvs_command_t
      + jump_to_alignment (ucast v) 4 + ucast k + 1) 8"
    by (auto simp: kvs_command_len_def Let_def)
  let ?v = "ucast v :: u64" and ?k = "ucast k :: u64"
  have bv: "unat ?v < 2 ^ 32" and bk: "unat ?k < 2 ^ 32"
    using unat_u32_bound [of v] unat_u32_bound [of k] by (simp_all only: unat_ucast_u32)
  have a4: "unat (jump_to_alignment ?v 4) = (unat ?v + 3) div 4 * 4"
    using bv by (subst jump_to_alignment_4) simp_all
  have d: "(unat ?v + 3) div 4 * 4 \<le> unat ?v + 3" by simp
  let ?len = "of_nat sizeof_kvs_command_t + jump_to_alignment ?v 4 + ?k + 1 :: u64"
  have len: "unat ?len = 29 + (unat ?v + 3) div 4 * 4 + unat ?k"
    using bv bk d by (simp add: sizeof_kvs_command_t_def unat_word_ariths a4 del: unat_ucast_u32)
  have "unat w = (unat ?len + 7) div 8 * 8"
    unfolding w using bv bk d len by (subst jump_to_alignment_8) simp_all
  then show ?thesis unfolding len by presburger
qed

text \<open>\<open>apply_command_batch\<close>: the loop. \<open>n\<close> is the number of bytes of the block that
  are left; every command is at least 32 bytes long, so the loop ends.\<close>

function apply_batch_loop ::
  "'sm apply_fn \<Rightarrow> bytes \<Rightarrow> nat \<Rightarrow> nat \<Rightarrow> int \<Rightarrow> 'sm \<Rightarrow> (int \<times> 'sm) res" where
  "apply_batch_loop apply bs batch_size offset result s =
     (if \<not> offset < batch_size then Inr (result, s)
      else
        bindr (apply s (Some (malloc_base, bs, offset))) (\<lambda>(cmd_result, _, s').
        let result' = (if cmd_result \<noteq> 0 then cmd_result else result) in
        bindr (kvs_command_len malloc_base bs offset) (\<lambda>cmd_size.
          apply_batch_loop apply bs batch_size (offset + unat cmd_size) result' s')))"
  by pat_completeness auto

termination
  by (relation "measure (\<lambda>(_, _, batch_size, offset, _, _). batch_size - offset)")
    (auto dest: kvs_command_len_pos)

declare apply_batch_loop.simps [simp del]

lemma apply_batch_loop_step:
  assumes "off < L" "app s (Some (malloc_base, bs, off)) = Inr (rc, r, s')"
    and "kvs_command_len malloc_base bs off = Inr w"
  shows "apply_batch_loop app bs L off r0 s
    = apply_batch_loop app bs L (off + unat w) (if rc \<noteq> 0 then rc else r0) s'"
  using assms by (subst apply_batch_loop.simps) simp

definition apply_command_batch ::
  "'sm apply_fn \<Rightarrow> 'sm raft_node_t \<Rightarrow> bytes option \<Rightarrow> nat \<Rightarrow> (int \<times> 'sm raft_node_t) res" where
  "apply_command_batch apply n batch_data batch_size =
     (case (state_machine n, batch_data) of
        (Some s, Some bs) \<Rightarrow>
          if batch_size = 0 then Inr (-1, n)
          else bindr (apply_batch_loop apply bs batch_size 0 0 s) (\<lambda>(r, s'). Inr (r, n\<lparr>state_machine := Some s'\<rparr>))
      | _ \<Rightarrow> Inr (-1, n))"

section \<open>Applying the committed entries\<close>

text \<open>The data pointer of an entry, as a command pointer.\<close>

definition entry_data :: "heap \<Rightarrow> raft_entry_t \<Rightarrow> bytes option res" where
  "entry_data h e = (case e_data e of None \<Rightarrow> Inr None | Some a \<Rightarrow> bindr (h_load h (Some a)) (\<lambda>bs. Inr (Some bs)))"

text \<open>The application of one entry: the whole block when it holds more than one command.\<close>

definition apply_entry ::
  "'sm apply_fn \<Rightarrow> heap \<Rightarrow> raft_entry_t \<Rightarrow> 'sm raft_node_t \<Rightarrow> (int \<times> 'sm raft_node_t) res" where
  "apply_entry apply h e n =
     bindr (entry_data h e) (\<lambda>data.
     let single =
       (case state_machine n of
          None \<Rightarrow> Inl Null_deref
        | Some s \<Rightarrow> bindr (apply s (map_option (\<lambda>bs. (malloc_base, bs, 0)) data))
            (\<lambda>(r, _, s'). Inr (r, n\<lparr>state_machine := Some s'\<rparr>)))
     in if sizeof_kvs_command_t < e_data_len e
        then (case data of
                None \<Rightarrow> Inl Null_deref
              | Some bs \<Rightarrow>
                  bindr (kvs_command_len malloc_base bs 0) (\<lambda>first_cmd_len.
                    if unat first_cmd_len < e_data_len e
                    then apply_command_batch apply n data (e_data_len e)
                    else single))
        else single)"

text \<open>The loop over the entries from \<open>last_applied + 1\<close> on; the second argument is the
  rest of the log, whose end is the \<open>break\<close>.\<close>

fun apply_loop ::
  "'sm apply_fn \<Rightarrow> heap \<Rightarrow> u64 \<Rightarrow> u64 \<Rightarrow> raft_entry_t list \<Rightarrow> 'sm raft_node_t \<Rightarrow> 'sm raft_node_t res" where
  "apply_loop apply h commit i [] n = Inr n"
| "apply_loop apply h commit i (e # es) n =
     (if commit < i then Inr n
      else if e_type e \<noteq> RAFT_ENTRY_COMMAND then apply_loop apply h commit (i + 1) es (n\<lparr>last_applied := i\<rparr>)
      else bindr (apply_entry apply h e n) (\<lambda>(_, n').
           apply_loop apply h commit (i + 1) es (n'\<lparr>last_applied := i\<rparr>)))"

definition raft_apply_committed_entries ::
  "'sm apply_fn \<Rightarrow> heap \<Rightarrow> 'sm raft_node_t option \<Rightarrow> (int \<times> 'sm raft_node_t option) res" where
  "raft_apply_committed_entries apply h node =
     nonnull (-1) node (\<lambda>n0.
       if state_machine n0 = None then Inr (-1, n0)
       else bindr (lock_node n0) (\<lambda>n.
         if commit_index n \<le> last_applied n then Inr (0, unlock_node n)
         else bindr (apply_loop apply h (commit_index n) (last_applied n + 1)
                (drop (unat (last_applied n)) (log_entries (rlog n))) n) (\<lambda>n'. Inr (0, unlock_node n'))))"

text \<open>\<open>apply_thread_func\<close>: one pass per tick while the flag is set; the list gives the
  flag's value at each test of the loop, the heap at each pass.\<close>

fun apply_thread_func ::
  "'sm apply_fn \<Rightarrow> (bool \<times> heap) list \<Rightarrow> 'sm raft_node_t \<Rightarrow> 'sm raft_node_t res" where
  "apply_thread_func apply [] n = Inr n"
| "apply_thread_func apply ((running, h) # ticks) n =
     (if \<not> running then Inr n
      else bindr (raft_apply_committed_entries apply h (Some n)) (\<lambda>(_, n').
           apply_thread_func apply ticks (the n')))"

definition raft_init_state_machine ::
  "'sm raft_node_t option \<Rightarrow> 'sm option \<Rightarrow> heap \<Rightarrow> (int \<times> 'sm raft_node_t option \<times> heap) res" where
  "raft_init_state_machine node kv_store h =
     (case (node, kv_store) of
        (Some n0, Some kv) \<Rightarrow>
          bindr (lock_node n0) (\<lambda>n.
            let (ok, h') = h_alloc h in
            if \<not> ok then Inr (-1, Some (unlock_node n), h')
            else Inr (0, Some (unlock_node (n\<lparr>state_machine := Some kv\<rparr>)), h'))
      | _ \<Rightarrow> Inr (-1, node, h))"

section \<open>Client commands\<close>

text \<open>\<open>raft_handle_client_command\<close>: \<open>cmd_size\<close> is truncated to 32 bits by the call of
  \<open>command_batcher_add_command\<close>.\<close>

definition append_directly :: "bytes \<Rightarrow> u64 \<Rightarrow> 'sm raft_node_t \<Rightarrow> heap \<Rightarrow> ('sm raft_node_t \<times> heap) res" where
  "append_directly src cmd_size n h =
     bindr (raft_create_entry (current_term n) RAFT_ENTRY_COMMAND (Some src) (unat cmd_size) h) (\<lambda>(entry, h1).
     bindr (raft_append_entry (Some n) entry h1) (\<lambda>(_, n1, entry1, h2).
     bindr (raft_replicate_logs n1) (\<lambda>(_, n2).
       case entry1 of
         None \<Rightarrow> Inl Null_deref
       | Some e \<Rightarrow> bindr (h_free (e_data e) h2) (\<lambda>h3. Inr (the n2, h3)))))"

definition raft_handle_client_command ::
  "'sm raft_node_t option \<Rightarrow> cmd_ptr option \<Rightarrow> heap \<Rightarrow> (int \<times> 'sm raft_node_t option \<times> heap) res" where
  "raft_handle_client_command node cmd h =
     (case (node, cmd) of
        (Some n, Some (base, bs, off)) \<Rightarrow>
          if rstate n \<noteq> RAFT_STATE_LEADER then Inr (-2, Some n, h)
          else
            bindr (kvs_command_len base bs off) (\<lambda>cmd_size.
            bindr (command_batcher_add_command (Some (batcher n)) (Some (drop off bs)) (ucast cmd_size)) (\<lambda>(added, b).
            let n1 = n\<lparr>batcher := the b\<rparr> in
            if added then Inr (0, Some n1, h)
            else bindr (append_directly (drop off bs) cmd_size n1 h) (\<lambda>(n2, h2). Inr (0, Some n2, h2))))
      | _ \<Rightarrow> Inr (-1, node, h))"

section \<open>What is applied\<close>

text \<open>The contract of a state machine: on a ready state it returns for every encoded command,
  and the state it leaves depends on the command only.\<close>

locale command_machine =
  fixes app :: "'sm apply_fn" and ready :: "'sm \<Rightarrow> bool" and sm_step :: "'sm \<Rightarrow> kvs_cmd \<Rightarrow> 'sm"
  assumes apply_step: "ready s \<Longrightarrow> kvs_at malloc_base bs off c \<Longrightarrow>
      \<exists>rc r. app s (Some (malloc_base, bs, off)) = Inr (rc, r, sm_step s c) \<and> ready (sm_step s c)"
begin

lemma batch_loop:
  assumes "ready s" "\<forall>c \<in> set (ds @ cs). kvs_wf c" "length (kvs_batch (ds @ cs)) < 2 ^ 63"
  shows "\<exists>r. apply_batch_loop app (kvs_batch (ds @ cs)) (length (kvs_batch (ds @ cs))) (length (kvs_batch ds)) r0 s
      = Inr (r, foldl sm_step s cs) \<and> ready (foldl sm_step s cs)"
  using assms
proof (induction cs arbitrary: ds s r0)
  case Nil
  then show ?case by (simp add: apply_batch_loop.simps)
next
  case (Cons c cs)
  have wf: "kvs_wf c" using Cons.prems(2) by simp
  have at: "kvs_at malloc_base (kvs_batch (ds @ c # cs)) (length (kvs_batch ds)) c"
    using wf Cons.prems(3) by (intro kvs_at_batch) (simp_all add: malloc_base_def)
  obtain rc r where a: "app s (Some (malloc_base, kvs_batch (ds @ c # cs), length (kvs_batch ds))) = Inr (rc, r, sm_step s c)"
    "ready (sm_step s c)"
    using apply_step [OF Cons.prems(1) at] by blast
  have len: "unat (of_nat (length (kvs_encode c)) :: u64) = length (kvs_encode c)"
    using Cons.prems(3) by (intro unat_of_nat_u64) simp
  have lt: "length (kvs_batch ds) < length (kvs_batch (ds @ c # cs))" by (rule kvs_batch_lt [OF wf])
  have next_off: "length (kvs_batch ds) + length (kvs_encode c) = length (kvs_batch (ds @ [c]))" by simp
  have same: "ds @ c # cs = (ds @ [c]) @ cs" by simp
  obtain r' where rest: "apply_batch_loop app (kvs_batch (ds @ c # cs)) (length (kvs_batch (ds @ c # cs)))
      (length (kvs_batch (ds @ [c]))) (if rc \<noteq> 0 then rc else r0) (sm_step s c)
      = Inr (r', foldl sm_step (sm_step s c) cs)" "ready (foldl sm_step (sm_step s c) cs)"
    using Cons.IH [OF a(2), of "ds @ [c]" "if rc \<noteq> 0 then rc else r0"] Cons.prems(2,3) unfolding same by auto
  from apply_batch_loop_step [where app = app and s = s and ?r0.0 = r0, OF lt a(1) kvs_at_command_len [OF at]] rest show ?case
    unfolding len next_off foldl_Cons by simp
qed

end

text \<open>An entry whose data block holds the encoded commands \<open>cs\<close>; a no-op holds none.\<close>

definition entry_holds :: "heap \<Rightarrow> raft_entry_t \<Rightarrow> kvs_cmd list \<Rightarrow> bool" where
  "entry_holds h e cs \<longleftrightarrow>
     (if e_type e = RAFT_ENTRY_COMMAND
      then cs \<noteq> [] \<and> (\<forall>c \<in> set cs. kvs_wf c) \<and> length (kvs_batch cs) < 2 ^ 63
           \<and> e_data e \<noteq> None \<and> h_load h (e_data e) = Inr (kvs_batch cs) \<and> e_data_len e = length (kvs_batch cs)
      else cs = [])"

context command_machine
begin

lemma apply_entry_holds:
  assumes "entry_holds h e cs" "e_type e = RAFT_ENTRY_COMMAND" "state_machine n = Some s" "ready s"
  shows "\<exists>r. apply_entry app h e n = Inr (r, n\<lparr>state_machine := Some (foldl sm_step s cs)\<rparr>)
    \<and> ready (foldl sm_step s cs)"
proof -
  let ?bs = "kvs_batch cs"
  from assms(1,2) obtain a where h: "cs \<noteq> []" "\<forall>c \<in> set cs. kvs_wf c" "length ?bs < 2 ^ 63" "e_data e = Some a"
    "h_load h (Some a) = Inr ?bs" "e_data_len e = length ?bs"
    by (auto simp: entry_holds_def)
  then obtain c ds where cs: "cs = c # ds" by (cases cs) auto
  have wf: "kvs_wf c" using h(2) cs by simp
  have at: "kvs_at malloc_base ?bs 0 c"
    using kvs_at_batch [of c malloc_base "[]" ds] wf h(3) by (simp add: cs malloc_base_def)
  have len: "unat (of_nat (length (kvs_encode c)) :: u64) = length (kvs_encode c)"
    using h(3) by (intro unat_of_nat_u64) (simp add: cs)
  have big: "sizeof_kvs_command_t < e_data_len e"
    using h(6) kvs_encode_min [OF wf] by (simp add: cs sizeof_kvs_command_t_def)
  have d: "entry_data h e = Inr (Some ?bs)" using h(4,5) by (simp add: entry_data_def)
  show ?thesis
  proof (cases ds)
    case Nil
    obtain rc r where "app s (Some (malloc_base, ?bs, 0)) = Inr (rc, r, sm_step s c)" "ready (sm_step s c)"
      using apply_step [OF assms(4) at] by blast
    then show ?thesis
      using d big h(6) kvs_at_command_len [OF at] len assms(3) Nil
      by (simp add: apply_entry_def cs Let_def)
  next
    case (Cons c' ds')
    have wf': "kvs_wf c'" using h(2) cs Cons by simp
    have more: "length (kvs_encode c) < e_data_len e"
      using h(6) kvs_encode_min [OF wf'] unfolding cs Cons kvs_batch_simps length_append by linarith
    obtain r where r: "apply_batch_loop app ?bs (length ?bs) 0 0 s = Inr (r, foldl sm_step s cs)"
      "ready (foldl sm_step s cs)"
      using batch_loop [of s "[]" cs 0] h(2,3) assms(4) by auto
    have "length ?bs \<noteq> 0" using big h(6) by (metis less_nat_zero_code)
    then have "apply_command_batch app n (Some ?bs) (length ?bs)
        = Inr (r, n\<lparr>state_machine := Some (foldl sm_step s cs)\<rparr>)"
      using assms(3) r(1) by (simp add: apply_command_batch_def)
    then show ?thesis
      using d big more h(6) kvs_at_command_len [OF at] len r(2) by (simp add: apply_entry_def)
  qed
qed

text \<open>One turn of the apply loop.\<close>

lemma apply_loop_turn:
  assumes "entry_holds h e cs" "state_machine n = Some s" "ready s" "\<not> commit < i"
  shows "ready (foldl sm_step s cs) \<and> apply_loop app h commit i (e # es) n
    = apply_loop app h commit (i + 1) es (n\<lparr>state_machine := Some (foldl sm_step s cs), last_applied := i\<rparr>)"
proof (cases "e_type e = RAFT_ENTRY_COMMAND")
  case True
  obtain r where "apply_entry app h e n = Inr (r, n\<lparr>state_machine := Some (foldl sm_step s cs)\<rparr>)"
    "ready (foldl sm_step s cs)"
    using apply_entry_holds [OF assms(1) True assms(2,3)] by blast
  with True assms(4) show ?thesis by simp
next
  case False
  then have "cs = []" using assms(1) by (simp add: entry_holds_def)
  moreover have "n\<lparr>state_machine := Some s, last_applied := i\<rparr> = n\<lparr>last_applied := i\<rparr>" using assms(2) by simp
  ultimately show ?thesis using False assms(3,4) by simp
qed

lemma apply_loop_holds:
  assumes "list_all2 (entry_holds h) es css" "state_machine n = Some s" "ready s"
    and "unat i + length es < 2 ^ 64" "0 < unat i"
  shows "\<exists>n'. apply_loop app h commit i es n = Inr n'
    \<and> ready (foldl sm_step s (concat (take (Suc (unat commit) - unat i) css)))
    \<and> n' = n\<lparr>state_machine := Some (foldl sm_step s (concat (take (Suc (unat commit) - unat i) css))),
            last_applied := last_applied n'\<rparr>
    \<and> last_applied n' = (if min (Suc (unat commit) - unat i) (length es) = 0 then last_applied n
         else of_nat (unat i + min (Suc (unat commit) - unat i) (length es) - 1))"
  using assms
proof (induction es css arbitrary: i n s rule: list_all2_induct)
  case Nil
  then show ?case by simp
next
  case (Cons e es cs css)
  show ?case
  proof (cases "commit < i")
    case True
    then have "Suc (unat commit) - unat i = 0" by (simp add: word_less_nat_alt)
    with True Cons.prems show ?thesis by simp
  next
    case False
    then have le: "unat i \<le> unat commit" by (simp add: word_less_nat_alt not_less)
    have u: "unat (i + 1) = unat i + 1" using Cons.prems(3) by (simp add: unat_word_ariths)
    then have k: "Suc (unat commit) - unat i = Suc (Suc (unat commit) - unat (i + 1))" using le by simp
    have ib: "of_nat (unat i) = i" by simp
    define n1 where "n1 = n\<lparr>state_machine := Some (foldl sm_step s cs), last_applied := i\<rparr>"
    have n1: "state_machine n1 = Some (foldl sm_step s cs)" "ready (foldl sm_step s cs)"
      "apply_loop app h commit i (e # es) n = apply_loop app h commit (i + 1) es n1" "last_applied n1 = i"
      using apply_loop_turn [OF Cons.hyps(1) Cons.prems(1,2) False, of es] unfolding n1_def
      by (simp_all del: apply_loop.simps)
    from Cons.IH [OF n1(1,2), of "i + 1"] Cons.prems(3,4) u obtain n' where n':
      "apply_loop app h commit (i + 1) es n1 = Inr n'"
      "ready (foldl sm_step (foldl sm_step s cs) (concat (take (Suc (unat commit) - unat (i + 1)) css)))"
      "n' = n1\<lparr>state_machine := Some (foldl sm_step (foldl sm_step s cs) (concat (take (Suc (unat commit) - unat (i + 1)) css))),
            last_applied := last_applied n'\<rparr>"
      "last_applied n' = (if min (Suc (unat commit) - unat (i + 1)) (length es) = 0 then last_applied n1
         else of_nat (unat (i + 1) + min (Suc (unat commit) - unat (i + 1)) (length es) - 1))"
      by auto
    have f: "foldl sm_step s (concat (take (Suc (unat commit) - unat i) (cs # css)))
      = foldl sm_step (foldl sm_step s cs) (concat (take (Suc (unat commit) - unat (i + 1)) css))"
      unfolding k by simp
    have n'': "n' = n\<lparr>state_machine := Some (foldl sm_step s (concat (take (Suc (unat commit) - unat i) (cs # css)))),
            last_applied := last_applied n'\<rparr>"
      unfolding f using n'(3) by (subst n'(3), subst n1_def) simp
    have la: "last_applied n' = of_nat (unat i + min (Suc (unat commit) - unat i) (length (e # es)) - 1)"
      using n'(4) n1(4) ib unfolding u k by (auto simp: min_def split: if_splits)
    have nz: "min (Suc (unat commit) - unat i) (length (e # es)) \<noteq> 0" using le by simp
    have "apply_loop app h commit i (e # es) n = Inr n'" using n1(3) n'(1) by simp
    moreover have "ready (foldl sm_step s (concat (take (Suc (unat commit) - unat i) (cs # css))))"
      unfolding f by (rule n'(2))
    ultimately show ?thesis using n'' la nz by auto
  qed
qed

end

text \<open>The contents \<open>css\<close> of a log, and the state machine that has applied the first
  \<open>last_applied\<close> entries of it, starting from \<open>s0\<close>.\<close>

definition log_holds :: "heap \<Rightarrow> raft_log_t \<Rightarrow> kvs_cmd list list \<Rightarrow> bool" where
  "log_holds h l css \<longleftrightarrow> list_all2 (entry_holds h) (log_entries l) css"

definition applied_prefix ::
  "('sm \<Rightarrow> kvs_cmd \<Rightarrow> 'sm) \<Rightarrow> 'sm \<Rightarrow> kvs_cmd list list \<Rightarrow> 'sm raft_node_t \<Rightarrow> bool" where
  "applied_prefix step s0 css n \<longleftrightarrow>
     state_machine n = Some (foldl step s0 (concat (take (unat (last_applied n)) css)))"

lemma applied_number: "(la :: nat) < ci \<Longrightarrow> la \<le> l \<Longrightarrow> la + min (ci - la) (l - la) = max la (min ci l)"
  by (auto simp: min_def max_def)

lemma applied_take:
  assumes "la < ci" "la \<le> length xs"
  shows "take la xs @ take (ci - la) (drop la xs) = take (max la (min ci (length xs))) xs"
proof -
  have "take la xs @ take (ci - la) (drop la xs) = take ci xs" using assms(1) take_add [of la "ci - la" xs] by simp
  also have "\<dots> = take (max la (min ci (length xs))) xs" using assms by (auto simp: max_def min_def)
  finally show ?thesis .
qed

context command_machine
begin

lemma apply_committed:
  assumes "log_holds h (rlog n) css" "applied_prefix sm_step s0 css n" "\<not> mutex_held n" "log_fits (rlog n)"
    and "unat (last_applied n) \<le> length css"
    and "ready (foldl sm_step s0 (concat (take (unat (last_applied n)) css)))"
  shows "\<exists>n'. raft_apply_committed_entries app h (Some n) = Inr (0, Some n')
    \<and> applied_prefix sm_step s0 css n'
    \<and> unat (last_applied n') = max (unat (last_applied n)) (min (unat (commit_index n)) (length css))
    \<and> n' = n\<lparr>state_machine := state_machine n', last_applied := last_applied n'\<rparr>"
proof (cases "commit_index n \<le> last_applied n")
  case True
  then have "unat (commit_index n) \<le> unat (last_applied n)" by (simp add: word_le_nat_alt)
  with True assms(2,3,5) show ?thesis
    by (auto simp: raft_apply_committed_entries_def applied_prefix_def unlock_node_def)
next
  case False
  let ?la = "unat (last_applied n)" and ?ci = "unat (commit_index n)"
  let ?es = "drop ?la (log_entries (rlog n))" and ?cs = "drop ?la css"
  let ?s = "foldl sm_step s0 (concat (take ?la css))"
  let ?k = "?ci - ?la"
  have lt: "?la < ?ci" using False by (simp add: word_le_nat_alt)
  have len: "length (log_entries (rlog n)) = length css"
    using assms(1) by (auto simp: log_holds_def dest: list_all2_lengthD)
  have fits: "length css < 2 ^ 63" using assms(4) len by (simp add: log_fits_def)
  have u: "unat (last_applied n + 1) = ?la + 1"
    using assms(5) fits by (simp add: unat_word_ariths)
  have sk: "Suc ?ci - unat (last_applied n + 1) = ?k" by (simp add: u)
  let ?m = "n\<lparr>mutex_held := True\<rparr>"
  have prem: "list_all2 (entry_holds h) ?es ?cs" "state_machine ?m = Some ?s"
    "unat (last_applied n + 1) + length ?es < 2 ^ 64" "0 < unat (last_applied n + 1)"
    using assms(1,2) fits len u assms(5) by (simp_all add: log_holds_def applied_prefix_def)
  from apply_loop_holds [OF prem(1,2) assms(6) prem(3,4), of "commit_index n"]
  obtain m' where m': "apply_loop app h (commit_index n) (last_applied n + 1) ?es ?m = Inr m'"
    "m' = ?m\<lparr>state_machine := Some (foldl sm_step ?s (concat (take ?k ?cs))), last_applied := last_applied m'\<rparr>"
    "last_applied m' = (if min ?k (length ?es) = 0 then last_applied n
       else of_nat (?la + 1 + min ?k (length ?es) - 1))"
    unfolding sk u by auto
  have la': "unat (last_applied m') = max ?la (min ?ci (length css))"
    using applied_number [OF lt assms(5)] m'(3) len fits assms(5)
    by (cases "length css = ?la") (simp_all add: unat_of_nat_u64 del: of_nat_add)
  have "take ?la css @ take ?k ?cs = take (max ?la (min ?ci (length css))) css"
    by (rule applied_take [OF lt assms(5)])
  then have sm: "foldl sm_step ?s (concat (take ?k ?cs))
      = foldl sm_step s0 (concat (take (unat (last_applied m')) css))"
    unfolding la' by (metis concat_append foldl_append)
  let ?n' = "unlock_node m'"
  have "state_machine n \<noteq> None" using assms(2) by (simp add: applied_prefix_def)
  then have run: "raft_apply_committed_entries app h (Some n) = Inr (0, Some ?n')"
    using False assms(3) m'(1) by (simp add: raft_apply_committed_entries_def)
  have f: "?n' = n\<lparr>state_machine := Some (foldl sm_step ?s (concat (take ?k ?cs))), last_applied := last_applied m'\<rparr>"
    using assms(3) by (subst m'(2)) (simp add: unlock_node_def)
  have "applied_prefix sm_step s0 css ?n'" unfolding f applied_prefix_def using sm by simp
  moreover have "unat (last_applied ?n') = max ?la (min ?ci (length css))" unfolding f using la' by simp
  moreover have "?n' = n\<lparr>state_machine := state_machine ?n', last_applied := last_applied ?n'\<rparr>"
    unfolding f by simp
  ultimately show ?thesis using run by blast
qed

end

section \<open>The key-value state machine\<close>

definition kv_step :: "'db rdelete \<Rightarrow> 'db kv_store_t option \<Rightarrow> kvs_cmd \<Rightarrow> 'db kv_store_t option" where
  "kv_step rdelete s c =
     (if kc_op c = CMD_DELETE
      then (case kv_store_delete rdelete s (Some (kc_key c)) of Inr (_, m) \<Rightarrow> Some m | Inl _ \<Rightarrow> s)
      else s)"

definition kv_machine_ready :: "'db kv_store_t option \<Rightarrow> bool" where
  "kv_machine_ready s \<longleftrightarrow> (\<exists>m. s = Some m \<and> kv_ready m)"

sublocale rocksdb_store \<subseteq> machine: command_machine
  "kv_state_machine_apply rget rdelete" kv_machine_ready "kv_step rdelete"
proof unfold_locales
  fix s :: "'db kv_store_t option" and bs off c
  assume "kv_machine_ready s" and at: "kvs_at malloc_base bs off c"
  then obtain m where s: "s = Some m" "kv_ready m" by (auto simp: kv_machine_ready_def)
  have "kc_op c \<in> {CMD_NOP, CMD_GET, CMD_SET, CMD_DELETE}"
    using at by (simp add: kvs_at_def kvs_wf_def)
  then consider "kc_op c = CMD_NOP" | "kc_op c = CMD_GET" | "kc_op c = CMD_SET" | "kc_op c = CMD_DELETE"
    by auto
  then show "\<exists>rc r. kv_state_machine_apply rget rdelete s (Some (malloc_base, bs, off))
      = Inr (rc, r, kv_step rdelete s c) \<and> kv_machine_ready (kv_step rdelete s c)"
  proof cases
    case 1
    with apply_nop [OF at 1, of rget rdelete m] s show ?thesis by (simp add: kv_step_def kv_machine_ready_def)
  next
    case 2
    obtain v n where "kv_store_get rget (Some m) (Some (kc_key c)) = Inr (v, n)"
      using store.get_total [OF s(2), of "kc_key c"] by auto
    with apply_get [OF at 2, of rget rdelete m] s 2 show ?thesis
      by (auto simp: kv_step_def kv_machine_ready_def)
  next
    case 3
    with apply_set [OF at 3, of rget rdelete m] s show ?thesis by (simp add: kv_step_def kv_machine_ready_def)
  next
    case 4
    obtain rc m' where "kv_store_delete rdelete (Some m) (Some (kc_key c)) = Inr (rc, m')" "kv_ready m'"
      using store.delete_total [OF s(2), of "kc_key c"] by auto
    with apply_delete [OF at 4, of rget rdelete m] s 4 show ?thesis
      by (simp add: kv_step_def kv_machine_ready_def)
  qed
qed

context rocksdb_store
begin

lemmas machine_apply_committed = machine.apply_committed

end

text \<open>C8: The state machine safety of one node. If the blocks of the log are allocated and
  hold encoded commands, and the state machine is the initial one after the commands of the
  first \<open>last_applied\<close> entries in log order, then \<open>raft_apply_committed_entries\<close>
  returns 0 and this holds again, with \<open>last_applied\<close> raised to the commit index or to the
  end of the log, whichever is smaller, and never lowered: every committed command is applied
  exactly once and in order, one by one or as a batch. Nothing else of the node changes.\<close>

theorem apply_committed_in_order:
  assumes "rocksdb_store rget rput rdelete content"
    and "log_holds h (rlog n) css" "applied_prefix (kv_step rdelete) s0 css n" "\<not> mutex_held n" "log_fits (rlog n)"
    and "unat (last_applied n) \<le> length css"
    and "kv_machine_ready (foldl (kv_step rdelete) s0 (concat (take (unat (last_applied n)) css)))"
  shows "\<exists>n'. raft_apply_committed_entries (kv_state_machine_apply rget rdelete) h (Some n) = Inr (0, Some n')
    \<and> applied_prefix (kv_step rdelete) s0 css n'
    \<and> unat (last_applied n') = max (unat (last_applied n)) (min (unat (commit_index n)) (length css))
    \<and> n' = n\<lparr>state_machine := state_machine n', last_applied := last_applied n'\<rparr>"
  using rocksdb_store.machine_apply_committed [OF assms(1-7)] .

definition sample_log_entry :: "u64 \<Rightarrow> nat \<Rightarrow> kvs_cmd list \<Rightarrow> raft_entry_t" where
  "sample_log_entry i a cs = \<lparr>e_term = 1, e_index = i, e_type = RAFT_ENTRY_COMMAND, e_data = Some a,
     e_data_len = length (kvs_batch cs)\<rparr>"

theorem apply_committed_in_order_witness:
  "\<exists>n n'. state_machine n = Some (Some empty_store) \<and> commit_index n = 1 \<and> last_applied n = 0
    \<and> raft_apply_committed_entries (kv_state_machine_apply map_get map_delete)
        \<lparr>h_blocks = [Some (kvs_batch [sample_set, sample_set])], h_answers = []\<rparr> (Some n) = Inr (0, Some n')
    \<and> last_applied n' = 1"
proof -
  let ?cs = "[sample_set, sample_set]"
  let ?h = "\<lparr>h_blocks = [Some (kvs_batch ?cs)], h_answers = []\<rparr>"
  obtain b :: "map_db kv_store_t option raft_node_t" where b: "b = zero_node" by simp
  let ?n = "b\<lparr>rlog := \<lparr>log_entries = [sample_log_entry 1 0 ?cs], log_capacity = 4\<rparr>, commit_index := 1,
    state_machine := Some (Some empty_store)\<rparr>"
  have la: "unat (last_applied ?n) = 0" by (simp add: b zero_node_def)
  have "log_holds ?h (rlog ?n) [?cs]"
    by (simp add: log_holds_def entry_holds_def sample_log_entry_def h_load_def sample_set_length)
  moreover have "applied_prefix (kv_step map_delete) (Some empty_store) [?cs] ?n"
    by (simp add: applied_prefix_def la b zero_node_def)
  moreover have "kv_machine_ready (foldl (kv_step map_delete) (Some empty_store) (concat (take (unat (last_applied ?n)) [?cs])))"
    unfolding la by (simp add: kv_machine_ready_def)
  ultimately obtain n' where "raft_apply_committed_entries (kv_state_machine_apply map_get map_delete) ?h (Some ?n) = Inr (0, Some n')"
    "unat (last_applied n') = 1"
    using apply_committed_in_order [OF map_store.rocksdb_store_axioms, of ?h ?n "[?cs]" "Some empty_store"] la
    by (auto simp: b zero_node_def log_fits_def)
  moreover from this(2) have "unat (last_applied n') = unat (1 :: u64)" by simp
  then have "last_applied n' = 1" by (rule unsigned_word_eqI)
  ultimately show ?thesis using la by (intro exI [of _ ?n] exI [of _ n']) (simp add: b zero_node_def)
qed

section \<open>Client commands\<close>

lemma append_directly_as_batch:
  assumes "rstate n = RAFT_STATE_LEADER"
  shows "append_directly src cmd_size n h = process_raft_batch
    \<lparr>num_commands = 1, total_length = cmd_size, commands = src, creation_time = zero_timespec\<rparr> n h"
proof -
  have same: "bindr (raft_append_entry (Some n) entry h1) (\<lambda>(rc, n1, entry1, h2).
      bindr (raft_replicate_logs n1) (\<lambda>(_, n2). F n2 entry1 h2))
    = bindr (raft_append_entry (Some n) entry h1) (\<lambda>(rc, n1, entry1, h2).
      bindr (if rstate (the n1) = RAFT_STATE_LEADER then bindr (raft_replicate_logs n1) (\<lambda>(_, n2). Inr n2) else Inr n1)
       (\<lambda>n2. F n2 entry1 h2))" for entry h1 and F :: "'a raft_node_t option \<Rightarrow> _ \<Rightarrow> _ \<Rightarrow> 'b res"
  proof (cases "raft_append_entry (Some n) entry h1")
    case (Inr r)
    obtain rc n1 entry1 h2 where r: "r = (rc, n1, entry1, h2)" by (cases r)
    obtain m where "n1 = Some m" "rstate m = RAFT_STATE_LEADER"
      using append_entry_keeps [OF Inr [unfolded r]] assms by metis
    then show ?thesis by (simp add: Inr r bindr_assoc case_prod_unfold)
  qed simp
  show ?thesis
    unfolding append_directly_def process_raft_batch_def
  proof (rule bindr_cong)
    fix x :: "raft_entry_t option \<times> heap"
    obtain entry h1 where x: "x = (entry, h1)" by (cases x)
    show "(case x of (entry, h1) \<Rightarrow>
        bindr (raft_append_entry (Some n) entry h1) (\<lambda>(_, n1, entry1, h2).
        bindr (raft_replicate_logs n1) (\<lambda>(_, n2).
          case entry1 of None \<Rightarrow> Inl Null_deref
          | Some e \<Rightarrow> bindr (h_free (e_data e) h2) (\<lambda>h3. Inr (the n2, h3)))))
      = (case x of (entry, h1) \<Rightarrow>
        bindr (raft_append_entry (Some n) entry h1) (\<lambda>(_, n1, entry1, h2).
        bindr (if rstate (the n1) = RAFT_STATE_LEADER
               then bindr (raft_replicate_logs n1) (\<lambda>(_, n2). Inr n2) else Inr n1) (\<lambda>n2.
          case entry1 of None \<Rightarrow> Inl Null_deref
          | Some e \<Rightarrow> bindr (h_free (e_data e) h2) (\<lambda>h3. Inr (the n2, h3)))))"
      unfolding x prod.case by (rule same)
  qed simp
qed

lemma kvs_at_drop: "kvs_at base bs off c \<Longrightarrow> \<exists>post. drop off bs = kvs_encode c @ post"
  by (auto simp: kvs_at_def) (metis append_eq_conv_conj append_take_drop_id length_take min.absorb2)

text \<open>What \<open>raft_handle_client_command\<close> does with an encoded command, through the batcher.\<close>

lemma client_command_run:
  assumes "rstate n = RAFT_STATE_LEADER" "batch_wf (current_batch (batcher n))" "kvs_at base bs off c"
    and "length (kvs_encode c) < 2 ^ 32"
  defines "fits \<equiv> unat (total_length (current_batch (batcher n))) + length (kvs_encode c) \<le> MAX_COMMAND_BUFFER"
  obtains b where "if fits then batch_bytes (current_batch b) = batch_bytes (current_batch (batcher n)) @ kvs_encode c
      else b = batcher n"
    and "raft_handle_client_command (Some n) (Some (base, bs, off)) h =
      (if fits then Inr (0, Some (n\<lparr>batcher := b\<rparr>), h)
       else bindr (append_directly (drop off bs) (of_nat (length (kvs_encode c))) (n\<lparr>batcher := b\<rparr>) h)
         (\<lambda>(n2, h2). Inr (0, Some n2, h2)))"
proof -
  let ?L = "length (kvs_encode c)" and ?l = "ucast (of_nat (length (kvs_encode c)) :: u64) :: u32"
  have L: "32 \<le> ?L" using assms(3) by (intro kvs_encode_min) (simp add: kvs_at_def)
  have ul: "unat ?l = ?L" unfolding ucast_of_nat_u32 using assms(4) by (rule unat_of_nat_u32)
  obtain post where "drop off bs = kvs_encode c @ post" using kvs_at_drop [OF assms(3)] by blast
  then have room: "unat ?l \<le> length (drop off bs)" and t: "take (unat ?l) (drop off bs) = kvs_encode c"
    by (simp_all add: ul)
  obtain r b where f: "command_batcher_add_command (Some (batcher n)) (Some (drop off bs)) ?l = Inr (r, Some b)"
      "if r then batch_bytes (current_batch b) = batch_bytes (current_batch (batcher n)) @ take (unat ?l) (drop off bs)
         \<and> num_commands (current_batch b) = num_commands (current_batch (batcher n)) + 1 else b = batcher n"
      "r \<longleftrightarrow> ?l \<noteq> 0 \<and> unat (total_length (current_batch (batcher n))) + unat ?l \<le> MAX_COMMAND_BUFFER"
    using add_command_fits [OF assms(2) room] by blast
  have "?l \<noteq> 0" using L ul by (metis not_numeral_le_zero unat_0)
  then have r: "r = fits" using f(3) by (simp add: ul fits_def)
  have "kvs_command_len base bs off = Inr (of_nat ?L)" by (rule kvs_at_command_len [OF assms(3)])
  then have "raft_handle_client_command (Some n) (Some (base, bs, off)) h =
      (if fits then Inr (0, Some (n\<lparr>batcher := b\<rparr>), h)
       else bindr (append_directly (drop off bs) (of_nat ?L) (n\<lparr>batcher := b\<rparr>) h) (\<lambda>(n2, h2). Inr (0, Some n2, h2)))"
    using f(1) r assms(1) by (simp add: raft_handle_client_command_def)
  moreover have "if fits then batch_bytes (current_batch b) = batch_bytes (current_batch (batcher n)) @ kvs_encode c
      else b = batcher n"
    using f(2) unfolding t r by (simp split: if_splits)
  ultimately show thesis by (rule that [rotated])
qed

text \<open>Whether the \<open>k\<close>-th allocation from \<open>h\<close> on succeeds; the answers of the allocator
  that are not listed are positive.\<close>

definition grants :: "heap \<Rightarrow> nat \<Rightarrow> bool" where
  "grants h k \<longleftrightarrow> k < length (h_answers h) \<longrightarrow> h_answers h ! k"

lemma h_alloc_grants:
  "fst (h_alloc h) = grants h 0" "h_blocks (snd (h_alloc h)) = h_blocks h" "grants (snd (h_alloc h)) k = grants h (Suc k)"
  by (auto simp: h_alloc_def grants_def split: list.splits)

text \<open>The node after its log was replicated with the entries \<open>l\<close> and the capacity \<open>cap\<close>.\<close>

definition replicated :: "'sm raft_node_t \<Rightarrow> raft_log_t \<Rightarrow> 'sm raft_node_t" where
  "replicated n l = n\<lparr>rlog := l, next_index :=
     map2 (advance_next (node_id n) (log_count l)) [0..<MAX_NODES] (next_index n)\<rparr>"

text \<open>The log with one more entry; the array is doubled when it is full.\<close>

definition extended :: "raft_log_t \<Rightarrow> raft_entry_t \<Rightarrow> raft_log_t" where
  "extended l e = l\<lparr>log_entries := log_entries l @ [e],
     log_capacity := (if log_capacity l \<le> length (log_entries l) then log_capacity l * 2 else log_capacity l)\<rparr>"

lemma replicate_leader:
  assumes "rstate n = RAFT_STATE_LEADER" "\<not> mutex_held n"
  shows "raft_replicate_logs (Some (n\<lparr>rlog := l\<rparr>)) = Inr (0, Some (replicated n l))"
  using assms by (simp add: raft_replicate_logs_def replicated_def unlock_node_def)

lemma create_entry_answers:
  assumes "0 < len" "len \<le> length d"
  shows "raft_create_entry term RAFT_ENTRY_COMMAND (Some d) len h =
    (if \<not> grants h 0 then Inr (None, snd (h_alloc h))
     else if \<not> grants h 1 then Inr (None, snd (h_alloc (snd (h_alloc h))))
     else Inr (Some \<lparr>e_term = term, e_index = 0, e_type = RAFT_ENTRY_COMMAND, e_data = Some (length (h_blocks h)),
                     e_data_len = len\<rparr>,
               (snd (h_alloc (snd (h_alloc h))))\<lparr>h_blocks := h_blocks h @ [Some (take len d)]\<rparr>))"
  using assms h_alloc_grants [of h] h_alloc_grants [of "snd (h_alloc h)"]
  by (cases "h_alloc h"; cases "h_alloc (snd (h_alloc h))")
    (auto simp: raft_create_entry_def h_malloc_def rd_bytes_def Let_def)

lemma append_entry_answers:
  assumes "log_wf (rlog n)" "\<not> mutex_held n"
  shows "raft_append_entry (Some n) (Some e) h =
    (let full = log_capacity (rlog n) \<le> length (log_entries (rlog n));
         h' = (if full then snd (h_alloc h) else h);
         e' = e\<lparr>e_index := log_count (rlog n) + 1\<rparr>
     in if full \<and> \<not> grants h 0 then Inr (-1, Some n, Some e, h')
        else Inr (0, Some (n\<lparr>rlog := extended (rlog n) e'\<rparr>), Some e', h'))"
  using assms h_alloc_grants [of h]
  by (cases "h_alloc h")
    (auto simp: raft_append_entry_def extended_def unlock_node_def log_count_def log_wf_def Let_def)

lemma append_directly_run:
  fixes n :: "'sm raft_node_t" and h :: heap
  assumes "rstate n = RAFT_STATE_LEADER" "log_wf (rlog n)" "\<not> mutex_held n"
    and "unat sz = len" "0 < len" "len \<le> length src"
  defines "e \<equiv> \<lparr>e_term = current_term n, e_index = log_count (rlog n) + 1, e_type = RAFT_ENTRY_COMMAND,
      e_data = Some (length (h_blocks h)), e_data_len = len\<rparr>"
    and "full \<equiv> log_capacity (rlog n) \<le> length (log_entries (rlog n))"
  shows "if grants h 0 \<and> grants h 1
    then \<exists>h'. append_directly src sz n h
        = Inr (replicated n (if full \<and> \<not> grants h 2 then rlog n else extended (rlog n) e), h')
      \<and> h_blocks h' = h_blocks h @ [None]
    else append_directly src sz n h = Inl Null_deref"
proof (cases "grants h 0 \<and> grants h 1")
  case False
  then have "\<exists>h1. raft_create_entry (current_term n) RAFT_ENTRY_COMMAND (Some src) len h = Inr (None, h1)"
    using create_entry_answers [OF assms(5,6), of "current_term n" h] by auto
  then obtain h1 where "raft_create_entry (current_term n) RAFT_ENTRY_COMMAND (Some src) (unat sz) h = Inr (None, h1)"
    using assms(4) by auto
  moreover have "raft_append_entry (Some n) None h1 = Inr (-1, Some n, None, h1)"
    by (simp add: raft_append_entry_def)
  moreover have "raft_replicate_logs (Some n) = Inr (0, Some (replicated n (rlog n)))"
    using replicate_leader [OF assms(1,3), of "rlog n"] by simp
  ultimately show ?thesis using False by (simp add: append_directly_def)
next
  case True
  let ?h1 = "snd (h_alloc (snd (h_alloc h)))\<lparr>h_blocks := h_blocks h @ [Some (take len src)]\<rparr>"
  let ?e0 = "e\<lparr>e_index := 0\<rparr>"
  have c: "raft_create_entry (current_term n) RAFT_ENTRY_COMMAND (Some src) (unat sz) h = Inr (Some ?e0, ?h1)"
    using create_entry_answers [OF assms(5,6), of "current_term n" h] True by (simp add: assms(4) e_def)
  have g: "grants ?h1 0 = grants h 2"
    using h_alloc_grants(3) [of "snd (h_alloc h)" 0] h_alloc_grants(3) [of h 1]
    by (simp add: grants_def numeral_2_eq_2)
  define h2 where "h2 = (if full then snd (h_alloc ?h1) else ?h1)"
  have b: "h_blocks h2 = h_blocks h @ [Some (take len src)]"
    by (simp add: h2_def h_alloc_grants(2))
  have f: "h_free (Some (length (h_blocks h))) h2 = Inr (h2\<lparr>h_blocks := h_blocks h @ [None]\<rparr>)"
    using b by (simp add: h_free_def)
  have e: "?e0\<lparr>e_index := log_count (rlog n) + 1\<rparr> = e" "e_data ?e0 = Some (length (h_blocks h))"
    "e_data e = Some (length (h_blocks h))"
    by (simp_all add: e_def)
  show ?thesis
  proof (cases "full \<and> \<not> grants h 2")
    case stuck: True
    have "raft_append_entry (Some n) (Some ?e0) ?h1 = Inr (-1, Some n, Some ?e0, h2)"
      using append_entry_answers [OF assms(2,3), of ?e0 ?h1] stuck g by (simp add: full_def h2_def)
    moreover have "raft_replicate_logs (Some n) = Inr (0, Some (replicated n (rlog n)))"
      using replicate_leader [OF assms(1,3), of "rlog n"] by simp
    ultimately show ?thesis
      using True stuck c f e by (simp add: append_directly_def)
  next
    case room: False
    have "raft_append_entry (Some n) (Some ?e0) ?h1 = Inr (0, Some (n\<lparr>rlog := extended (rlog n) e\<rparr>), Some e, h2)"
      using append_entry_answers [OF assms(2,3), of ?e0 ?h1] room g e(1) by (auto simp: full_def h2_def Let_def)
    with replicate_leader [OF assms(1,3), of "extended (rlog n) e"] show ?thesis
      using True room c f e by (auto simp: append_directly_def)
  qed
qed

text \<open>C20: On the leader, \<open>raft_handle_client_command\<close> buffers an encoded command when it
  fits behind the batch, and leaves log and heap alone. Otherwise, when the allocator has no
  memory for the entry or its data, it dereferences a null pointer; when the log is full and
  cannot grow, it answers 0 and drops the command; and else it appends one entry of the current
  term that holds the command to the end of the log and lets every follower's next index
  advance. The commands buffered before stay in the batcher, so the entry overtakes them, and
  the entry's data block is freed at once, so that reading the entry is a use after free.\<close>

theorem client_command_effect:
  fixes n :: "'sm raft_node_t" and h :: heap
  assumes "rstate n = RAFT_STATE_LEADER" "log_wf (rlog n)" "\<not> mutex_held n"
    and "batch_wf (current_batch (batcher n))" "kvs_at base bs off c" "length (kvs_encode c) < 2 ^ 32"
  defines "run \<equiv> raft_handle_client_command (Some n) (Some (base, bs, off)) h"
    and "e \<equiv> \<lparr>e_term = current_term n, e_index = log_count (rlog n) + 1, e_type = RAFT_ENTRY_COMMAND,
      e_data = Some (length (h_blocks h)), e_data_len = length (kvs_encode c)\<rparr>"
    and "full \<equiv> log_capacity (rlog n) \<le> length (log_entries (rlog n))"
  shows "if unat (total_length (current_batch (batcher n))) + length (kvs_encode c) \<le> MAX_COMMAND_BUFFER
    then \<exists>b. run = Inr (0, Some (n\<lparr>batcher := b\<rparr>), h)
      \<and> batch_bytes (current_batch b) = batch_bytes (current_batch (batcher n)) @ kvs_encode c
    else if grants h 0 \<and> grants h 1
    then \<exists>h'. run = Inr (0, Some (replicated n (if full \<and> \<not> grants h 2 then rlog n else extended (rlog n) e)), h')
      \<and> h_blocks h' = h_blocks h @ [None] \<and> h_load h' (e_data e) = Inl Use_after_free
      \<and> batcher (replicated n (extended (rlog n) e)) = batcher n
    else run = Inl Null_deref"
proof -
  let ?L = "length (kvs_encode c)"
  have "32 \<le> ?L" using assms(5) by (intro kvs_encode_min) (simp add: kvs_at_def)
  then have L: "0 < ?L" by linarith
  have u64: "unat (of_nat ?L :: u64) = ?L" using assms(6) by (intro unat_of_nat_u64) simp
  have post: "?L \<le> length (drop off bs)" using kvs_at_drop [OF assms(5)] by (metis le_add1 length_append)
  obtain b where f: "if unat (total_length (current_batch (batcher n))) + ?L \<le> MAX_COMMAND_BUFFER
      then batch_bytes (current_batch b) = batch_bytes (current_batch (batcher n)) @ kvs_encode c else b = batcher n"
    and r: "raft_handle_client_command (Some n) (Some (base, bs, off)) h =
      (if unat (total_length (current_batch (batcher n))) + ?L \<le> MAX_COMMAND_BUFFER then Inr (0, Some (n\<lparr>batcher := b\<rparr>), h)
       else bindr (append_directly (drop off bs) (of_nat ?L) (n\<lparr>batcher := b\<rparr>) h) (\<lambda>(n2, h2). Inr (0, Some n2, h2)))"
    by (rule client_command_run [OF assms(1,4,5,6)])
  show ?thesis
  proof (cases "unat (total_length (current_batch (batcher n))) + ?L \<le> MAX_COMMAND_BUFFER")
    case True
    then show ?thesis using f r by (auto simp: run_def)
  next
    case False
    then have "run = bindr (append_directly (drop off bs) (of_nat ?L) n h) (\<lambda>(n2, h2). Inr (0, Some n2, h2))"
      using f r by (simp add: run_def)
    with False append_directly_run [OF assms(1-3) u64 L post, of h] show ?thesis
      unfolding e_def full_def by (auto simp: h_load_def replicated_def split: if_splits)
  qed
qed

definition idle_leader :: "nat raft_node_t" where
  "idle_leader = sample_node\<lparr>rstate := RAFT_STATE_LEADER, batcher := zero_batcher\<rparr>"

lemma idle_leader_log_wf: "log_wf (rlog idle_leader)"
  by (simp add: idle_leader_def log_wf_def)

lemma sample_set_at: "kvs_at malloc_base (kvs_encode sample_set) 0 sample_set"
  by (simp add: kvs_at_def sample_set_length malloc_base_def)

text \<open>A leader whose batch is full.\<close>

definition full_leader :: "nat raft_node_t" where
  "full_leader = idle_leader\<lparr>batcher := zero_batcher\<lparr>current_batch := (current_batch zero_batcher)
     \<lparr>num_commands := 1, total_length := of_nat MAX_COMMAND_BUFFER\<rparr>\<rparr>\<rparr>"

theorem client_command_effect_witness:
  "(\<exists>b. raft_handle_client_command (Some idle_leader) (Some (malloc_base, kvs_encode sample_set, 0)) empty_heap
      = Inr (0, Some (idle_leader\<lparr>batcher := b\<rparr>), empty_heap)
    \<and> batch_bytes (current_batch b) = kvs_encode sample_set)
  \<and> (\<exists>n' h'. raft_handle_client_command (Some full_leader) (Some (malloc_base, kvs_encode sample_set, 0)) empty_heap
      = Inr (0, Some n', h')
    \<and> map e_index (log_entries (rlog n')) = [1] \<and> batcher n' = batcher full_leader \<and> h_blocks h' = [None])"
proof
  have "total_length (current_batch zero_batcher) = 0" "batch_bytes (current_batch zero_batcher) = []"
    by (simp_all add: zero_batcher_def batch_bytes_def)
  with client_command_effect [OF _ idle_leader_log_wf _ _ sample_set_at, of empty_heap]
  show "\<exists>b. raft_handle_client_command (Some idle_leader) (Some (malloc_base, kvs_encode sample_set, 0)) empty_heap
      = Inr (0, Some (idle_leader\<lparr>batcher := b\<rparr>), empty_heap)
    \<and> batch_bytes (current_batch b) = kvs_encode sample_set"
    by (simp add: idle_leader_def sample_set_length MAX_COMMAND_BUFFER_def)
next
  have wf: "log_wf (rlog full_leader)" "batch_wf (current_batch (batcher full_leader))"
    "unat (total_length (current_batch (batcher full_leader))) = MAX_COMMAND_BUFFER"
    "rlog full_leader = \<lparr>log_entries = [], log_capacity = 1024\<rparr>" "rstate full_leader = RAFT_STATE_LEADER"
    "\<not> mutex_held full_leader"
    by (simp_all add: full_leader_def idle_leader_def log_wf_def batch_wf_def zero_batcher_def MAX_COMMAND_BUFFER_def)
  from client_command_effect [OF wf(5,1,6,2) sample_set_at, of empty_heap]
  show "\<exists>n' h'. raft_handle_client_command (Some full_leader) (Some (malloc_base, kvs_encode sample_set, 0)) empty_heap
      = Inr (0, Some n', h')
    \<and> map e_index (log_entries (rlog n')) = [1] \<and> batcher n' = batcher full_leader \<and> h_blocks h' = [None]"
    by (auto simp: wf(3,4) grants_def empty_heap_def sample_set_length replicated_def extended_def log_count_def)
qed

text \<open>The length of a command is cut to 32 bits on its way into the batch: a command of
  4 GiB or more whose length modulo \<open>2 ^ 32\<close> fits is accepted, the client is told 0, and only
  the first bytes of it enter the batch.\<close>

theorem client_command_truncated:
  assumes "rstate n = RAFT_STATE_LEADER" "batch_wf (current_batch (batcher n))" "kvs_at base bs off c"
    and "2 ^ 32 \<le> length (kvs_encode c)" "length (kvs_encode c) mod 2 ^ 32 \<noteq> 0"
    and "unat (total_length (current_batch (batcher n))) + length (kvs_encode c) mod 2 ^ 32 \<le> MAX_COMMAND_BUFFER"
  shows "\<exists>b. raft_handle_client_command (Some n) (Some (base, bs, off)) h = Inr (0, Some (n\<lparr>batcher := b\<rparr>), h)
    \<and> batch_bytes (current_batch b)
      = batch_bytes (current_batch (batcher n)) @ take (length (kvs_encode c) mod 2 ^ 32) (kvs_encode c)"
proof -
  let ?L = "length (kvs_encode c)" and ?l = "ucast (of_nat (length (kvs_encode c)) :: u64) :: u32"
  have ul: "unat ?l = ?L mod 2 ^ 32" by (simp add: ucast_of_nat_u32 unat_of_nat)
  have "\<exists>post. drop off bs = kvs_encode c @ post"
    using assms(3) by (auto simp: kvs_at_def) (metis append_eq_conv_conj append_take_drop_id length_take min.absorb2)
  then obtain post where post: "drop off bs = kvs_encode c @ post" by blast
  have le: "?L mod 2 ^ 32 \<le> ?L" by simp
  then have room: "unat ?l \<le> length (drop off bs)" and t: "take (unat ?l) (drop off bs) = take (?L mod 2 ^ 32) (kvs_encode c)"
    unfolding ul post by simp_all
  obtain r b where f: "command_batcher_add_command (Some (batcher n)) (Some (drop off bs)) ?l = Inr (r, Some b)"
      "if r then batch_bytes (current_batch b) = batch_bytes (current_batch (batcher n)) @ take (unat ?l) (drop off bs)
         \<and> num_commands (current_batch b) = num_commands (current_batch (batcher n)) + 1 else b = batcher n"
      "r \<longleftrightarrow> ?l \<noteq> 0 \<and> unat (total_length (current_batch (batcher n))) + unat ?l \<le> MAX_COMMAND_BUFFER"
    using add_command_fits [OF assms(2) room] by blast
  have "?l \<noteq> 0" using assms(5) unfolding ul [symmetric] by auto
  then have "r" using f(3) assms(6) ul by simp
  then have "raft_handle_client_command (Some n) (Some (base, bs, off)) h = Inr (0, Some (n\<lparr>batcher := b\<rparr>), h)"
    using f(1) kvs_at_command_len [OF assms(3)] assms(1) by (simp add: raft_handle_client_command_def)
  moreover have "batch_bytes (current_batch b)
      = batch_bytes (current_batch (batcher n)) @ take (?L mod 2 ^ 32) (kvs_encode c)"
    using f(2) \<open>r\<close> unfolding t by simp
  ultimately show ?thesis by blast
qed

definition huge_cmd :: kvs_cmd where
  "huge_cmd = \<lparr>kc_op = CMD_SET, kc_key = [107], kc_value = replicate (2 ^ 32 - 8) 0, kc_addr = replicate 16 0\<rparr>"

theorem client_command_truncated_witness:
  "\<exists>b. raft_handle_client_command (Some idle_leader) (Some (malloc_base, kvs_encode huge_cmd, 0)) empty_heap
      = Inr (0, Some (idle_leader\<lparr>batcher := b\<rparr>), empty_heap)
    \<and> batch_bytes (current_batch b) = take 24 (kvs_encode huge_cmd)"
proof -
  have wf: "kvs_wf huge_cmd" by (simp add: kvs_wf_def huge_cmd_def)
  have len: "length (kvs_encode huge_cmd) = 2 ^ 32 + 24"
    using length_kvs_body [OF wf] by (simp add: length_kvs_encode roundup_def huge_cmd_def)
  have at: "kvs_at malloc_base (kvs_encode huge_cmd) 0 huge_cmd"
    using wf len by (simp add: kvs_at_def malloc_base_def)
  have "total_length (current_batch zero_batcher) = 0" "batch_bytes (current_batch zero_batcher) = []"
    by (simp_all add: zero_batcher_def batch_bytes_def)
  with client_command_truncated [OF _ _ at, of idle_leader empty_heap] show ?thesis
    by (simp add: idle_leader_def len MAX_COMMAND_BUFFER_def)
qed

end
