(* ===== verification/Raft_Runs.thy ===== *)
theory Raft_Runs
  imports Raft_Apply
begin

text \<open>
  Runs of a Raft node: every operation of \<open>src/raft_core.c\<close> on a node as a step, and the
  invariant all of them keep. The main theorem says what the operations together do not do:
  none of them ever moves the commit index, so that nothing is ever applied.
\<close>

section \<open>Steps\<close>

inductive node_step :: "'sm raft_node_t \<times> heap \<Rightarrow> 'sm raft_node_t \<times> heap \<Rightarrow> bool" where
  become_follower: "raft_become_follower now t c (Some n) term h = Inr (Some n', h') \<Longrightarrow> node_step (n, h) (n', h')"
| become_candidate: "raft_become_candidate now (Some n) = Inr ((), Some n') \<Longrightarrow> node_step (n, h) (n', h)"
| become_leader: "raft_become_leader ok (Some n) = Inr ((), Some n') \<Longrightarrow> node_step (n, h) (n', h)"
| check_timeout: "raft_check_election_timeout fl now (Some n) = Inr (b, Some n') \<Longrightarrow> node_step (n, h) (n', h)"
| reset_timer: "raft_reset_election_timer now (Some n) = Inr ((), Some n') \<Longrightarrow> node_step (n, h) (n', h)"
| check_heartbeat: "raft_check_heartbeat_status fl now (Some n) = Inr ((), Some n') \<Longrightarrow> node_step (n, h) (n', h)"
| record_vote: "raft_record_vote (Some n) = Inr (b, Some n') \<Longrightarrow> node_step (n, h) (n', h)"
| start_election: "raft_start_election now (Some n) = Inr (rc, Some n') \<Longrightarrow> node_step (n, h) (n', h)"
| append_entry: "raft_append_entry (Some n) e h = Inr (rc, Some n', e', h') \<Longrightarrow> node_step (n, h) (n', h')"
| replicate_logs: "raft_replicate_logs (Some n) = Inr (rc, Some n') \<Longrightarrow> node_step (n, h) (n', h)"
| handle_append: "raft_handle_append_entries now (Some n) rq rs = Inr (rc, Some n', rs') \<Longrightarrow> node_step (n, h) (n', h)"
| handle_vote: "raft_handle_request_vote now (Some n) rq rs = Inr (rc, Some n', rs') \<Longrightarrow> node_step (n, h) (n', h)"
| send_append: "raft_send_append_entries fl t1 t2 a (Some n) target es len h = Inr (rc, Some n', h') \<Longrightarrow>
    node_step (n, h) (n', h')"
| send_vote: "raft_send_request_vote fl t1 t2 (Some n) target h = Inr (rc, m, Some n', h') \<Longrightarrow>
    node_step (n, h) (n', h')"
| apply_entries: "raft_apply_committed_entries app h (Some n) = Inr (rc, Some n') \<Longrightarrow> node_step (n, h) (n', h)"
| start_thread: "raft_start_apply_thread ok (Some n) = Inr (rc, Some n') \<Longrightarrow> node_step (n, h) (n', h)"
| stop_thread: "raft_stop_apply_thread (Some n) = Inr (rc, Some n') \<Longrightarrow> node_step (n, h) (n', h)"
| init_machine: "raft_init_state_machine (Some n) kv h = Inr (rc, Some n', h') \<Longrightarrow> node_step (n, h) (n', h')"
| batch_ready: "process_raft_batch c n h = Inr (n', h') \<Longrightarrow> node_step (n, h) (n', h')"
| client_command: "raft_handle_client_command (Some n) cmd h = Inr (rc, Some n', h') \<Longrightarrow> node_step (n, h) (n', h')"

section \<open>The invariant\<close>

definition node_inv :: "'sm raft_node_t \<Rightarrow> bool" where
  "node_inv n \<longleftrightarrow> \<not> mutex_held n \<and> log_wf (rlog n) \<and> commit_index n = 0 \<and> last_applied n = 0
     \<and> match_index n = replicate MAX_NODES 0 \<and> length (next_index n) = MAX_NODES"

lemma node_inv_same:
  assumes "node_inv n" "mutex_held n' = mutex_held n" "rlog n' = rlog n" "commit_index n' = commit_index n"
    "last_applied n' = last_applied n" "match_index n' = match_index n" "length (next_index n') = length (next_index n)"
  shows "node_inv n'"
  using assms by (simp add: node_inv_def)

lemma adaptive_fields [simp]:
  "node_inv (raft_adaptive_record_heartbeat n) = node_inv n"
  "node_inv (raft_adaptive_record_vote n) = node_inv n"
  "node_inv (raft_adaptive_rpc_start t n) = node_inv n"
  "mutex_held (raft_adaptive_rpc_start t n) = mutex_held n"
  by (simp_all add: node_inv_def raft_adaptive_record_heartbeat_def raft_adaptive_record_vote_def
      raft_adaptive_rpc_start_def split: option.splits)

lemma adaptive_missed_inv:
  "raft_adaptive_check_missed_heartbeat fl n = Inr n' \<Longrightarrow> \<exists>a. n' = n\<lparr>adaptive := a\<rparr>"
  by (auto simp: raft_adaptive_check_missed_heartbeat_def split: option.splits)
    (metis raft_node_t.surjective raft_node_t.update_convs(17))+

lemma adaptive_rpc_end_inv:
  "raft_adaptive_rpc_end fl t n = Inr n' \<Longrightarrow> \<exists>a. n' = n\<lparr>adaptive := a\<rparr>"
  by (auto simp: raft_adaptive_rpc_end_def split: option.splits)
    (metis raft_node_t.surjective raft_node_t.update_convs(17))+

lemma append_entry_inv:
  assumes "node_inv n" "raft_append_entry (Some n) e h = Inr (rc, Some n', e', h')"
  shows "node_inv n'"
proof (cases e)
  case None
  then show ?thesis using assms by (simp add: raft_append_entry_def)
next
  case (Some x)
  have wf: "log_wf (rlog n)" "\<not> mutex_held n" using assms(1) by (simp_all add: node_inv_def)
  show ?thesis
  proof (cases rule: raft_append_entry_cases [OF wf, of x h])
    case (1 l' h1)
    with assms Some show ?thesis by (auto simp: node_inv_def)
  next
    case (2 h1)
    with assms Some show ?thesis by auto
  qed
qed

lemma replicate_inv:
  assumes "node_inv n" "raft_replicate_logs (Some n) = Inr (rc, Some n')"
  shows "node_inv n'"
  using assms by (auto simp: raft_replicate_logs_def node_inv_def unlock_node_def split: if_splits)

lemma replicate_some:
  assumes "raft_replicate_logs (Some n) = Inr (rc, n')" "node_inv n"
  shows "\<exists>m. n' = Some m \<and> node_inv m"
  using replicate_keeps [OF assms(1)] replicate_inv [OF assms(2)] assms(1) by metis

lemma process_batch_inv:
  assumes "node_inv n" "process_raft_batch c n h = Inr (n', h')"
  shows "node_inv n'"
proof -
  from assms(2) obtain entry h1 rc n1 entry1 h2 where
    a: "raft_append_entry (Some n) entry h1 = Inr (rc, n1, entry1, h2)"
    and rest: "bindr (if rstate (the n1) = RAFT_STATE_LEADER
            then bindr (raft_replicate_logs n1) (\<lambda>(_, n2). Inr n2) else Inr n1) (\<lambda>n2.
       case entry1 of None \<Rightarrow> Inl Null_deref
       | Some e \<Rightarrow> bindr (h_free (e_data e) h2) (\<lambda>h3. Inr (the n2, h3))) = Inr (n', h')"
    unfolding process_raft_batch_def by auto
  obtain m where m: "n1 = Some m" using append_entry_keeps [OF a] by metis
  have inv: "node_inv m" using append_entry_inv [OF assms(1)] a m by blast
  from rest m show ?thesis
    using inv by (auto split: if_splits option.splits dest!: replicate_some)
qed

lemma process_batch_locked_fails:
  assumes "mutex_held n"
  shows "\<exists>err. process_raft_batch c n h = Inl err"
proof (cases "process_raft_batch c n h")
  case (Inr r)
  then obtain entry h1 rc n1 entry1 h2 where
    a: "raft_append_entry (Some n) entry h1 = Inr (rc, n1, entry1, h2)" and s: "entry1 \<noteq> None"
    unfolding process_raft_batch_def by (auto split: option.splits)
  then show ?thesis using assms by (auto simp: raft_append_entry_def split: option.splits)
qed blast

lemma mutex_held_set: "mutex_held (n\<lparr>mutex_held := True\<rparr>)"
  by simp

lemma batcher_same: "n\<lparr>batcher := batcher n\<rparr> = n"
  by simp

lemma stop_locked_keeps:
  assumes "stop_node_batcher t c n h = Inr (rc, n', h')" "mutex_held n"
  shows "\<exists>b. n' = n\<lparr>batcher := b\<rparr>"
proof -
  have f: "process_raft_batch c' m h'' \<noteq> Inr r" if "mutex_held m" for c' h'' r and m :: "'a raft_node_t"
    using process_batch_locked_fails [OF that, of c' h''] by auto
  show ?thesis
    using assms f
    by (auto simp: stop_node_batcher_def Let_def split: prod.splits if_splits option.splits
        intro: exI [of _ "batcher n"])
qed

lemma unlock_inv: "log_wf (rlog n) \<Longrightarrow> commit_index n = 0 \<Longrightarrow> last_applied n = 0 \<Longrightarrow>
    match_index n = replicate MAX_NODES 0 \<Longrightarrow> length (next_index n) = MAX_NODES \<Longrightarrow> node_inv (unlock_node n)"
  by (simp add: node_inv_def unlock_node_def)

lemma become_follower_inv:
  assumes "node_inv n" "raft_become_follower now t c (Some n) term h = Inr (Some n', h')"
  shows "node_inv n'"
proof -
  let ?n = "n\<lparr>mutex_held := True\<rparr>"
  let ?f = "\<lambda>n1. unlock_node ((raft_adaptive_record_heartbeat
      (n1\<lparr>rstate := RAFT_STATE_FOLLOWER, current_term := term, voted_for := 0, votes_received := 0, leader_id := 0\<rparr>))
      \<lparr>last_heartbeat := now\<rparr>)"
  have f: "node_inv (?f (?n\<lparr>batcher := b\<rparr>))" for b
    using assms(1) by (auto simp: node_inv_def unlock_node_def raft_adaptive_record_heartbeat_def split: option.splits)
  show ?thesis
  proof (cases "rstate n = RAFT_STATE_LEADER")
    case True
    with assms(2) have "\<exists>rc n1. stop_node_batcher t c ?n h = Inr (rc, n1, h') \<and> n' = ?f n1"
      by (auto simp: raft_become_follower_def Let_def)
    with stop_locked_keeps [of t c ?n h] f show ?thesis by (metis mutex_held_set)
  next
    case False
    with assms(2) have "n' = ?f ?n" by (auto simp: raft_become_follower_def Let_def)
    also have "?n = ?n\<lparr>batcher := batcher ?n\<rparr>" by simp
    finally show ?thesis using f by metis
  qed
qed

lemma handle_append_inv:
  assumes "node_inv n" "raft_handle_append_entries now (Some n) rq rs = Inr (rc, Some n', rs')"
  shows "node_inv n'"
  using assms by (cases rq; cases rs; cases "msg_term (the rq) < current_term n")
    (auto simp: raft_handle_append_entries_def unlock_node_def node_inv_def Let_def split: if_splits)

lemma handle_vote_inv:
  assumes "node_inv n" "raft_handle_request_vote now (Some n) rq rs = Inr (rc, Some n', rs')"
  shows "node_inv n'"
  using assms by (cases rq; cases rs; cases "msg_term (the rq) < current_term n")
    (auto simp: raft_handle_request_vote_def unlock_node_def node_inv_def Let_def split: if_splits)

lemma send_append_inv:
  assumes "node_inv n" "raft_send_append_entries fl t1 t2 a (Some n) target es len h = Inr (rc, Some n', h')"
  shows "node_inv n'"
  using assms by (cases es)
    (auto simp: raft_send_append_entries_def node_inv_def unlock_node_def raft_adaptive_rpc_start_def Let_def
      split: prod.splits if_splits option.splits dest!: adaptive_rpc_end_inv)

lemma send_vote_inv:
  assumes "node_inv n" "raft_send_request_vote fl t1 t2 (Some n) target h = Inr (rc, m, Some n', h')"
  shows "node_inv n'"
  using assms
  by (auto simp: raft_send_request_vote_def node_inv_def unlock_node_def raft_adaptive_rpc_start_def
      split: prod.splits if_splits option.splits dest!: adaptive_rpc_end_inv)

lemma apply_inv:
  assumes "node_inv n" "raft_apply_committed_entries app h (Some n) = Inr (rc, Some n')"
  shows "n' = n"
  using assms by (auto simp: raft_apply_committed_entries_def node_inv_def split: if_splits)

lemma client_command_inv:
  assumes "node_inv n" "raft_handle_client_command (Some n) cmd h = Inr (rc, Some n', h')"
  shows "node_inv n'"
proof (cases cmd)
  case None
  with assms show ?thesis by (simp add: raft_handle_client_command_def)
next
  case (Some p)
  have b: "node_inv (n\<lparr>batcher := b\<rparr>)" for b using assms(1) by (simp add: node_inv_def)
  have d: "node_inv m" if "append_directly src sz (n\<lparr>batcher := b\<rparr>) h = Inr (m, h'')" "rstate n = RAFT_STATE_LEADER"
    for src sz b m h''
    using process_batch_inv [OF b] that append_directly_as_batch [of "n\<lparr>batcher := b\<rparr>" src sz h] by simp
  from assms Some show ?thesis
    by (cases p) (auto simp: raft_handle_client_command_def Let_def b split: if_splits dest: d)
qed

lemma transition_inv:
  assumes "node_inv n"
  shows "raft_become_candidate now (Some n) = Inr ((), Some n') \<Longrightarrow> node_inv n'"
    and "raft_become_leader ok (Some n) = Inr ((), Some n') \<Longrightarrow> node_inv n'"
    and "raft_record_vote (Some n) = Inr (b, Some n') \<Longrightarrow> node_inv n'"
    and "raft_start_election now (Some n) = Inr (rc, Some n') \<Longrightarrow> node_inv n'"
    and "raft_reset_election_timer now (Some n) = Inr ((), Some n') \<Longrightarrow> node_inv n'"
  using assms
  by (auto simp: raft_become_candidate_def raft_become_leader_def raft_record_vote_def raft_start_election_def
      raft_reset_election_timer_def raft_adaptive_record_heartbeat_def raft_adaptive_record_vote_def
      node_inv_def unlock_node_def Let_def split: option.splits prod.splits if_splits)

lemma timer_inv:
  assumes "node_inv n"
  shows "raft_check_election_timeout fl now (Some n) = Inr (b, Some n') \<Longrightarrow> node_inv n'"
    and "raft_check_heartbeat_status fl now (Some n) = Inr ((), Some n') \<Longrightarrow> node_inv n'"
  using assms
  by (auto simp: raft_check_election_timeout_def raft_check_heartbeat_status_def node_inv_def unlock_node_def Let_def
      split: if_splits dest!: adaptive_missed_inv)

lemma thread_inv:
  assumes "node_inv n"
  shows "raft_start_apply_thread ok (Some n) = Inr (rc, Some n') \<Longrightarrow> node_inv n'"
    and "raft_stop_apply_thread (Some n) = Inr (rc, Some n') \<Longrightarrow> node_inv n'"
    and "raft_init_state_machine (Some n) kv h = Inr (rc, Some n', h') \<Longrightarrow> node_inv n'"
  using assms
  by (auto simp: raft_start_apply_thread_def raft_stop_apply_thread_def raft_init_state_machine_def
      node_inv_def unlock_node_def split: option.splits prod.splits if_splits)

lemmas node_op_inv = transition_inv [rotated] timer_inv [rotated] thread_inv [rotated] become_follower_inv [rotated]
  append_entry_inv [rotated] replicate_inv [rotated] handle_append_inv [rotated] handle_vote_inv [rotated]
  send_append_inv [rotated] send_vote_inv [rotated] process_batch_inv [rotated] client_command_inv [rotated]

lemma node_inv_step:
  assumes "node_step s s'" "node_inv (fst s)"
  shows "node_inv (fst s')"
  using assms by cases (auto dest: node_op_inv apply_inv [rotated])

lemma node_inv_run: "node_step\<^sup>*\<^sup>* s s' \<Longrightarrow> node_inv (fst s) \<Longrightarrow> node_inv (fst s')"
  by (induction rule: rtranclp_induct) (auto intro: node_inv_step)

lemma raft_init_inv:
  assumes "raft_init a m b now t junk self h = (Some n, h')"
  shows "node_inv n"
  using assms
  by (auto simp: raft_init_def log_init_def raft_adaptive_init_def zero_node_def node_inv_def log_wf_def
      INITIAL_LOG_CAPACITY_def Let_def split: prod.splits if_splits option.splits)

section \<open>Properties\<close>

text \<open>C2: whatever operations of \<open>raft_core.c\<close> a node goes through after
  \<open>raft_init\<close>, in any order and with any arguments, as long as they return: the mutex is
  free between operations, the log is well-formed (its entries are numbered from 1 and fit into
  the array), and the commit index, the index of the last applied entry and the match indices
  are still 0: no operation commits an entry.\<close>

theorem raft_node_invariant:
  assumes "raft_init a m b now t junk self h0 = (Some n0, h1)" "node_step\<^sup>*\<^sup>* (n0, h1) (n, h)"
  shows "\<not> mutex_held n \<and> log_wf (rlog n) \<and> length (next_index n) = MAX_NODES
    \<and> commit_index n = 0 \<and> last_applied n = 0 \<and> match_index n = replicate MAX_NODES 0"
  using node_inv_run [OF assms(2)] raft_init_inv [OF assms(1)] by (simp add: node_inv_def)

text \<open>Hence the apply thread never calls the state machine: after any run from
  \<open>raft_init\<close>, \<open>raft_apply_committed_entries\<close> leaves the node as it is, for every
  state machine.\<close>

theorem nothing_is_applied:
  assumes "raft_init a m b now t junk self h0 = (Some n0, h1)" "node_step\<^sup>*\<^sup>* (n0, h1) (n, h)"
  shows "raft_apply_committed_entries app h (Some n)
    = Inr (if state_machine n = None then -1 else 0, Some n)"
  using node_inv_run [OF assms(2)] raft_init_inv [OF assms(1)]
  by (auto simp: node_inv_def raft_apply_committed_entries_def)

lemma sample_node_init:
  "\<exists>h1. raft_init True True True 1000 zero_timespec sample_timeout 1 empty_heap = (Some sample_node, h1)"
  unfolding sample_node_def
  by (simp add: raft_init_def h_alloc_def empty_heap_def log_init_def raft_adaptive_init_def
      adaptive_timeout_init_def init_with_config_def zero_node_def command_batcher_init_def Let_def)

lemma election_run: "\<exists>c. node_step\<^sup>*\<^sup>* (sample_node, h1) (c, h1) \<and> rstate c = RAFT_STATE_CANDIDATE"
proof -
  let ?c = "unlock_node (sample_node\<lparr>mutex_held := True, rstate := RAFT_STATE_CANDIDATE,
      current_term := current_term sample_node + 1, voted_for := node_id sample_node, votes_received := 1,
      last_heartbeat := 0\<rparr>)"
  have "raft_start_election 0 (Some sample_node) = Inr (0, Some ?c)"
    by (simp add: raft_start_election_def)
  then have "node_step (sample_node, h1) (?c, h1)" by (rule node_step.start_election)
  moreover have "rstate ?c = RAFT_STATE_CANDIDATE" by (simp add: unlock_node_def)
  ultimately show ?thesis by blast
qed

theorem raft_node_invariant_witness:
  "\<exists>h1 c. node_step\<^sup>*\<^sup>* (sample_node, h1) (c, h1) \<and> rstate c = RAFT_STATE_CANDIDATE
    \<and> commit_index c = 0 \<and> log_wf (rlog c)"
proof -
  obtain h1 where i: "raft_init True True True 1000 zero_timespec sample_timeout 1 empty_heap = (Some sample_node, h1)"
    using sample_node_init by blast
  obtain c where c: "node_step\<^sup>*\<^sup>* (sample_node, h1) (c, h1)" "rstate c = RAFT_STATE_CANDIDATE"
    using election_run by blast
  from raft_node_invariant [OF i c(1)] c show ?thesis by blast
qed

theorem nothing_is_applied_witness:
  "\<exists>h1 c. node_step\<^sup>*\<^sup>* (sample_node, h1) (c, h1) \<and> rstate c = RAFT_STATE_CANDIDATE
    \<and> (\<exists>rc. raft_apply_committed_entries (\<lambda>s _. Inr (0, (None, 0), s + 1)) h1 (Some c) = Inr (rc, Some c))"
proof -
  obtain h1 where i: "raft_init True True True 1000 zero_timespec sample_timeout 1 empty_heap = (Some sample_node, h1)"
    using sample_node_init by blast
  obtain c where c: "node_step\<^sup>*\<^sup>* (sample_node, h1) (c, h1)" "rstate c = RAFT_STATE_CANDIDATE"
    using election_run by blast
  from nothing_is_applied [OF i c(1)] c show ?thesis by blast
qed

end
