(* ===== verification/Raft_Votes.thy ===== *)
theory Raft_Votes
  imports Raft_Runs
begin

text \<open>
  Votes: the runs of \<open>Raft_Runs\<close> once more, with a record of the votes a node gives. A node
  gives its vote in a term to at most one candidate, and two candidates with a majority of
  the votes of one term are the same; with the operations of \<open>src/raft_core.c\<close> that can
  break this, and the conditions under which they do not, written out.
\<close>

section \<open>Steps that vote\<close>

text \<open>The votes a node gives: the term and the candidate, its own candidacies included.\<close>

type_synonym votes = "(u64 \<times> u64) list"

text \<open>Every operation of \<open>raft_core.c\<close> on a node. Four conditions are not tested by the
  code: the sender of a request that is granted has a non-zero id of 32 bits; the term is not
  the largest one when an election starts; and \<open>raft_become_follower\<close> is called with a term
  above the current one. (\<open>raft_become_follower\<close> has no caller in the program; it forgets
  the vote whatever its argument.)\<close>

inductive vote_step :: "'sm raft_node_t \<times> heap \<times> votes \<Rightarrow> 'sm raft_node_t \<times> heap \<times> votes \<Rightarrow> bool" where
  granted: "raft_handle_request_vote now (Some n) (Some rq) (Some rs) = Inr (0, Some n', Some rs') \<Longrightarrow>
     rv_resp_granted (msg_data rs') = Inr True \<Longrightarrow>
     sender_node_id rq = ucast (c :: u32) \<Longrightarrow> c \<noteq> 0 \<Longrightarrow>
     vote_step (n, h, vs) (n', h, vs @ [(msg_term rq, ucast c)])"
| refused: "raft_handle_request_vote now (Some n) (Some rq) (Some rs) = Inr (0, Some n', Some rs') \<Longrightarrow>
     rv_resp_granted (msg_data rs') = Inr False \<Longrightarrow> vote_step (n, h, vs) (n', h, vs)"
| no_request: "raft_handle_request_vote now (Some n) rq rs = Inr (-1, Some n', rs') \<Longrightarrow>
     vote_step (n, h, vs) (n', h, vs)"
| started: "raft_start_election now (Some n) = Inr (rc, Some n') \<Longrightarrow> current_term n \<noteq> -1 \<Longrightarrow>
     vote_step (n, h, vs) (n', h, vs @ [(current_term n', ucast (node_id n))])"
| candidate: "raft_become_candidate now (Some n) = Inr ((), Some n') \<Longrightarrow> current_term n \<noteq> -1 \<Longrightarrow>
     vote_step (n, h, vs) (n', h, vs @ [(current_term n', ucast (node_id n))])"
| stepped_down: "raft_become_follower now t c (Some n) term h = Inr (Some n', h') \<Longrightarrow> current_term n < term \<Longrightarrow>
     vote_step (n, h, vs) (n', h', vs)"
| appended: "raft_handle_append_entries now (Some n) rq rs = Inr (rc, Some n', rs') \<Longrightarrow>
     vote_step (n, h, vs) (n', h, vs)"
| leader: "raft_become_leader ok (Some n) = Inr ((), Some n') \<Longrightarrow> vote_step (n, h, vs) (n', h, vs)"
| counted: "raft_record_vote (Some n) = Inr (b, Some n') \<Longrightarrow> vote_step (n, h, vs) (n', h, vs)"
| timer: "raft_check_election_timeout fl now (Some n) = Inr (b, Some n') \<Longrightarrow> vote_step (n, h, vs) (n', h, vs)"
| timer_reset: "raft_reset_election_timer now (Some n) = Inr ((), Some n') \<Longrightarrow> vote_step (n, h, vs) (n', h, vs)"
| heartbeat: "raft_check_heartbeat_status fl now (Some n) = Inr ((), Some n') \<Longrightarrow> vote_step (n, h, vs) (n', h, vs)"
| log_grew: "raft_append_entry (Some n) e h = Inr (rc, Some n', e', h') \<Longrightarrow> vote_step (n, h, vs) (n', h', vs)"
| replicated: "raft_replicate_logs (Some n) = Inr (rc, Some n') \<Longrightarrow> vote_step (n, h, vs) (n', h, vs)"
| sent_append: "raft_send_append_entries fl t1 t2 a (Some n) target es len h = Inr (rc, Some n', h') \<Longrightarrow>
     vote_step (n, h, vs) (n', h', vs)"
| sent_vote: "raft_send_request_vote fl t1 t2 (Some n) target h = Inr (rc, m, Some n', h') \<Longrightarrow>
     vote_step (n, h, vs) (n', h', vs)"
| applied: "raft_apply_committed_entries app h (Some n) = Inr (rc, Some n') \<Longrightarrow> vote_step (n, h, vs) (n', h, vs)"
| thread_started: "raft_start_apply_thread ok (Some n) = Inr (rc, Some n') \<Longrightarrow> vote_step (n, h, vs) (n', h, vs)"
| thread_stopped: "raft_stop_apply_thread (Some n) = Inr (rc, Some n') \<Longrightarrow> vote_step (n, h, vs) (n', h, vs)"
| machine: "raft_init_state_machine (Some n) kv h = Inr (rc, Some n', h') \<Longrightarrow> vote_step (n, h, vs) (n', h', vs)"
| batch: "process_raft_batch c n h = Inr (n', h') \<Longrightarrow> vote_step (n, h, vs) (n', h', vs)"
| client: "raft_handle_client_command (Some n) cmd h = Inr (rc, Some n', h') \<Longrightarrow> vote_step (n, h, vs) (n', h', vs)"

definition votes_inv :: "'sm raft_node_t \<times> heap \<times> votes \<Rightarrow> bool" where
  "votes_inv s = (case s of (n, h, vs) \<Rightarrow> node_id n \<noteq> 0
     \<and> (\<forall>(t, c) \<in> set vs. t \<le> current_term n
          \<and> (t = current_term n \<longrightarrow> voted_for n \<noteq> 0 \<and> c = ucast (voted_for n))
          \<and> (\<forall>(t', c') \<in> set vs. t' = t \<longrightarrow> c' = c)))"

section \<open>Term and vote after each operation\<close>

lemma request_vote_moves:
  assumes "raft_handle_request_vote now (Some n) (Some rq) (Some rs) = Inr (0, Some n', Some rs')"
  shows "node_id n' = node_id n"
    and "rv_resp_granted (msg_data rs') = Inr True \<Longrightarrow> \<not> msg_term rq < current_term n \<and>
      (voted_for (set_term (msg_term rq) n) = 0 \<or> ucast (voted_for (set_term (msg_term rq) n)) = sender_node_id rq)
      \<and> current_term n' = msg_term rq \<and> voted_for n' = ucast (sender_node_id rq)"
    and "rv_resp_granted (msg_data rs') = Inr False \<Longrightarrow>
      (current_term n' = current_term n \<and> voted_for n' = voted_for n)
      \<or> (current_term n < current_term n' \<and> voted_for n' = 0)"
proof -
  have g: "rv_resp_granted d' = Inr b" if "rv_resp_set_granted b d = Inr d'" for b d d'
    using that by (auto simp: rv_resp_set_granted_def memcpy_into_def rv_resp_granted_def rd_bytes_def split: if_splits)
  from assms obtain d where d: "rv_resp_set_granted False (msg_data rs) = Inr d" "\<not> mutex_held n"
    by (auto simp: raft_handle_request_vote_def Let_def)
  note no = g [OF d(1)]
  note run = assms [unfolded raft_handle_request_vote_def Let_def]
  show "node_id n' = node_id n"
    using run d by (auto simp: unlock_node_def split: if_splits)
  show "rv_resp_granted (msg_data rs') = Inr True \<Longrightarrow> \<not> msg_term rq < current_term n \<and>
      (voted_for (set_term (msg_term rq) n) = 0 \<or> ucast (voted_for (set_term (msg_term rq) n)) = sender_node_id rq)
      \<and> current_term n' = msg_term rq \<and> voted_for n' = ucast (sender_node_id rq)"
    using run d no by (auto simp: unlock_node_def set_term_def split: if_splits)
  show "rv_resp_granted (msg_data rs') = Inr False \<Longrightarrow>
      (current_term n' = current_term n \<and> voted_for n' = voted_for n)
      \<or> (current_term n < current_term n' \<and> voted_for n' = 0)"
    using run d no by (cases "rv_resp_set_granted True d") (auto simp: unlock_node_def g split: if_splits)
qed

lemma append_entries_moves:
  assumes "raft_handle_append_entries now (Some n) (Some rq) (Some rs) = Inr (0, Some n', Some rs')"
  shows "node_id n' = node_id n \<and> ((current_term n' = current_term n \<and> voted_for n' = voted_for n)
      \<or> (current_term n < current_term n' \<and> voted_for n' = 0))"
  using assms by (auto simp: raft_handle_append_entries_def unlock_node_def Let_def split: if_splits)

lemma inc_less: "t \<noteq> -1 \<Longrightarrow> (t :: u64) < t + 1"
proof -
  assume "t \<noteq> -1"
  then have "1 + t \<noteq> 0" by (metis add.commute eq_neg_iff_add_eq_0)
  from unatSuc [OF this] show ?thesis by (simp add: word_less_nat_alt add.commute)
qed

lemma votes_inv_kept:
  assumes "votes_inv (n, h, vs)" "node_id n' = node_id n"
    and "(current_term n' = current_term n \<and> voted_for n' = voted_for n)
      \<or> current_term n < current_term n'"
  shows "votes_inv (n', h', vs)"
  using assms by (fastforce simp: votes_inv_def)

lemma votes_inv_cast:
  assumes "votes_inv (n, h, vs)" "node_id n' = node_id n" "current_term n \<le> current_term n'"
    and "c \<noteq> 0" "voted_for n' = c"
    and "current_term n' = current_term n \<longrightarrow> voted_for n = 0 \<or> voted_for n = c"
  shows "votes_inv (n', h', vs @ [(current_term n', ucast c)])"
  using assms by (fastforce simp: votes_inv_def)

text \<open>A node that starts an election votes for itself in a new term.\<close>

lemma votes_inv_elected:
  assumes "node_id n' = node_id n" "current_term n' = current_term n + 1" "voted_for n' = node_id n"
    and "votes_inv (n, h, vs)" "current_term n < current_term n + 1"
  shows "votes_inv (n', h', vs @ [(current_term n', ucast (node_id n))])"
  using votes_inv_cast [of n h vs n' "node_id n"] assms by (auto simp: less_imp_le votes_inv_def)

text \<open>The operations that touch neither the id, nor the term, nor the vote.\<close>

definition same_vote :: "'sm raft_node_t \<Rightarrow> 'sm raft_node_t \<Rightarrow> bool" where
  "same_vote n n' \<longleftrightarrow> node_id n' = node_id n \<and> current_term n' = current_term n \<and> voted_for n' = voted_for n"

lemma same_vote_trans: "same_vote n m \<Longrightarrow> same_vote m n' \<Longrightarrow> same_vote n n'"
  by (simp add: same_vote_def)

lemma same_vote_fields [simp]:
  "same_vote n n" "same_vote n (unlock_node m) = same_vote n m" "same_vote n (m\<lparr>mutex_held := x\<rparr>) = same_vote n m"
  "same_vote n (m\<lparr>batcher := b\<rparr>) = same_vote n m" "same_vote n (m\<lparr>state_machine := sm\<rparr>) = same_vote n m"
  "same_vote (m\<lparr>last_applied := i\<rparr>) n = same_vote m n" "same_vote (m\<lparr>mutex_held := x\<rparr>) n = same_vote m n"
  "same_vote (m\<lparr>batcher := b\<rparr>) n = same_vote m n"
  "same_vote n (m\<lparr>next_index := ni\<rparr>) = same_vote n m" "same_vote n (m\<lparr>adaptive := ad\<rparr>) = same_vote n m" "same_vote n (raft_adaptive_rpc_start t m) = same_vote n m"
  by (auto simp: same_vote_def unlock_node_def raft_adaptive_rpc_start_def split: option.splits)

lemma append_entry_same:
  "raft_append_entry (Some n) e h = Inr (rc, n1, e', h') \<Longrightarrow> \<exists>n'. n1 = Some n' \<and> same_vote n n'"
  by (auto simp: raft_append_entry_def same_vote_def unlock_node_def Let_def split: if_splits option.splits prod.splits)

lemma replicate_same:
  "raft_replicate_logs (Some n) = Inr (rc, n1) \<Longrightarrow> \<exists>n'. n1 = Some n' \<and> same_vote n n'"
  by (auto simp: raft_replicate_logs_def same_vote_def unlock_node_def split: if_splits)

lemma process_batch_same:
  assumes "process_raft_batch c n h = Inr (n', h')"
  shows "same_vote n n'"
proof -
  from assms obtain entry h1 rc n1 entry1 h2 where
    a: "raft_append_entry (Some n) entry h1 = Inr (rc, n1, entry1, h2)"
    and rest: "bindr (if rstate (the n1) = RAFT_STATE_LEADER
            then bindr (raft_replicate_logs n1) (\<lambda>(_, n2). Inr n2) else Inr n1) (\<lambda>n2.
       case entry1 of None \<Rightarrow> Inl Null_deref
       | Some e \<Rightarrow> bindr (h_free (e_data e) h2) (\<lambda>h3. Inr (the n2, h3))) = Inr (n', h')"
    unfolding process_raft_batch_def by auto
  obtain m where m: "n1 = Some m" "same_vote n m" using append_entry_same [OF a] by blast
  from rest m show ?thesis
    by (auto split: if_splits option.splits dest!: replicate_same intro: same_vote_trans)
qed

lemma client_command_same:
  assumes "raft_handle_client_command (Some n) cmd h = Inr (rc, Some n', h')"
  shows "same_vote n n'"
proof (cases cmd)
  case None
  with assms show ?thesis by (simp add: raft_handle_client_command_def)
next
  case (Some p)
  have d: "same_vote n m" if "append_directly src sz (n\<lparr>batcher := b\<rparr>) h = Inr (m, h'')" "rstate n = RAFT_STATE_LEADER"
    for src sz b m h''
    using process_batch_same [of _ "n\<lparr>batcher := b\<rparr>" h m h''] append_directly_as_batch [of "n\<lparr>batcher := b\<rparr>" src sz h] that
    by simp
  from assms Some show ?thesis
    by (cases p) (auto simp: raft_handle_client_command_def Let_def split: if_splits dest: d)
qed

lemma sending_same:
  "raft_send_append_entries fl t1 t2 a (Some n) target es len h = Inr (rc, Some n', h') \<Longrightarrow> same_vote n n'"
  "raft_send_request_vote fl t1 t2 (Some n) target h = Inr (rc, m, Some n', h') \<Longrightarrow> same_vote n n'"
  by (auto simp: raft_send_append_entries_def raft_send_request_vote_def Let_def
      split: prod.splits if_splits option.splits dest!: adaptive_rpc_end_inv)

lemma apply_entry_same: "apply_entry app h e n = Inr (r, n') \<Longrightarrow> same_vote n n'"
  by (auto simp: apply_entry_def apply_command_batch_def Let_def split: option.splits if_splits prod.splits)

lemma apply_loop_same: "apply_loop app h commit i es n = Inr n' \<Longrightarrow> same_vote n n'"
proof (induction app h commit i es n rule: apply_loop.induct)
  case (2 app h commit i e es n)
  consider "commit < i" | "\<not> commit < i" "e_type e \<noteq> RAFT_ENTRY_COMMAND"
    | "\<not> commit < i" "e_type e = RAFT_ENTRY_COMMAND" by blast
  then show ?case
  proof cases
    case 3
    then obtain r n1 where n1: "apply_entry app h e n = Inr (r, n1)"
      "apply_loop app h commit (i + 1) es (n1\<lparr>last_applied := i\<rparr>) = Inr n'"
      using 2(3) by auto
    have "same_vote n1 n'" using 2(2) [OF 3(1) _ n1(1) refl n1(2)] 3(2) by simp
    with apply_entry_same [OF n1(1)] show ?thesis by (rule same_vote_trans)
  qed (use 2 in simp_all)
qed simp

lemma applying_same:
  "raft_apply_committed_entries app h (Some n) = Inr (rc, Some n') \<Longrightarrow> same_vote n n'"
  by (auto simp: raft_apply_committed_entries_def split: if_splits dest!: apply_loop_same)

lemma quiet_same:
  "raft_become_leader ok (Some n) = Inr ((), Some n') \<Longrightarrow> same_vote n n'"
  "raft_record_vote (Some n) = Inr (b, Some n') \<Longrightarrow> same_vote n n'"
  "raft_check_election_timeout fl now (Some n) = Inr (b, Some n') \<Longrightarrow> same_vote n n'"
  "raft_reset_election_timer now (Some n) = Inr ((), Some n') \<Longrightarrow> same_vote n n'"
  "raft_check_heartbeat_status fl now (Some n) = Inr ((), Some n') \<Longrightarrow> same_vote n n'"
  "raft_start_apply_thread tok (Some n) = Inr (rc, Some n') \<Longrightarrow> same_vote n n'"
  "raft_stop_apply_thread (Some n) = Inr (rc, Some n') \<Longrightarrow> same_vote n n'"
  "raft_init_state_machine (Some n) kv h = Inr (rc, Some n', h') \<Longrightarrow> same_vote n n'"
  by (auto simp: raft_become_leader_def raft_record_vote_def raft_check_election_timeout_def
      raft_reset_election_timer_def raft_check_heartbeat_status_def raft_start_apply_thread_def
      raft_stop_apply_thread_def raft_init_state_machine_def raft_adaptive_record_heartbeat_def same_vote_def
      unlock_node_def Let_def split: option.splits prod.splits if_splits dest!: adaptive_missed_inv)

lemma no_request_same:
  "raft_handle_request_vote now (Some n) rq rs = Inr (-1, Some n', rs') \<Longrightarrow> same_vote n n'"
  by (cases rq; cases rs) (auto simp: raft_handle_request_vote_def Let_def split: if_splits)

lemmas ops_same = quiet_same no_request_same process_batch_same client_command_same sending_same applying_same

lemma become_follower_moves:
  assumes "raft_become_follower now t c (Some n) term h = Inr (Some n', h')"
  shows "node_id n' = node_id n \<and> current_term n' = term"
proof -
  let ?n = "n\<lparr>mutex_held := True\<rparr>"
  have "node_id n1 = node_id n" if "stop_node_batcher t c ?n h = Inr (rc, n1, h')" for rc n1
    using stop_locked_keeps [OF that] by auto
  then show ?thesis using assms
    by (auto simp: raft_become_follower_def Let_def unlock_node_def raft_adaptive_record_heartbeat_def
        split: if_splits option.splits)
qed

lemma votes_inv_same: "same_vote n n' \<Longrightarrow> votes_inv (n, h, vs) \<Longrightarrow> votes_inv (n', h', vs)"
  using votes_inv_kept [of n h vs n' h'] by (simp add: same_vote_def)

lemma append_entries_any:
  assumes "raft_handle_append_entries now (Some n) rq rs = Inr (rc, Some n', rs')"
  shows "node_id n' = node_id n \<and> ((current_term n' = current_term n \<and> voted_for n' = voted_for n)
      \<or> current_term n < current_term n')"
  using assms by (cases rq; cases rs)
    (auto simp: raft_handle_append_entries_def unlock_node_def Let_def split: if_splits)

lemma votes_inv_step:
  assumes "vote_step s s'" "votes_inv s"
  shows "votes_inv s'"
  using assms
proof cases
  case (granted now n rq rs n' rs' c h vs)
  note m = request_vote_moves [OF granted(3)]
  from m(2) [OF granted(4)] have t: "\<not> msg_term rq < current_term n" "current_term n' = msg_term rq"
    "voted_for n' = c" "voted_for (set_term (msg_term rq) n) = 0 \<or> voted_for (set_term (msg_term rq) n) = c"
    using granted(5) by (auto simp: ucast_up_ucast_id is_up)
  have "votes_inv (n', h, vs @ [(current_term n', ucast c)])"
  proof (rule votes_inv_cast)
    show "votes_inv (n, h, vs)" using assms(2) granted(1) by simp
    show "current_term n' = current_term n \<longrightarrow> voted_for n = 0 \<or> voted_for n = c"
      using t by (auto simp: set_term_def)
  qed (use m(1) t granted(6) in auto)
  then show ?thesis using granted(2) t by simp
next
  case (refused now n rq rs n' rs' h vs)
  note m = request_vote_moves [OF refused(3)]
  from m(3) [OF refused(4)] show ?thesis
    using votes_inv_kept [OF _ m(1)] assms(2) refused(1,2) by blast
next
  case (started now n rc n' h vs)
  have "node_id n' = node_id n" "current_term n' = current_term n + 1" "voted_for n' = node_id n"
    using started(3) by (auto simp: raft_start_election_def unlock_node_def)
  from votes_inv_elected [OF this] show ?thesis using assms(2) started(1,2) inc_less [OF started(4)] by simp
next
  case (candidate now n n' h vs)
  have "node_id n' = node_id n" "current_term n' = current_term n + 1" "voted_for n' = node_id n"
    using candidate(3) by (auto simp: raft_become_candidate_def raft_adaptive_record_vote_def unlock_node_def Let_def
        split: option.splits)
  from votes_inv_elected [OF this] show ?thesis using assms(2) candidate(1,2) inc_less [OF candidate(4)] by simp
next
  case (stepped_down now t c n tm h n' h' vs)
  with become_follower_moves [OF stepped_down(3)] show ?thesis
    using votes_inv_kept [of n h vs n' h'] assms(2) by simp
next
  case (appended now n rq rs rc n' rs' h vs)
  from append_entries_any [OF appended(3)] show ?thesis
    using votes_inv_kept [of n h vs n'] assms(2) appended(1,2) by blast
qed (use assms(2) in \<open>auto dest!: append_entry_same replicate_same intro: votes_inv_same [rotated] ops_same\<close>)

lemma votes_inv_run: "vote_step\<^sup>*\<^sup>* s s' \<Longrightarrow> votes_inv s \<Longrightarrow> votes_inv s'"
  by (induction rule: rtranclp_induct) (auto intro: votes_inv_step)

lemma one_vote:
  assumes "vote_step\<^sup>*\<^sup>* (n, h, []) (n', h', vs)" "node_id n \<noteq> 0" "(t, c) \<in> set vs" "(t, c') \<in> set vs"
  shows "c = c'"
proof -
  have "votes_inv (n, h, [])" using assms(2) by (simp add: votes_inv_def)
  from votes_inv_run [OF assms(1) this] assms(3,4) show ?thesis
    by (fastforce simp: votes_inv_def)
qed

section \<open>Properties\<close>

text \<open>C1: election safety. Let each of \<open>k\<close> nodes with non-zero ids run all the operations of
  \<open>raft_core.c\<close>, in any order and with any arguments, except that granted candidates have
  non-zero ids of 32 bits, that no election starts in the largest term, and that
  \<open>raft_become_follower\<close> is called with a term above the current one. Then two candidates
  that have the votes of more than half of the nodes in the same term are the same.\<close>

theorem election_safety:
  assumes "\<forall>i < k. (\<exists>h h'. vote_step\<^sup>*\<^sup>* (start i, h, []) (now i, h', votes i)) \<and> node_id (start i) \<noteq> 0"
    and "k div 2 < card {i. i < k \<and> (t, c) \<in> set (votes i)}"
    and "k div 2 < card {i. i < k \<and> (t, c') \<in> set (votes i)}"
  shows "c = c'"
proof -
  let ?A = "{i. i < k \<and> (t, c) \<in> set (votes i)}" and ?B = "{i. i < k \<and> (t, c') \<in> set (votes i)}"
  have "?A \<inter> ?B \<noteq> {}"
  proof
    assume "?A \<inter> ?B = {}"
    then have "card ?A + card ?B = card (?A \<union> ?B)" by (simp add: card_Un_disjoint)
    also have "\<dots> \<le> card {..<k}" by (intro card_mono) auto
    finally show False using assms(2,3) by simp
  qed
  then obtain i where "i < k" "(t, c) \<in> set (votes i)" "(t, c') \<in> set (votes i)" by auto
  with assms(1) one_vote [of "start i" _ "now i" _ "votes i"] show ?thesis by blast
qed

text \<open>Five nodes, of which three vote for node 2 in term 5.\<close>

theorem election_safety_witness:
  "\<exists>(now :: nat \<Rightarrow> nat raft_node_t) votes.
     (\<forall>i < 5. vote_step\<^sup>*\<^sup>* (sample_node\<lparr>node_id := of_nat i + 1\<rparr>, empty_heap, []) (now i, empty_heap, votes i))
     \<and> (\<forall>c'. 2 < card {i. i < 5 \<and> (5, c') \<in> set (votes i)} \<longrightarrow> c' = 2)"
proof -
  let ?n = "\<lambda>i :: nat. sample_node\<lparr>node_id := of_nat i + 1\<rparr> :: nat raft_node_t"
  have "\<exists>n' rs'. raft_handle_request_vote 0 (Some (?n i)) (Some (vote_request 5 2 0 0)) (Some blank_response)
      = Inr (0, Some n', Some rs') \<and> rv_resp_granted (msg_data rs') = Inr True \<and> current_term n' = 5" for i
  proof -
    have "\<not> mutex_held (?n i)" "log_entries (rlog (?n i)) = []" "current_term (?n i) \<le> 5"
      "current_term (?n i) < 5 \<or> voted_for (?n i) = 0 \<or> ucast (voted_for (?n i)) = (2 :: u64)"
      by simp_all
    from vote_for_empty_log [OF this, of 0 0 0] show ?thesis by metis
  qed
  then obtain now resp where v: "raft_handle_request_vote 0 (Some (?n i)) (Some (vote_request 5 2 0 0)) (Some blank_response)
      = Inr (0, Some (now i), Some (resp i))" "rv_resp_granted (msg_data (resp i)) = Inr True" "current_term (now i) = 5" for i
    by metis
  have "vote_step (?n i, empty_heap, []) (now i, empty_heap, [(5, 2)])" for i
    using vote_step.granted [OF v(1,2), of 2 i empty_heap "[]"] by simp
  moreover define final where "final = (\<lambda>i :: nat. if i < 3 then now i else ?n i)"
  moreover define votes :: "nat \<Rightarrow> votes" where "votes = (\<lambda>i. if i < 3 then [(5, 2)] else [])"
  ultimately have run: "vote_step\<^sup>*\<^sup>* (?n i, empty_heap, []) (final i, empty_heap, votes i)" for i
    by auto
  have id: "node_id (?n i) \<noteq> 0" if "i < 5" for i
  proof -
    have "unat (of_nat i + 1 :: u32) = i + 1" using that by (simp add: unat_of_nat_u32 unat_word_ariths)
    then show ?thesis by auto
  qed
  have "{i. i < 5 \<and> (5, 2) \<in> set (votes i)} = {0, 1, 2}"
    by (auto simp: votes_def split: if_splits)
  then have maj: "5 div 2 < card {i. i < 5 \<and> (5, 2) \<in> set (votes i)}" by simp
  have "c' = 2" if c: "2 < card {i. i < 5 \<and> (5, c') \<in> set (votes i)}" for c'
  proof (rule election_safety [of 5 ?n final votes 5])
    show "\<forall>i < 5. (\<exists>h h'. vote_step\<^sup>*\<^sup>* (?n i, h, []) (final i, h', votes i)) \<and> node_id (?n i) \<noteq> 0" using run id by blast
    show "5 div 2 < card {i. i < 5 \<and> (5, c') \<in> set (votes i)}" using c by simp
  qed (rule maj)
  with run show ?thesis by blast
qed

end
