(* ===== verification/Server_Net.thy ===== *)
theory Server_Net
  imports Raft_State Spsc
begin

text \<open>
  The start of the server (\<open>src/main.c\<close> and \<open>src/network.c\<close>): reading the addresses of
  the cluster from \<open>cluster.txt\<close>, the client sockets, the handshake that connects every pair
  of nodes, and the queues between the threads. The C library functions the parser uses
  (\<open>strtok_r\<close>, \<open>strchr\<close>, \<open>strtoul\<close>, \<open>inet_pton\<close>) are written out; what the operating
  system answers to the socket calls is an argument.
\<close>

section \<open>The cluster\<close>

record sockaddr_in =
  sin_family :: u16
  sin_port :: u16
  sin_addr :: bytes

text \<open>\<open>presentation_ip\<close> is the C string the array of \<open>P_ADDR_LEN\<close> characters holds.\<close>

record dual_format_addr_t =
  presentation_ip :: bytes
  presentation_port :: u16
  node_addr :: sockaddr_in

record cluster_t =
  cluster_nodes :: "dual_format_addr_t list"
  node_fds :: "int list"
  self_id :: u8
  num_nodes :: u8

definition P_ADDR_LEN :: nat where "P_ADDR_LEN = 22"
definition CLUSTER_ARRAY_LEN :: nat where "CLUSTER_ARRAY_LEN = 256"
definition AF_INET :: u16 where "AF_INET = 2"

definition zero_addr :: dual_format_addr_t where
  "zero_addr = \<lparr>presentation_ip = [], presentation_port = 0,
     node_addr = \<lparr>sin_family = 0, sin_port = 0, sin_addr = replicate 4 0\<rparr>\<rparr>"

section \<open>Library functions on C strings\<close>

definition is_newline :: "u8 \<Rightarrow> bool" where "is_newline c \<longleftrightarrow> c = 10 \<or> c = 13"
definition is_digit :: "u8 \<Rightarrow> bool" where "is_digit c \<longleftrightarrow> 48 \<le> c \<and> c \<le> 57"
definition is_space :: "u8 \<Rightarrow> bool" where "is_space c \<longleftrightarrow> c = 32 \<or> 9 \<le> c \<and> c \<le> 13"

text \<open>\<open>strtok_r\<close> with the delimiters newline and carriage return: the next token and what
  the saved pointer points to.\<close>

definition strtok_lines :: "bytes \<Rightarrow> (bytes \<times> bytes) option" where
  "strtok_lines s =
     (let s1 = dropWhile is_newline s
      in if s1 = [] then None
         else Some (takeWhile (\<lambda>c. \<not> is_newline c) s1, drop 1 (dropWhile (\<lambda>c. \<not> is_newline c) s1)))"

definition decimal_value :: "bytes \<Rightarrow> nat" where
  "decimal_value ds = foldl (\<lambda>v d. 10 * v + (unat d - 48)) 0 ds"

text \<open>\<open>strtoul(s, &end, 10)\<close>: the value and the rest of the string. The value is the largest
  one when the digits overflow, and is negated after a minus sign.\<close>

definition strtoul10 :: "bytes \<Rightarrow> u64 \<times> bytes" where
  "strtoul10 s =
     (let s1 = dropWhile is_space s;
          neg = (s1 \<noteq> [] \<and> hd s1 = 45);
          s2 = (if s1 \<noteq> [] \<and> (hd s1 = 45 \<or> hd s1 = 43) then tl s1 else s1);
          ds = takeWhile is_digit s2
      in if ds = [] then (0, s)
         else (if 2 ^ 64 \<le> decimal_value ds then - 1
               else if neg then - of_nat (decimal_value ds) else of_nat (decimal_value ds),
               dropWhile is_digit s2))"

text \<open>\<open>inet_pton(AF_INET, s, _)\<close>: four decimal numbers of at most 255 without leading zeros,
  separated by dots. \<open>cur\<close> is the number being read, if it has a digit.\<close>

fun pton_loop :: "bytes \<Rightarrow> nat option \<Rightarrow> bytes \<Rightarrow> bytes option" where
  "pton_loop octets cur [] =
     (case cur of None \<Rightarrow> None
      | Some n \<Rightarrow> if length octets = 3 then Some (octets @ [of_nat n]) else None)"
| "pton_loop octets cur (c # cs) =
     (if is_digit c
      then (case cur of
              None \<Rightarrow> if length octets = 4 then None else pton_loop octets (Some (unat c - 48)) cs
            | Some n \<Rightarrow>
                if n = 0 then None
                else if 255 < 10 * n + (unat c - 48) then None
                else pton_loop octets (Some (10 * n + (unat c - 48))) cs)
      else if c = 46
      then (case cur of
              None \<Rightarrow> None
            | Some n \<Rightarrow> if length octets = 3 then None else pton_loop (octets @ [of_nat n]) None cs)
      else None)"

definition inet_pton4 :: "bytes \<Rightarrow> bytes option" where
  "inet_pton4 s = pton_loop [] None s"

definition htons :: "u16 \<Rightarrow> u16" where
  "htons x = push_bit 8 x OR drop_bit 8 x"

section \<open>Reading the configuration\<close>

definition set_node :: "nat \<Rightarrow> (dual_format_addr_t \<Rightarrow> dual_format_addr_t) \<Rightarrow> cluster_t \<Rightarrow> cluster_t" where
  "set_node i f c = c\<lparr>cluster_nodes := (cluster_nodes c)[i := f (cluster_nodes c ! i)]\<rparr>"

text \<open>The body of the loop of \<open>parse_ip_addr\<close> for one line: the node index and the cluster
  afterwards.\<close>

definition parse_line :: "bytes \<Rightarrow> nat \<Rightarrow> cluster_t \<Rightarrow> (nat \<times> cluster_t) res" where
  "parse_line line node_index c =
     (if length line = 0 then Inr (node_index, c)
      else if 58 \<notin> set line then Inr (node_index, c)
      else
        let ip = takeWhile (\<lambda>b. b \<noteq> 58) line
        in if P_ADDR_LEN \<le> length ip then Inr (node_index, c)
           else if length ip = 0 then Inr (node_index, c)
           else
             let c1 = set_node node_index (\<lambda>n. n\<lparr>presentation_ip := ip\<rparr>) c;
                 port_str = drop (length ip + 1) line
             in if port_str = [] then Inr (node_index, c1)
                else
                  let (port_ul, endptr) = strtoul10 port_str
                  in if endptr \<noteq> [] \<or> port_ul = 0 \<or> 65535 < port_ul then Inr (node_index, c1)
                     else
                       let c2 = set_node node_index (\<lambda>n. n\<lparr>presentation_port := ucast port_ul,
                             node_addr := \<lparr>sin_family = AF_INET, sin_port = htons (ucast port_ul),
                                           sin_addr = replicate 4 0\<rparr>\<rparr>) c1
                       in case inet_pton4 ip of
                            None \<Rightarrow> Inl Assert_failed
                          | Some a \<Rightarrow> Inr (node_index + 1,
                              set_node node_index (\<lambda>n. n\<lparr>node_addr := (node_addr n)\<lparr>sin_addr := a\<rparr>\<rparr>) c2))"

lemma strtok_lines_shorter:
  assumes "strtok_lines s = Some (line, rest)"
  shows "length rest < length s"
proof -
  let ?s = "dropWhile is_newline s"
  from assms have ne: "?s \<noteq> []" and rest: "rest = drop 1 (dropWhile (\<lambda>c. \<not> is_newline c) ?s)"
    by (auto simp: strtok_lines_def Let_def split: if_splits)
  then obtain a as where s: "?s = a # as" by (cases ?s) auto
  with hd_dropWhile [of is_newline s] have "\<not> is_newline a" by auto
  with s have "length rest \<le> length as"
    using length_dropWhile_le [of "\<lambda>c. \<not> is_newline c" as] by (simp add: rest)
  moreover have "length ?s \<le> length s" by (rule length_dropWhile_le)
  ultimately show ?thesis using s by simp
qed

function parse_loop :: "bytes \<Rightarrow> nat \<Rightarrow> cluster_t \<Rightarrow> (nat \<times> cluster_t) res" where
  "parse_loop s node_index c =
     (case strtok_lines s of
        None \<Rightarrow> Inr (node_index, c)
      | Some (line, rest) \<Rightarrow>
          if node_index < MAX_NODES
          then bindr (parse_line line node_index c) (\<lambda>(i, c'). parse_loop rest i c')
          else Inr (node_index, c))"
  by pat_completeness auto
termination
  by (relation "measure (\<lambda>(s, _, _). length s)") (auto dest: strtok_lines_shorter)

declare parse_loop.simps [simp del]

text \<open>\<open>parse_ip_addr\<close>: \<open>file\<close> is \<open>cluster.txt\<close>, \<open>None\<close> when it cannot be opened;
  \<open>mem\<close> tells whether \<open>malloc\<close> found memory.\<close>

definition parse_ip_addr :: "bytes option \<Rightarrow> bool \<Rightarrow> cluster_t \<Rightarrow> u8 \<Rightarrow> cluster_t res" where
  "parse_ip_addr file mem cluster self =
     (let c0 = cluster\<lparr>self_id := self, num_nodes := 0,
            node_fds := replicate MAX_NODES (-1) @ drop MAX_NODES (node_fds cluster),
            cluster_nodes := replicate CLUSTER_ARRAY_LEN zero_addr\<rparr>
      in case file of
           None \<Rightarrow> Inl Assert_failed
         | Some contents \<Rightarrow>
             let (len, fp) = fsizeof \<lparr>fl_length = length contents, fl_pos = 0\<rparr>
             in bindr (assert_c (0 < len)) (\<lambda>_.
                bindr (assert_c mem) (\<lambda>_.
                let buffer = take (unat len) (drop (fl_pos fp) contents)
                in bindr (assert_c (length buffer = unat len)) (\<lambda>_.
                bindr (parse_loop (takeWhile (\<lambda>b. b \<noteq> 0) buffer) 0 c0) (\<lambda>(node_index, c1).
                bindr (assert_c (node_index \<le> MAX_NODES)) (\<lambda>_.
                let c2 = c1\<lparr>num_nodes := of_nat node_index\<rparr>
                in bindr (assert_c (self_id c2 < num_nodes c2)) (\<lambda>_. Inr c2)))))))"

section \<open>A configuration is read back\<close>

text \<open>A node address as it is meant, its line in the file and its entry in the cluster.\<close>

record node_config =
  nc_ip :: "nat \<times> nat \<times> nat \<times> nat"
  nc_port :: nat

fun decimal :: "nat \<Rightarrow> bytes" where
  "decimal n = (if n < 10 then [of_nat (48 + n)] else decimal (n div 10) @ [of_nat (48 + n mod 10)])"

declare decimal.simps [simp del]

fun render_ip :: "nat \<times> nat \<times> nat \<times> nat \<Rightarrow> bytes" where
  "render_ip (a, b, c, d) = decimal a @ 46 # decimal b @ 46 # decimal c @ 46 # decimal d"

definition render_line :: "node_config \<Rightarrow> bytes" where
  "render_line nc = render_ip (nc_ip nc) @ 58 # decimal (nc_port nc)"

definition render_config :: "node_config list \<Rightarrow> bytes" where
  "render_config ncs = concat (map (\<lambda>nc. render_line nc @ [10]) ncs)"

fun config_ip :: "nat \<times> nat \<times> nat \<times> nat \<Rightarrow> bytes" where
  "config_ip (a, b, c, d) = map of_nat [a, b, c, d]"

definition config_node :: "node_config \<Rightarrow> dual_format_addr_t" where
  "config_node nc =
     \<lparr>presentation_ip = render_ip (nc_ip nc), presentation_port = of_nat (nc_port nc),
      node_addr = \<lparr>sin_family = AF_INET, sin_port = htons (of_nat (nc_port nc)),
                   sin_addr = config_ip (nc_ip nc)\<rparr>\<rparr>"

definition config_ok :: "node_config \<Rightarrow> bool" where
  "config_ok nc \<longleftrightarrow> (case nc_ip nc of (a, b, c, d) \<Rightarrow> a < 256 \<and> b < 256 \<and> c < 256 \<and> d < 256)
     \<and> 0 < nc_port nc \<and> nc_port nc < 65536"

lemma digit_value: "k < 10 \<Longrightarrow> unat (of_nat (48 + k) :: u8) = 48 + k"
  by (simp add: unat_of_nat del: of_nat_add)

lemma digit_is_digit: "k < 10 \<Longrightarrow> is_digit (of_nat (48 + k))"
  by (simp add: is_digit_def word_le_nat_alt digit_value del: of_nat_add)

lemma decimal_digits: "\<forall>c \<in> set (decimal n). is_digit c"
proof (induction n rule: decimal.induct)
  case (1 n)
  then show ?case
    by (subst decimal.simps) (auto simp: digit_is_digit simp del: of_nat_add)
qed

lemma decimal_ne [simp]: "decimal n \<noteq> []"
  by (subst decimal.simps) simp

lemma decimal_value_snoc: "decimal_value (ds @ [d]) = 10 * decimal_value ds + (unat d - 48)"
  by (simp add: decimal_value_def)

lemma decimal_value_decimal [simp]: "decimal_value (decimal n) = n"
proof (induction n rule: decimal.induct)
  case (1 n)
  show ?case
  proof (cases "n < 10")
    case True
    then show ?thesis
      by (subst decimal.simps) (simp add: decimal_value_def digit_value del: of_nat_add)
  next
    case False
    with 1 show ?thesis
      by (subst decimal.simps) (simp add: decimal_value_snoc digit_value del: of_nat_add)
  qed
qed

lemma decimal_short: "n < 1000 \<Longrightarrow> length (decimal n) \<le> 3"
  by (subst decimal.simps, simp, subst decimal.simps, simp, subst decimal.simps, simp)

lemma digit_props:
  assumes "is_digit c"
  shows "c \<noteq> 10" "c \<noteq> 13" "c \<noteq> 58" "c \<noteq> 46" "c \<noteq> 0" "\<not> is_space c" "c \<noteq> 45" "c \<noteq> 43"
  using assms by (auto simp: is_digit_def is_space_def word_le_nat_alt)

text \<open>Reading a number into an empty and into a started octet.\<close>

lemma pton_digits_started:
  assumes "\<forall>c \<in> set ds. is_digit c" "foldl (\<lambda>v d. 10 * v + (unat d - 48)) n ds < 256" "0 < n"
  shows "pton_loop octets (Some n) (ds @ rest)
    = pton_loop octets (Some (foldl (\<lambda>v d. 10 * v + (unat d - 48)) n ds)) rest"
  using assms
proof (induction ds arbitrary: n)
  case Nil
  then show ?case by simp
next
  case (Cons d ds)
  let ?m = "10 * n + (unat d - 48)"
  have grow: "m \<le> foldl (\<lambda>v d. 10 * v + (unat d - 48)) m es" for m and es :: bytes
  proof (induction es arbitrary: m)
    case (Cons e es)
    have "m \<le> 10 * m + (unat e - 48)" by simp
    also have "\<dots> \<le> foldl (\<lambda>v d. 10 * v + (unat d - 48)) (10 * m + (unat e - 48)) es" by (rule Cons.IH)
    finally show ?case by simp
  qed simp
  have "?m \<le> 255" using grow [of ?m ds] Cons.prems(2) by simp
  with Cons show ?case by simp
qed

lemma decimal_cases:
  obtains k where "n = k" "k < 10" "decimal n = [of_nat (48 + k)]"
  | d ds where "decimal n = d # ds" "is_digit d" "0 < unat d - 48" "\<forall>c \<in> set ds. is_digit c"
proof (induction n arbitrary: thesis rule: decimal.induct)
  case (1 n)
  show ?case
  proof (cases "n < 10")
    case True
    then show ?thesis using 1(2) [of n] by (simp add: decimal.simps [of n] del: of_nat_add)
  next
    case False
    then have n: "decimal n = decimal (n div 10) @ [of_nat (48 + n mod 10)]"
      by (subst decimal.simps) simp
    have last: "is_digit (of_nat (48 + n mod 10))" by (rule digit_is_digit) simp
    show ?thesis
    proof (rule 1(1) [OF False])
      fix k assume k: "n div 10 = k" "k < 10" "decimal (n div 10) = [of_nat (48 + k)]"
      with False have "0 < k" by simp
      with k last n show ?thesis
        by (intro 1(3) [of "of_nat (48 + k)" "[of_nat (48 + n mod 10)]"])
          (auto simp: digit_is_digit digit_value simp del: of_nat_add)
    next
      fix d ds assume "decimal (n div 10) = d # ds" "is_digit d" "0 < unat d - 48" "\<forall>c \<in> set ds. is_digit c"
      with last n show ?thesis by (intro 1(3) [of d "ds @ [of_nat (48 + n mod 10)]"]) auto
    qed
  qed
qed

lemma pton_decimal:
  assumes "n < 256" "length octets < 4"
  shows "pton_loop octets None (decimal n @ rest) = pton_loop octets (Some n) rest"
proof (rule decimal_cases [of n])
  fix k assume k: "n = k" "k < 10" "decimal n = [of_nat (48 + k)]"
  have "pton_loop octets None (of_nat (48 + k) # rest) = pton_loop octets (Some (unat (of_nat (48 + k) :: u8) - 48)) rest"
    using assms(2) digit_is_digit [OF k(2)] by (simp del: of_nat_add)
  with k show ?thesis by (simp add: digit_value del: of_nat_add)
next
  fix d ds assume d: "decimal n = d # ds" "is_digit d" "0 < unat d - 48" "\<forall>c \<in> set ds. is_digit c"
  have v: "foldl (\<lambda>v d. 10 * v + (unat d - 48)) (unat d - 48) ds = n"
    using decimal_value_decimal [of n] by (simp add: d(1) decimal_value_def)
  show ?thesis
    using assms d(2) pton_digits_started [OF d(4), of "unat d - 48" octets rest] v d(3)
    by (simp add: d(1))
qed

lemma pton_dot:
  "length octets < 3 \<Longrightarrow> pton_loop octets (Some n) (46 # rest) = pton_loop (octets @ [of_nat n]) None rest"
  by (simp add: is_digit_def)

lemma inet_pton4_render:
  assumes "a < 256" "b < 256" "c < 256" "d < 256"
  shows "inet_pton4 (render_ip (a, b, c, d)) = Some (config_ip (a, b, c, d))"
  using assms pton_decimal [of d "[of_nat a, of_nat b, of_nat c]" "[]"]
  by (simp add: inet_pton4_def pton_decimal pton_dot del: pton_loop.simps(2))

lemma strtoul10_decimal: "n < 65536 \<Longrightarrow> strtoul10 (decimal n) = (of_nat n, [])"
proof -
  assume n: "n < 65536"
  obtain d ds where d: "decimal n = d # ds" by (cases "decimal n") auto
  have all: "\<forall>c \<in> set (d # ds). is_digit c" using decimal_digits [of n] by (simp add: d)
  then have tw: "takeWhile is_digit (d # ds) = d # ds" and dw: "dropWhile is_digit (d # ds) = []"
    by (simp_all add: takeWhile_eq_all_conv)
  have d': "\<not> is_space d" "d \<noteq> 45" "d \<noteq> 43" using all digit_props by auto
  have sp: "dropWhile is_space (d # ds) = d # ds" using d'(1) by simp
  have v: "decimal_value (d # ds) = n" using decimal_value_decimal [of n] d by simp
  show ?thesis
    using n d'(2,3) by (simp add: strtoul10_def d Let_def tw dw sp v del: dropWhile.simps(2) takeWhile.simps(2))
qed

lemma render_ip_chars:
  "c \<in> set (render_ip ip) \<Longrightarrow> is_digit c \<or> c = 46"
  using decimal_digits by (cases ip) auto

lemma render_line_chars:
  assumes "c \<in> set (render_line nc)"
  shows "\<not> is_newline c \<and> c \<noteq> 0"
proof -
  from assms consider "c \<in> set (render_ip (nc_ip nc))" | "c = 58" | "c \<in> set (decimal (nc_port nc))"
    by (auto simp: render_line_def)
  then have "is_digit c \<or> c = 46 \<or> c = 58"
    using render_ip_chars [of c "nc_ip nc"] decimal_digits [of "nc_port nc"] by cases auto
  then show ?thesis using digit_props [of c] by (auto simp: is_newline_def)
qed

lemma render_line_ne [simp]: "render_line nc \<noteq> []"
  by (simp add: render_line_def)

lemma strtok_render: "strtok_lines (render_line nc @ 10 # rest) = Some (render_line nc, rest)"
proof -
  let ?l = "render_line nc"
  obtain x xs where x: "?l = x # xs" by (cases ?l) auto
  have nl: "\<forall>c \<in> set ?l. \<not> is_newline c" using render_line_chars by blast
  then have "dropWhile is_newline (?l @ 10 # rest) = ?l @ 10 # rest" by (simp add: x)
  moreover have "takeWhile (\<lambda>c. \<not> is_newline c) (?l @ 10 # rest) = ?l"
    using nl by (subst takeWhile_append2) (auto simp: is_newline_def)
  moreover have "dropWhile (\<lambda>c. \<not> is_newline c) (?l @ 10 # rest) = 10 # rest"
    using nl by (subst dropWhile_append2) (auto simp: is_newline_def)
  ultimately show ?thesis by (simp add: strtok_lines_def)
qed

lemma length_render_ip:
  assumes "config_ok nc"
  shows "length (render_ip (nc_ip nc)) < 22" "render_ip (nc_ip nc) \<noteq> []"
proof -
  obtain a b c d where ip: "nc_ip nc = (a, b, c, d)" by (cases "nc_ip nc") auto
  with assms have "a < 1000" "b < 1000" "c < 1000" "d < 1000" by (auto simp: config_ok_def)
  from this [THEN decimal_short] show "length (render_ip (nc_ip nc)) < 22" by (simp add: ip)
  show "render_ip (nc_ip nc) \<noteq> []" by (simp add: ip)
qed

lemma parse_line_render:
  assumes "config_ok nc" "i < length (cluster_nodes c)"
  shows "parse_line (render_line nc) i c
    = Inr (i + 1, c\<lparr>cluster_nodes := (cluster_nodes c)[i := config_node nc]\<rparr>)"
proof -
  let ?ip = "render_ip (nc_ip nc)"
  have no: "x \<noteq> 58" if "x \<in> set ?ip" for x
    using render_ip_chars [OF that] digit_props(3) [of x] by auto
  have ip: "takeWhile (\<lambda>b. b \<noteq> 58) (render_line nc) = ?ip"
    using no by (simp add: render_line_def takeWhile_append2)
  have mem: "58 \<in> set (render_line nc)" by (simp add: render_line_def)
  have port: "drop (length ?ip + 1) (render_line nc) = decimal (nc_port nc)"
    by (simp add: render_line_def)
  have p: "0 < nc_port nc" "nc_port nc < 65536" using assms(1) by (auto simp: config_ok_def)
  then have pv: "(of_nat (nc_port nc) :: u64) \<noteq> 0" "\<not> (65535 :: u64) < of_nat (nc_port nc)"
    using unat_of_nat_u64 [of "nc_port nc"] by (auto simp: word_less_nat_alt unat_eq_0 [symmetric])
  have up: "(ucast (of_nat (nc_port nc) :: u64) :: u16) = of_nat (nc_port nc)"
    by (rule bit_eqI) (auto simp: bit_simps)
  have pton: "inet_pton4 ?ip = Some (config_ip (nc_ip nc))"
    using assms(1) by (cases "nc_ip nc") (simp add: config_ok_def inet_pton4_render del: render_ip.simps config_ip.simps)
  note len = length_render_ip [OF assms(1)]
  let ?c1 = "set_node i (\<lambda>n. n\<lparr>presentation_ip := ?ip\<rparr>) c"
  let ?c2 = "set_node i (\<lambda>n. n\<lparr>presentation_port := of_nat (nc_port nc),
      node_addr := \<lparr>sin_family = AF_INET, sin_port = htons (of_nat (nc_port nc)), sin_addr = replicate 4 0\<rparr>\<rparr>) ?c1"
  let ?c3 = "set_node i (\<lambda>n. n\<lparr>node_addr := (node_addr n)\<lparr>sin_addr := config_ip (nc_ip nc)\<rparr>\<rparr>) ?c2"
  have long: "\<not> P_ADDR_LEN \<le> length ?ip" "length ?ip \<noteq> 0" "length (render_line nc) \<noteq> 0"
    using len by (simp_all add: P_ADDR_LEN_def)
  have run: "parse_line (render_line nc) i c = Inr (i + 1, ?c3)"
    unfolding parse_line_def ip port Let_def strtoul10_decimal [OF p(2)] pton
    using mem long pv by (simp only: up prod.case if_False if_True simp_thms decimal_ne not_False_eq_True option.case)
  have "?c3 = c\<lparr>cluster_nodes := (cluster_nodes c)[i := config_node nc]\<rparr>"
    using assms(2) by (cases "cluster_nodes c ! i") (simp add: set_node_def config_node_def del: render_ip.simps)
  with run show ?thesis by simp
qed

lemma parse_loop_nil: "parse_loop [] i c = Inr (i, c)"
  by (simp add: parse_loop.simps [of "[]"] strtok_lines_def)

lemma parse_loop_render:
  assumes "\<forall>nc \<in> set ncs. config_ok nc" "i \<le> MAX_NODES" "MAX_NODES \<le> length (cluster_nodes c)"
  shows "parse_loop (render_config ncs) i c
    = Inr (min MAX_NODES (i + length ncs),
           c\<lparr>cluster_nodes := take i (cluster_nodes c) @ map config_node (take (MAX_NODES - i) ncs)
               @ drop (i + length (take (MAX_NODES - i) ncs)) (cluster_nodes c)\<rparr>)"
  using assms
proof (induction ncs arbitrary: i c)
  case Nil
  then show ?case by (simp add: render_config_def parse_loop_nil)
next
  case (Cons nc ncs)
  have r: "render_config (nc # ncs) = render_line nc @ 10 # render_config ncs"
    by (simp add: render_config_def)
  note step = parse_loop.simps [of "render_config (nc # ncs)" i c, unfolded r strtok_render]
  show ?case
  proof (cases "i < MAX_NODES")
    case True
    let ?c = "c\<lparr>cluster_nodes := (cluster_nodes c)[i := config_node nc]\<rparr>"
    have l: "parse_line (render_line nc) i c = Inr (i + 1, ?c)"
      using Cons.prems True by (intro parse_line_render) auto
    have ih: "parse_loop (render_config ncs) (i + 1) ?c
      = Inr (min MAX_NODES (i + 1 + length ncs),
          ?c\<lparr>cluster_nodes := take (i + 1) (cluster_nodes ?c) @ map config_node (take (MAX_NODES - (i + 1)) ncs)
               @ drop (i + 1 + length (take (MAX_NODES - (i + 1)) ncs)) (cluster_nodes ?c)\<rparr>)"
      using Cons.prems True by (intro Cons.IH) auto
    obtain m where m: "MAX_NODES - i = Suc m" "MAX_NODES - (i + 1) = m" using True by (cases "MAX_NODES - i") auto
    have "i < length (cluster_nodes c)" using True Cons.prems(3) by simp
    with True l ih m show ?thesis
      by (simp add: step r take_Suc_conv_app_nth)
  next
    case False
    with Cons.prems have "i = MAX_NODES" by simp
    then show ?thesis using step by (simp add: r)
  qed
qed

lemma render_config_no_nul: "0 \<notin> set (render_config ncs)"
  by (auto simp: render_config_def dest: render_line_chars)

text \<open>C23: a file that lists node addresses, one per line, is read back: the nodes are the
  listed ones in order, the first five of them when there are more, with the port in network
  byte order and the address in binary. The connection slots are marked unused. The own id must
  be one of the listed nodes, else the assertion at the end fails.\<close>

theorem parse_ip_addr_roundtrip:
  assumes "\<forall>nc \<in> set ncs. config_ok nc" "ncs \<noteq> []" "length (render_config ncs) < 2 ^ 64"
  shows "if unat self < min MAX_NODES (length ncs)
    then \<exists>c'. parse_ip_addr (Some (render_config ncs)) True c self = Inr c'
      \<and> self_id c' = self \<and> unat (num_nodes c') = min MAX_NODES (length ncs)
      \<and> take (unat (num_nodes c')) (cluster_nodes c') = map config_node (take MAX_NODES ncs)
      \<and> take MAX_NODES (node_fds c') = replicate MAX_NODES (-1)
    else parse_ip_addr (Some (render_config ncs)) True c self = Inl Assert_failed"
proof -
  let ?s = "render_config ncs"
  let ?n = "min MAX_NODES (length ncs)"
  have ne: "0 < length ?s" using assms(2) by (cases ncs) (simp_all add: render_config_def)
  have len: "unat (of_nat (length ?s) :: u64) = length ?s" using assms(3) by (rule unat_of_nat_u64)
  have pos: "0 < (of_nat (length ?s) :: u64)" using ne len by (simp add: word_less_nat_alt)
  have whole: "takeWhile (\<lambda>b. b \<noteq> 0) ?s = ?s"
    using render_config_no_nul by (auto simp: takeWhile_eq_all_conv)
  have n: "unat (of_nat ?n :: u8) = ?n" by (simp add: unat_of_nat MAX_NODES_def)
  have start: "0 \<le> MAX_NODES" "MAX_NODES \<le> length (replicate CLUSTER_ARRAY_LEN zero_addr)"
    by (simp_all add: CLUSTER_ARRAY_LEN_def MAX_NODES_def)
  show ?thesis
    using pos n parse_loop_render [OF assms(1) start(1), of "c\<lparr>self_id := self, num_nodes := 0,
            node_fds := replicate MAX_NODES (-1) @ drop MAX_NODES (node_fds c),
            cluster_nodes := replicate CLUSTER_ARRAY_LEN zero_addr\<rparr>"] start(2)
    by (auto simp: parse_ip_addr_def fsizeof_def fseek0_def Let_def len whole word_less_nat_alt
        assert_c_def min.commute)
qed

text \<open>A cluster of two nodes, of which this one is the second.\<close>

theorem parse_ip_addr_roundtrip_witness:
  "\<exists>c'. parse_ip_addr (Some (render_config [\<lparr>nc_ip = (127, 0, 0, 1), nc_port = 8000\<rparr>, \<lparr>nc_ip = (10, 0, 0, 2), nc_port = 65535\<rparr>]))
      True \<lparr>cluster_nodes = [], node_fds = [], self_id = 0, num_nodes = 0\<rparr> 1 = Inr c' \<and> unat (num_nodes c') = 2"
proof -
  let ?ncs = "[\<lparr>nc_ip = (127, 0, 0, 1), nc_port = 8000\<rparr>, \<lparr>nc_ip = (10, 0, 0, 2), nc_port = 65535\<rparr>]"
  have ok: "\<forall>nc \<in> set ?ncs. config_ok nc" by (simp add: config_ok_def)
  have len: "length (render_config ?ncs) < 2 ^ 64"
    by (simp add: render_config_def render_line_def decimal.simps)
  have two: "unat (1 :: u8) < 2" "min MAX_NODES (length ?ncs) = 2"
    by (simp_all add: MAX_NODES_def)
  have ne: "?ncs \<noteq> []" by simp
  note parse_ip_addr_roundtrip [OF ok ne len, of 1 "\<lparr>cluster_nodes = [], node_fds = [], self_id = 0, num_nodes = 0\<rparr>"]
  then show ?thesis unfolding two(2) if_P [OF two(1)] by blast
qed

end
