(* ===== verification/Server_Cluster.thy ===== *)
theory Server_Cluster
  imports Server_Net Kv_Store
begin

text \<open>
  Connecting the cluster: \<open>init_cluster\<close>, in which every node accepts the nodes of lower id
  and then connects to those of higher id, each connection opening with an exchange of ids;
  \<open>set_cluster_comms_nonblocking\<close>; the client sockets of \<open>src/network.c\<close>; the log file
  and the queues. Each system call has its outcome as an argument. A loop that retries or waits
  is given the list of outcomes it sees; \<open>None\<close> means that it is still waiting at the end of
  that list.
\<close>

section \<open>The handshake\<close>

text \<open>\<open>Accepted fd id w\<close>: the connection, the id read from it (\<open>None\<close> if the read fails)
  and whether the own id could be written. \<open>Connected fd w id\<close> in the other direction.\<close>

datatype accept_outcome = Accept_failed | Accepted int "u8 option" bool
datatype connect_outcome = Socket_failed | Connect_refused | Connected int bool "u8 option"

definition set_fd :: "nat \<Rightarrow> int \<Rightarrow> cluster_t \<Rightarrow> cluster_t" where
  "set_fd i fd c = c\<lparr>node_fds := (node_fds c)[i := fd]\<rparr>"

text \<open>The accept loop; \<open>n\<close> rounds are left.\<close>

fun accept_loop :: "nat \<Rightarrow> accept_outcome list \<Rightarrow> cluster_t \<Rightarrow> cluster_t option res" where
  "accept_loop 0 es c = Inr (Some c)"
| "accept_loop (Suc n) [] c = Inr None"
| "accept_loop (Suc n) (e # es) c =
     (case e of
        Accept_failed \<Rightarrow> Inl Exit_called
      | Accepted conn_fd got w \<Rightarrow>
          (case got of
             None \<Rightarrow> Inl Exit_called
           | Some peer_id \<Rightarrow>
               if num_nodes c \<le> peer_id \<or> self_id c \<le> peer_id then accept_loop n es c
               else if \<not> w then Inl Exit_called
               else accept_loop n es (set_fd (unat peer_id) conn_fd c)))"

text \<open>Connecting to node \<open>i\<close>: a refused connection is tried again for ever.\<close>

fun connect_node :: "nat \<Rightarrow> connect_outcome list \<Rightarrow> cluster_t \<Rightarrow> cluster_t option res" where
  "connect_node i [] c = Inr None"
| "connect_node i (e # es) c =
     (case e of
        Socket_failed \<Rightarrow> Inl Exit_called
      | Connect_refused \<Rightarrow> connect_node i es c
      | Connected sock_fd w got \<Rightarrow>
          if \<not> w then Inl Exit_called
          else (case got of
                  None \<Rightarrow> Inl Exit_called
                | Some peer_id \<Rightarrow>
                    if unat peer_id \<noteq> i then Inl Exit_called else Inr (Some (set_fd i sock_fd c))))"

text \<open>The loop over the nodes of higher id; \<open>conns i\<close> are the outcomes for node \<open>i\<close>.\<close>

fun connect_loop :: "nat list \<Rightarrow> (nat \<Rightarrow> connect_outcome list) \<Rightarrow> cluster_t \<Rightarrow> cluster_t option res" where
  "connect_loop [] conns c = Inr (Some c)"
| "connect_loop (i # is) conns c =
     bindr (connect_node i (conns i) c) (\<lambda>r.
       case r of None \<Rightarrow> Inr None | Some c' \<Rightarrow> connect_loop is conns c')"

definition other_nodes :: "cluster_t \<Rightarrow> nat list" where
  "other_nodes c = filter (\<lambda>i. i \<noteq> unat (self_id c)) [0..<unat (num_nodes c)]"

definition init_cluster ::
  "bool \<Rightarrow> bool \<Rightarrow> bool \<Rightarrow> bool \<Rightarrow> accept_outcome list \<Rightarrow> (nat \<Rightarrow> connect_outcome list) \<Rightarrow> cluster_t
    \<Rightarrow> cluster_t option res" where
  "init_cluster socket_ok setsockopt_ok bind_ok listen_ok accepts conns c =
     (if \<not> socket_ok then Inl Exit_called
      else if \<not> setsockopt_ok then Inl Exit_called
      else if \<not> bind_ok then Inl Exit_called
      else if \<not> listen_ok then Inl Exit_called
      else
        let expected_incoming = length (filter (\<lambda>i. i < unat (self_id c)) (other_nodes c))
        in bindr (accept_loop expected_incoming accepts c) (\<lambda>r.
             case r of
               None \<Rightarrow> Inr None
             | Some c1 \<Rightarrow> connect_loop [unat (self_id c1) + 1..<unat (num_nodes c1)] conns c1))"

text \<open>\<open>set_cluster_comms_nonblocking\<close>: \<open>is_open\<close> tells whether \<open>fcntl\<close> succeeds on a
  descriptor; it never does on a negative one. The result is the list of descriptors that were
  switched.\<close>

definition fcntl_ok :: "(int \<Rightarrow> bool) \<Rightarrow> int \<Rightarrow> bool" where
  "fcntl_ok is_open fd \<longleftrightarrow> 0 \<le> fd \<and> is_open fd"

fun nonblocking_loop :: "(int \<Rightarrow> bool) \<Rightarrow> cluster_t \<Rightarrow> nat list \<Rightarrow> int list res" where
  "nonblocking_loop is_open c [] = Inr []"
| "nonblocking_loop is_open c (i # is) =
     (let fd = node_fds c ! i in
      bindr (assert_c (fcntl_ok is_open fd)) (\<lambda>_.
      bindr (assert_c (fcntl_ok is_open fd)) (\<lambda>_.
      bindr (nonblocking_loop is_open c is) (\<lambda>fds. Inr (fd # fds)))))"

definition set_cluster_comms_nonblocking :: "(int \<Rightarrow> bool) \<Rightarrow> cluster_t \<Rightarrow> int list res" where
  "set_cluster_comms_nonblocking is_open c = nonblocking_loop is_open c (other_nodes c)"

section \<open>Client sockets, log file and queues\<close>

record client_handeling_t =
  client_socket_recv :: int
  clinet_socket_send :: int

definition any_addr :: "u16 \<Rightarrow> sockaddr_in" where
  "any_addr port = \<lparr>sin_family = AF_INET, sin_port = htons port, sin_addr = replicate 4 0\<rparr>"

text \<open>\<open>init_client_listeners\<close>: \<open>fd1\<close> and \<open>fd2\<close> are what \<open>socket\<close> returned, \<open>bind\<close>
  whether a descriptor can be bound to an address. The second component lists the bindings.\<close>

definition init_client_listeners ::
  "int \<Rightarrow> int \<Rightarrow> (int \<Rightarrow> sockaddr_in \<Rightarrow> bool) \<Rightarrow> u8 \<Rightarrow> (client_handeling_t \<times> (int \<times> sockaddr_in) list) res" where
  "init_client_listeners fd1 fd2 bind self =
     (let addr1 = any_addr (9000 + ucast self)
      in if \<not> bind fd1 addr1 then Inl Exit_called
         else
           let addr2 = any_addr (10000 + ucast self)
           in if \<not> bind fd2 addr2 then Inl Exit_called
              else Inr (\<lparr>client_socket_recv = fd1, clinet_socket_send = fd2\<rparr>, [(fd1, addr1), (fd2, addr2)]))"

text \<open>\<open>init_logfile\<close>: the descriptor \<open>open\<close> returned; a negative one ends the program.\<close>

definition init_logfile :: "int \<Rightarrow> int res" where
  "init_logfile fd = (if fd < 0 then Inl Exit_called else Inr fd)"

definition init_channel :: "'g option \<Rightarrow> 'g spsc_queue_t \<Rightarrow> nat \<Rightarrow> 'g spsc_queue_t res" where
  "init_channel fresh q n =
     bindr (spsc_queue_init fresh q n) (\<lambda>(rc, q'). bindr (assert_c (rc = 0)) (\<lambda>_. Inr q'))"

text \<open>\<open>init_channels\<close>: the five queues, with the sizes of \<open>_1_to_3_t\<close> (two pointers),
  \<open>_2_to_3_t\<close> (three 64-bit numbers) and of a pointer.\<close>

record 'g channels =
  q_1_to_3 :: "'g spsc_queue_t"
  q_2_to_3 :: "'g spsc_queue_t"
  q_2_to_6 :: "'g spsc_queue_t"
  q_3_to_4 :: "'g spsc_queue_t"
  q_3_to_5 :: "'g spsc_queue_t"

definition init_channels ::
  "'g option \<Rightarrow> 'g option \<Rightarrow> 'g option \<Rightarrow> 'g option \<Rightarrow> 'g option \<Rightarrow> 'g channels \<Rightarrow> 'g channels res" where
  "init_channels g1 g2 g3 g4 g5 ch =
     bindr (init_channel g1 (q_1_to_3 ch) 16) (\<lambda>a.
     bindr (init_channel g2 (q_2_to_3 ch) 24) (\<lambda>b.
     bindr (init_channel g3 (q_2_to_6 ch) 24) (\<lambda>c.
     bindr (init_channel g4 (q_3_to_4 ch) 8) (\<lambda>d.
     bindr (init_channel g5 (q_3_to_5 ch) 8) (\<lambda>e.
       Inr \<lparr>q_1_to_3 = a, q_2_to_3 = b, q_2_to_6 = c, q_3_to_4 = d, q_3_to_5 = e\<rparr>)))))"

section \<open>When the cluster is connected\<close>

text \<open>Connections without system failures: the ids announced in the accepted connections with
  their descriptors, and per higher node the refused attempts before the descriptor.\<close>

definition incoming :: "(u8 \<times> int) list \<Rightarrow> accept_outcome list" where
  "incoming ps = map (\<lambda>(i, fd). Accepted fd (Some i) True) ps"

definition outgoing :: "(nat \<Rightarrow> nat) \<Rightarrow> (nat \<Rightarrow> int) \<Rightarrow> nat \<Rightarrow> connect_outcome list" where
  "outgoing refused fd i = replicate (refused i) Connect_refused @ [Connected (fd i) True (Some (of_nat i))]"

definition take_in :: "cluster_t \<Rightarrow> u8 \<times> int \<Rightarrow> cluster_t" where
  "take_in c p = (if num_nodes c \<le> fst p \<or> self_id c \<le> fst p then c else set_fd (unat (fst p)) (snd p) c)"

lemma set_fd_fields [simp]:
  "self_id (set_fd i fd c) = self_id c" "num_nodes (set_fd i fd c) = num_nodes c"
  "cluster_nodes (set_fd i fd c) = cluster_nodes c" "length (node_fds (set_fd i fd c)) = length (node_fds c)"
  by (simp_all add: set_fd_def)

lemma take_in_fields [simp]:
  "self_id (take_in c p) = self_id c" "num_nodes (take_in c p) = num_nodes c"
  "length (node_fds (take_in c p)) = length (node_fds c)"
  by (simp_all add: take_in_def)

lemma take_in_all_fields [simp]:
  "self_id (foldl take_in c ps) = self_id c \<and> num_nodes (foldl take_in c ps) = num_nodes c
   \<and> length (node_fds (foldl take_in c ps)) = length (node_fds c)"
  by (induction ps arbitrary: c) simp_all

lemma accept_loop_incoming:
  "accept_loop (length ps) (incoming ps) c = Inr (Some (foldl take_in c ps))"
  by (induction ps arbitrary: c) (auto simp: incoming_def take_in_def)

lemma unat_u8_bound: "unat (x :: u8) < 256"
  using unsigned_less [of x] by simp

lemma take_in_all_fd:
  assumes "j < unat (self_id c)" "self_id c < num_nodes c" "unat (num_nodes c) \<le> length (node_fds c)"
    and "\<forall>p \<in> set ps. 0 \<le> snd p"
  shows "0 \<le> node_fds (foldl take_in c ps) ! j \<longleftrightarrow> 0 \<le> node_fds c ! j \<or> of_nat j \<in> fst ` set ps"
  using assms
proof (induction ps arbitrary: c)
  case Nil
  then show ?case by simp
next
  case (Cons p ps)
  have j: "j < length (node_fds c)" "unat (of_nat j :: u8) = j"
    using Cons.prems(1-3) unat_u8_bound [of "self_id c"] by (auto simp: word_less_nat_alt unat_of_nat)
  have "0 \<le> node_fds (take_in c p) ! j \<longleftrightarrow> 0 \<le> node_fds c ! j \<or> of_nat j = fst p"
  proof (cases "num_nodes c \<le> fst p \<or> self_id c \<le> fst p")
    case True
    then have "of_nat j \<noteq> fst p" using Cons.prems(1,2) j(2) by (auto simp: word_le_nat_alt word_less_nat_alt)
    with True show ?thesis by (simp add: take_in_def)
  next
    case False
    have "of_nat j = fst p \<longleftrightarrow> unat (fst p) = j" using j(2) by auto
    with False Cons.prems(4) j(1) show ?thesis
      by (auto simp: take_in_def set_fd_def nth_list_update)
  qed
  with Cons.IH [of "take_in c p"] Cons.prems show ?case by auto
qed

lemma connect_node_outgoing:
  assumes "i < 256"
  shows "connect_node i (outgoing refused fd i) c = Inr (Some (set_fd i (fd i) c))"
proof -
  have "unat (of_nat i :: u8) = i" using assms by (simp add: unat_of_nat)
  then have "connect_node i (replicate k Connect_refused @ [Connected (fd i) True (Some (of_nat i))]) c
      = Inr (Some (set_fd i (fd i) c))" for k
    by (induction k) simp_all
  then show ?thesis by (simp add: outgoing_def)
qed

lemma connect_loop_outgoing:
  assumes "\<forall>i \<in> set is. i < 256"
  shows "connect_loop is (outgoing refused fd) c = Inr (Some (foldl (\<lambda>c i. set_fd i (fd i) c) c is))"
  using assms by (induction "is" arbitrary: c) (simp_all add: connect_node_outgoing)

lemma connect_all_fields [simp]:
  "self_id (foldl (\<lambda>c i. set_fd i (fd i) c) c is) = self_id c
   \<and> num_nodes (foldl (\<lambda>c i. set_fd i (fd i) c) c is) = num_nodes c"
  by (induction "is" arbitrary: c) simp_all

lemma connect_all_fd:
  assumes "\<forall>i \<in> set is. i < length (node_fds c)"
  shows "node_fds (foldl (\<lambda>c i. set_fd i (fd i) c) c is) ! j = (if j \<in> set is then fd j else node_fds c ! j)"
  using assms by (induction "is" arbitrary: c) (auto simp: set_fd_def nth_list_update)

lemma nonblocking_loop_eq:
  "nonblocking_loop (\<lambda>_. True) c is
    = (if \<forall>i \<in> set is. 0 \<le> node_fds c ! i then Inr (map (\<lambda>i. node_fds c ! i) is) else Inl Assert_failed)"
  by (induction "is") (auto simp: fcntl_ok_def Let_def assert_c_def)

lemma other_nodes_set: "set (other_nodes c) = {i. i < unat (num_nodes c) \<and> i \<noteq> unat (self_id c)}"
  by (auto simp: other_nodes_def)

lemma expected_incoming:
  assumes "self_id c < num_nodes c"
  shows "length (filter (\<lambda>i. i < unat (self_id c)) (other_nodes c)) = unat (self_id c)"
proof -
  have "unat (self_id c) \<le> unat (num_nodes c)" using assms by (simp add: word_less_nat_alt)
  then have "[0..<unat (num_nodes c)] = [0..<unat (self_id c)] @ [unat (self_id c)..<unat (num_nodes c)]"
    using upt_add_eq_append [of 0 "unat (self_id c)" "unat (num_nodes c) - unat (self_id c)"] by simp
  moreover have "filter (\<lambda>i. i < unat (self_id c)) [unat (self_id c)..<unat (num_nodes c)] = []"
    by (simp add: filter_empty_conv)
  moreover have "filter (\<lambda>i. i < unat (self_id c)) [0..<unat (self_id c)] = [0..<unat (self_id c)]"
    by (simp add: filter_id_conv)
  ultimately show ?thesis
    by (simp add: other_nodes_def conj_commute filter_filter [symmetric] del: filter_filter)
qed

lemma init_cluster_result:
  assumes "self_id c < num_nodes c" "unat (num_nodes c) \<le> length (node_fds c)"
    and "\<forall>i < unat (num_nodes c). node_fds c ! i = -1"
    and "length ps = unat (self_id c)" "\<forall>p \<in> set ps. 0 \<le> snd p" "\<forall>i. 0 \<le> fd i"
  shows "\<exists>c'. init_cluster True True True True (incoming ps) (outgoing refused fd) c = Inr (Some c')
    \<and> (\<forall>i. unat (self_id c) < i \<and> i < unat (num_nodes c) \<longrightarrow> node_fds c' ! i = fd i)
    \<and> set_cluster_comms_nonblocking (\<lambda>_. True) c'
      = (if \<forall>j < unat (self_id c). of_nat j \<in> fst ` set ps
         then Inr (map (\<lambda>i. node_fds c' ! i) (other_nodes c)) else Inl Assert_failed)"
proof -
  let ?s = "unat (self_id c)" and ?n = "unat (num_nodes c)"
  let ?c1 = "foldl take_in c ps"
  let ?is = "[?s + 1..<?n]"
  let ?c2 = "foldl (\<lambda>c i. set_fd i (fd i) c) ?c1 ?is"
  have s: "?s < ?n" using assms(1) by (simp add: word_less_nat_alt)
  have n: "?n < 256" by (rule unat_u8_bound)
  have turns: "length (filter (\<lambda>i. i < ?s) (other_nodes c)) = length ps"
    using expected_incoming [OF assms(1)] assms(4) by simp
  have in_range: "\<forall>i \<in> set ?is. i < length (node_fds ?c1)" using assms(2) by simp
  have run: "init_cluster True True True True (incoming ps) (outgoing refused fd) c = Inr (Some ?c2)"
    using n accept_loop_incoming [of ps c] connect_loop_outgoing [of ?is refused fd ?c1]
    by (simp add: init_cluster_def turns)
  have hi: "node_fds ?c2 ! i = fd i" if "?s < i" "i < ?n" for i
    using connect_all_fd [OF in_range, of fd i] that by simp
  have lo: "0 \<le> node_fds ?c2 ! j \<longleftrightarrow> of_nat j \<in> fst ` set ps" if "j < ?s" for j
    using connect_all_fd [OF in_range, of fd j] take_in_all_fd [OF that assms(1,2,5)] assms(3) that s by auto
  have oth: "other_nodes ?c2 = other_nodes c" by (simp add: other_nodes_def)
  have connected: "(\<forall>i \<in> set (other_nodes c). 0 \<le> node_fds ?c2 ! i) \<longleftrightarrow> (\<forall>j < ?s. of_nat j \<in> fst ` set ps)"
  proof
    assume a: "\<forall>i \<in> set (other_nodes c). 0 \<le> node_fds ?c2 ! i"
    show "\<forall>j < ?s. of_nat j \<in> fst ` set ps"
      using a lo s by (auto simp: other_nodes_set)
  next
    assume a: "\<forall>j < ?s. of_nat j \<in> fst ` set ps"
    show "\<forall>i \<in> set (other_nodes c). 0 \<le> node_fds ?c2 ! i"
    proof
      fix i assume "i \<in> set (other_nodes c)"
      then have "i < ?s \<or> ?s < i \<and> i < ?n" by (auto simp: other_nodes_set)
      then show "0 \<le> node_fds ?c2 ! i" using a lo hi assms(6) by auto
    qed
  qed
  have "set_cluster_comms_nonblocking (\<lambda>_. True) ?c2 = (if \<forall>j < ?s. of_nat j \<in> fst ` set ps
         then Inr (map (\<lambda>i. node_fds ?c2 ! i) (other_nodes c)) else Inl Assert_failed)"
    by (simp only: set_cluster_comms_nonblocking_def oth nonblocking_loop_eq connected)
  with run hi show ?thesis by blast
qed

text \<open>C22: without system failures, however often a connection is refused at first,
  \<open>init_cluster\<close> returns with every connection to a node of higher id in place. The cluster is
  completely connected, and \<open>set_cluster_comms_nonblocking\<close> succeeds, exactly when the ids
  announced in the accepted connections, one for each node of lower id, include every lower id.
  Otherwise, when a stranger or the same node twice used up a turn of the accept loop, it aborts
  the program.\<close>

theorem init_cluster_connects:
  assumes "self_id c < num_nodes c" "unat (num_nodes c) \<le> length (node_fds c)"
    and "\<forall>i < unat (num_nodes c). node_fds c ! i = -1"
    and "length ps = unat (self_id c)" "\<forall>p \<in> set ps. 0 \<le> snd p" "\<forall>i. 0 \<le> fd i"
  shows "\<exists>c'. init_cluster True True True True (incoming ps) (outgoing refused fd) c = Inr (Some c')
    \<and> (\<forall>i. unat (self_id c) < i \<and> i < unat (num_nodes c) \<longrightarrow> node_fds c' ! i = fd i)
    \<and> set_cluster_comms_nonblocking (\<lambda>_. True) c'
      = (if \<forall>j < unat (self_id c). of_nat j \<in> fst ` set ps
         then Inr (map (\<lambda>i. node_fds c' ! i) (other_nodes c)) else Inl Assert_failed)"
  using assms by (rule init_cluster_result)

text \<open>The middle node of three, reached by node 0 and connecting to node 2 at the second attempt.\<close>

definition three_nodes :: cluster_t where
  "three_nodes = \<lparr>cluster_nodes = replicate 256 zero_addr, node_fds = replicate 256 (-1), self_id = 1, num_nodes = 3\<rparr>"

theorem init_cluster_connects_witness:
  "\<exists>c'. init_cluster True True True True (incoming [(0, 7)]) (outgoing (\<lambda>_. 1) (\<lambda>_. 8)) three_nodes = Inr (Some c')
    \<and> node_fds c' ! 2 = 8
    \<and> set_cluster_comms_nonblocking (\<lambda>_. True) c' = Inr (map (\<lambda>i. node_fds c' ! i) [0, 2])"
proof -
  have "other_nodes three_nodes = [0, 2]"
    by (simp add: other_nodes_def three_nodes_def upt_rec)
  moreover have "\<forall>j < unat (self_id three_nodes). of_nat j \<in> fst ` set [(0 :: u8, 7 :: int)]"
    by (simp add: three_nodes_def)
  moreover have "unat (self_id three_nodes) < (2 :: nat) \<and> (2 :: nat) < unat (num_nodes three_nodes)"
    by (simp add: three_nodes_def)
  moreover have "self_id three_nodes < num_nodes three_nodes" "unat (num_nodes three_nodes) \<le> length (node_fds three_nodes)"
    "\<forall>i < unat (num_nodes three_nodes). node_fds three_nodes ! i = -1" "length [(0 :: u8, 7 :: int)] = unat (self_id three_nodes)"
    "\<forall>p \<in> set [(0 :: u8, 7 :: int)]. 0 \<le> snd p" "\<forall>i :: nat. (0 :: int) \<le> 8"
    by (simp_all add: three_nodes_def)
  ultimately show ?thesis
    using init_cluster_connects [of three_nodes "[(0, 7)]" "\<lambda>_. 8" "\<lambda>_. 1"] by auto
qed

text \<open>The two client sockets of the nodes of a cluster never share a port.\<close>

lemma client_ports:
  assumes "init_client_listeners fd1 fd2 bind self = Inr (cs, [(a, s1), (b, s2)])"
  shows "sin_port s1 = htons (9000 + ucast self) \<and> sin_port s2 = htons (10000 + ucast self)
    \<and> a = client_socket_recv cs \<and> b = clinet_socket_send cs"
  using assms by (auto simp: init_client_listeners_def any_addr_def Let_def split: if_splits)

text \<open>With memory for all of them, \<open>init_channels\<close> gives five empty queues.\<close>

lemma init_channels_ok:
  assumes "\<forall>g \<in> {g1, g2, g3, g4, g5}. g_items g = []"
  shows "\<exists>ch'. init_channels (Some g1) (Some g2) (Some g3) (Some g4) (Some g5) ch = Inr ch'
    \<and> (\<forall>q \<in> {q_1_to_3 ch', q_2_to_3 ch', q_2_to_6 ch', q_3_to_4 ch', q_3_to_5 ch'}.
         spsc_invar g_items q \<and> spsc_items g_items q = [])"
  using assms by (auto simp: init_channels_def init_channel_def spsc_queue_init_def spsc_invar_def spsc_items_def)

end
