(* ===== verification/Server_Messages.thy ===== *)
theory Server_Messages
  imports Server_Cluster Log_File Raft_Rpc
begin

text \<open>
  The message thread of the server, \<open>thread_2\<close> of \<open>src/main.c\<close>, and its predecessor
  \<open>thread_2_old\<close>: reassembling a message from the pieces a socket delivers, the term check,
  and the handlers of the four message types. The fields \<open>last_applied_index\<close> and
  \<open>last_applied_term\<close> the handlers use are not declared in \<open>raft_core.h\<close>; they are
  fields of the server state here. The offsets in a message are those of \<open>raft_core.h\<close>.
\<close>

section \<open>Messages on the wire\<close>

fun rpc_code :: "raft_rpc_type_t \<Rightarrow> u32" where
  "rpc_code RAFT_RPC_APPEND_ENTRIES = 0"
| "rpc_code RAFT_RPC_REQUEST_VOTE = 1"
| "rpc_code RAFT_RPC_RESP_APPEND_ENTRIES = 2"
| "rpc_code RAFT_RPC_RESP_REQUEST_VOTE = 3"
| "rpc_code (RAFT_RPC_other n) = n"

definition rpc_of :: "u32 \<Rightarrow> raft_rpc_type_t" where
  "rpc_of n =
     (if n = 0 then RAFT_RPC_APPEND_ENTRIES else if n = 1 then RAFT_RPC_REQUEST_VOTE
      else if n = 2 then RAFT_RPC_RESP_APPEND_ENTRIES else if n = 3 then RAFT_RPC_RESP_REQUEST_VOTE
      else RAFT_RPC_other n)"

definition msg_bytes :: "bytes \<Rightarrow> raft_msg_t \<Rightarrow> bytes" where
  "msg_bytes padding m =
     le_enc 8 (body_length m) @ le_enc 8 (msg_term m) @ le_enc 8 (sender_node_id m)
     @ le_enc 4 (rpc_code (rpc_type m)) @ padding @ msg_data m"

text \<open>A message buffer read through a \<open>raft_msg_t\<close> pointer.\<close>

definition msg_of_bytes :: "bytes \<Rightarrow> raft_msg_t res" where
  "msg_of_bytes buf =
     bindr (rd 8 buf 0) (\<lambda>len.
     bindr (rd 8 buf 8) (\<lambda>term.
     bindr (rd 8 buf 16) (\<lambda>sender.
     bindr (rd 4 buf 24) (\<lambda>rpc.
       Inr \<lparr>body_length = len, msg_term = term, sender_node_id = sender, rpc_type = rpc_of rpc,
            msg_data = drop sizeof_raft_msg_t buf\<rparr>))))"

text \<open>\<open>raft_append_entries_resp_t\<close> as it lies in the bytes.\<close>

record append_resp =
  ar_success :: bool
  ar_log_idx :: u64
  ar_term :: u64

definition sizeof_append_resp :: nat where "sizeof_append_resp = 24"

definition append_resp_bytes :: "bytes \<Rightarrow> append_resp \<Rightarrow> bytes" where
  "append_resp_bytes padding r =
     (if ar_success r then 1 else 0) # padding @ le_enc 8 (ar_log_idx r) @ le_enc 8 (ar_term r)"

definition append_resp_of :: "bytes \<Rightarrow> append_resp res" where
  "append_resp_of d =
     bindr (ae_resp_success d) (\<lambda>s. bindr (rd 8 d 8) (\<lambda>i. bindr (rd 8 d 16) (\<lambda>t.
       Inr \<lparr>ar_success = s, ar_log_idx = i, ar_term = t\<rparr>)))"

text \<open>A \<open>cmd_buffer_t\<close> in the bytes: the pointer field \<open>data_to_free\<close> takes eight bytes.\<close>

definition sizeof_cmd_buffer_t :: nat where "sizeof_cmd_buffer_t = 40"

definition cmd_buffer_at :: "bytes \<Rightarrow> nat \<Rightarrow> cmd_buffer_t res" where
  "cmd_buffer_at bs off =
     bindr (rd 8 bs off) (\<lambda>t. bindr (rd 8 bs (off + 8)) (\<lambda>i.
     bindr (rd 8 bs (off + 16)) (\<lambda>l. bindr (rd 8 bs (off + 24)) (\<lambda>n.
       Inr \<lparr>cb_term = t, cb_log_index = i, cmds_length = l, num_cmds = n,
            cb_data = drop (off + sizeof_cmd_buffer_t) bs\<rparr>))))"

definition cmd_buffer_bytes :: "bytes \<Rightarrow> cmd_buffer_t \<Rightarrow> bytes" where
  "cmd_buffer_bytes pointer cb =
     le_enc 8 (cb_term cb) @ le_enc 8 (cb_log_index cb) @ le_enc 8 (cmds_length cb) @ le_enc 8 (num_cmds cb)
     @ pointer @ cb_data cb"

section \<open>Receiving a message\<close>

text \<open>What \<open>read\<close> returns: -1, or the bytes it delivered (none when the peer has closed the
  connection).\<close>

datatype read_outcome = Read_failed | Read_bytes bytes

definition thread_2_buf_size :: nat where
  "thread_2_buf_size = unat CMDBUF_SIZE + sizeof_raft_msg_t"

text \<open>The inner loop of \<open>thread_2\<close>: \<open>n\<close> bytes of the buffer are filled. \<open>None\<close> means
  that it still reads when the outcomes end.\<close>

fun read_more :: "bytes \<Rightarrow> nat \<Rightarrow> read_outcome list \<Rightarrow> (bytes \<times> nat \<times> read_outcome list) option res" where
  "read_more buf n [] =
     bindr (rd 8 buf 0) (\<lambda>len :: u64.
       if n < unat (len + of_nat sizeof_raft_msg_t) then Inr None else Inr (Some (buf, n, [])))"
| "read_more buf n (r # rs) =
     bindr (rd 8 buf 0) (\<lambda>len :: u64.
       if n < unat (len + of_nat sizeof_raft_msg_t)
       then (case r of
               Read_failed \<Rightarrow> Inl Assert_failed
             | Read_bytes bs \<Rightarrow>
                 bindr (assert_c (bs \<noteq> [])) (\<lambda>_.
                 bindr (memcpy_into buf n bs) (\<lambda>buf'. read_more buf' (n + length bs) rs)))
       else Inr (Some (buf, n, r # rs)))"

text \<open>The reads of one event. A first read of -1 makes \<open>bytes_read\<close> the largest unsigned
  number in the comparison with the length, so the loop is skipped.\<close>

definition thread_2_receive :: "bytes \<Rightarrow> read_outcome list \<Rightarrow> (bytes \<times> read_outcome list) option res" where
  "thread_2_receive buf outs =
     (case outs of
        [] \<Rightarrow> Inr None
      | Read_failed # rs \<Rightarrow>
          bindr (rd 8 buf 0) (\<lambda>len :: u64.
          bindr (assert_c (len + of_nat sizeof_raft_msg_t = -1)) (\<lambda>_.
          bindr (rd 8 buf 16) (\<lambda>sender :: u64.
          bindr (assert_c (sender < of_nat MAX_NODES)) (\<lambda>_. Inr (Some (buf, rs))))))
      | Read_bytes bs # rs \<Rightarrow>
          bindr (memcpy_into buf 0 bs) (\<lambda>buf1.
          bindr (read_more buf1 (length bs) rs) (\<lambda>r.
            case r of
              None \<Rightarrow> Inr None
            | Some (buf2, n, rs') \<Rightarrow>
                bindr (rd 8 buf2 0) (\<lambda>len :: u64.
                bindr (assert_c (unat (len + of_nat sizeof_raft_msg_t) = n)) (\<lambda>_.
                bindr (rd 8 buf2 16) (\<lambda>sender :: u64.
                bindr (assert_c (sender < of_nat MAX_NODES)) (\<lambda>_. Inr (Some (buf2, rs')))))))))"

text \<open>\<open>thread_2_old\<close>: the header alone, then the body in pieces of up to \<open>body_length\<close>
  bytes, whatever is still missing.\<close>

fun old_body :: "bytes \<Rightarrow> nat \<Rightarrow> nat \<Rightarrow> read_outcome list \<Rightarrow> (bytes \<times> nat \<times> read_outcome list) option res" where
  "old_body buf len n [] = (if n < len then Inr None else Inr (Some (buf, n, [])))"
| "old_body buf len n (r # rs) =
     (if n < len
      then (case r of
              Read_failed \<Rightarrow> Inl Assert_failed
            | Read_bytes bs \<Rightarrow>
                bindr (assert_c (bs \<noteq> [])) (\<lambda>_.
                bindr (memcpy_into buf (sizeof_raft_msg_t + n) bs) (\<lambda>buf'.
                  old_body buf' len (n + length bs) rs)))
      else Inr (Some (buf, n, r # rs)))"

text \<open>The receive of one node: \<open>None\<close> inside the result when there is nothing to read.\<close>

definition old_receive ::
  "bytes \<Rightarrow> read_outcome list \<Rightarrow> (bytes option \<times> read_outcome list) option res" where
  "old_receive buf outs =
     (case outs of
        [] \<Rightarrow> Inr None
      | Read_failed # rs \<Rightarrow> Inr (Some (None, rs))
      | Read_bytes bs # rs \<Rightarrow>
          if bs = [] then Inr (Some (None, rs))
          else
            bindr (memcpy_into buf 0 bs) (\<lambda>buf1.
            bindr (rd 8 buf1 0) (\<lambda>len :: u64.
            if 0 < len then
              bindr (old_body buf1 (unat len) 0 rs) (\<lambda>r.
                case r of
                  None \<Rightarrow> Inr None
                | Some (buf2, n, rs') \<Rightarrow>
                    bindr (rd 8 buf2 0) (\<lambda>len' :: u64.
                    bindr (assert_c (n = unat len')) (\<lambda>_. Inr (Some (Some buf2, rs')))))
            else Inr (Some (Some buf1, rs)))))"


section \<open>The state of the server\<close>

text \<open>\<open>_2_to_3_t\<close>, with the queues to the other threads as lists (their order is the subject
  of \<open>Spsc\<close>) and the messages handed to \<open>send\<close>, oldest first.\<close>

record msg_2_to_3_t =
  m23_term :: u64
  m23_log_index :: u64
  m23_node_id :: u64

record 'sm server =
  raft_state :: "'sm raft_node_t"
  last_applied_index :: u64
  last_applied_term :: u64
  cluster_state :: cluster_t
  server_log :: logfile_t
  to_3 :: "msg_2_to_3_t list"
  to_6 :: "msg_2_to_3_t list"
  to_5 :: "cmd_buffer_t list"
  outbox :: "(int \<times> bytes) list"

text \<open>What the handlers need from outside: whether \<open>send\<close> succeeds on a descriptor, the
  outcomes of the three writes of an append, and whether a thread can be created.\<close>

record outside =
  send_ok :: "int \<Rightarrow> bool"
  log_writes :: "write_outcome \<times> write_outcome \<times> write_outcome"
  thread_ok :: bool

definition node_fd :: "'sm server \<Rightarrow> u64 \<Rightarrow> int res" where
  "node_fd s i =
     (let fds = node_fds (cluster_state s)
      in if unat i < length fds then Inr (fds ! unat i) else Inl Out_of_bounds)"

definition server_id :: "'sm server \<Rightarrow> u64" where
  "server_id s = ucast (self_id (cluster_state s))"

section \<open>Handlers\<close>

text \<open>The term check: the result tells whether the message is handled any further.\<close>

definition handle_term :: "'sm server \<Rightarrow> raft_msg_t \<Rightarrow> (bool \<times> 'sm server) res" where
  "handle_term s m =
     bindr (lock_node (raft_state s)) (\<lambda>n.
       if current_term n < msg_term m
       then Inr (True, s\<lparr>raft_state := unlock_node (n\<lparr>current_term := msg_term m, rstate := RAFT_STATE_FOLLOWER\<rparr>)\<rparr>)
       else if msg_term m < current_term n then Inr (False, s\<lparr>raft_state := unlock_node n\<rparr>)
       else Inr (True, s\<lparr>raft_state := unlock_node n\<rparr>))"

text \<open>The answer to an append request, and whether it was accepted.\<close>

definition append_answer :: "'sm server \<Rightarrow> u64 \<Rightarrow> u64 \<Rightarrow> append_resp" where
  "append_answer s prev_log_index prev_log_term =
     (let last_logs_match = (prev_log_term = last_applied_term s \<and> prev_log_index = last_applied_index s);
          is_first_log = (last_applied_term s = 0 \<and> last_applied_index s = 0)
      in if last_logs_match \<or> is_first_log
         then \<lparr>ar_success = True, ar_log_idx = prev_log_index + 1, ar_term = prev_log_term\<rparr>
         else \<lparr>ar_success = False, ar_log_idx = last_applied_index s, ar_term = last_applied_term s\<rparr>)"

definition append_response :: "'sm server \<Rightarrow> append_resp \<Rightarrow> bytes" where
  "append_response s r =
     msg_bytes [183, 0, 0, 0]
       \<lparr>body_length = of_nat sizeof_append_resp, msg_term = current_term (raft_state s),
        sender_node_id = server_id s, rpc_type = RAFT_RPC_RESP_APPEND_ENTRIES,
        msg_data = append_resp_bytes [183, 0, 0, 0, 0, 0, 0] r\<rparr>"

definition handle_append :: "outside \<Rightarrow> 'sm server \<Rightarrow> raft_msg_t \<Rightarrow> 'sm server res" where
  "handle_append w s m =
     bindr (lock_node (raft_state s)) (\<lambda>n.
     bindr (ae_req_prev_log_term (msg_data m)) (\<lambda>prev_log_term.
     bindr (ae_req_prev_log_index (msg_data m)) (\<lambda>prev_log_index.
       let r = append_answer s prev_log_index prev_log_term;
           buffer = append_response s r;
           s1 = s\<lparr>raft_state := unlock_node n\<rparr>
       in
       bindr (node_fd s1 (sender_node_id m)) (\<lambda>fd.
       if \<not> send_ok w fd then Inl Exit_called
       else
         let s2 = s1\<lparr>outbox := outbox s1 @ [(fd, buffer)]\<rparr> in
         if \<not> ar_success r then Inr s2
         else
           bindr (cmd_buffer_at (msg_data m) ae_req_entries_header) (\<lambda>cb.
           bindr (logfile_append_data (log_writes w) (server_log s2) cb) (\<lambda>lf.
             Inr (s2\<lparr>server_log := lf, to_5 := to_5 s2 @ [cb]\<rparr>)))))))"

definition vote_answer :: "'sm server \<Rightarrow> u64 \<Rightarrow> u64 \<Rightarrow> bool" where
  "vote_answer s last_log_index last_log_term =
     (if last_log_term < last_applied_term s then False
      else if last_log_term = last_applied_term s
      then (if last_log_index < last_applied_index s then False else True)
      else True)"

text \<open>The response announces a body of \<open>sizeof(raft_append_entries_resp_t)\<close> bytes and has one.\<close>

definition vote_response :: "'sm server \<Rightarrow> bool \<Rightarrow> bytes" where
  "vote_response s granted =
     msg_bytes [0, 0, 0, 0]
       \<lparr>body_length = of_nat sizeof_append_resp, msg_term = current_term (raft_state s),
        sender_node_id = server_id s, rpc_type = RAFT_RPC_RESP_REQUEST_VOTE,
        msg_data = [if granted then 1 else 0]\<rparr>"

definition handle_vote_request :: "outside \<Rightarrow> 'sm server \<Rightarrow> raft_msg_t \<Rightarrow> 'sm server res" where
  "handle_vote_request w s m =
     bindr (lock_node (raft_state s)) (\<lambda>n.
     bindr (rv_req_last_log_term (msg_data m)) (\<lambda>t.
     bindr (rv_req_last_log_index (msg_data m)) (\<lambda>i.
       let buffer = vote_response s (vote_answer s i t);
           s1 = s\<lparr>raft_state := unlock_node n\<rparr>
       in
       bindr (node_fd s1 (sender_node_id m)) (\<lambda>fd.
         Inr (if send_ok w fd then s1\<lparr>outbox := outbox s1 @ [(fd, buffer)]\<rparr> else s1)))))"

definition handle_append_resp :: "'sm server \<Rightarrow> raft_msg_t \<Rightarrow> 'sm server res" where
  "handle_append_resp s m =
     bindr (append_resp_of (msg_data m)) (\<lambda>r.
       let block = \<lparr>m23_term = ar_term r, m23_log_index = ar_log_idx r, m23_node_id = sender_node_id m\<rparr>
       in Inr (if ar_success r then s\<lparr>to_3 := to_3 s @ [block]\<rparr> else s\<lparr>to_6 := to_6 s @ [block]\<rparr>))"

definition handle_vote_resp :: "outside \<Rightarrow> 'sm server \<Rightarrow> raft_msg_t \<Rightarrow> 'sm server res" where
  "handle_vote_resp w s m =
     bindr (lock_node (raft_state s)) (\<lambda>n.
     bindr (assert_c (rstate n = RAFT_STATE_CANDIDATE)) (\<lambda>_.
     bindr (if current_term n = msg_term m
            then bindr (rv_resp_granted (msg_data m)) (\<lambda>g.
                   Inr (if g then n\<lparr>votes_received := votes_received n + 1\<rparr> else n))
            else Inr n) (\<lambda>n1.
       if unat (num_nodes (cluster_state s)) div 2 < unat (votes_received n1)
       then bindr (raft_become_leader (thread_ok w) (Some (unlock_node n1))) (\<lambda>(_, n2).
              Inr (s\<lparr>raft_state := the n2\<rparr>))
       else Inr (s\<lparr>raft_state := unlock_node n1\<rparr>))))"

text \<open>A received message: the body of the event loop after the reads.\<close>

definition handle_message :: "outside \<Rightarrow> bytes \<Rightarrow> 'sm server \<Rightarrow> 'sm server res" where
  "handle_message w buf s =
     bindr (msg_of_bytes buf) (\<lambda>m.
     bindr (handle_term s m) (\<lambda>(go, s1).
       if \<not> go then Inr s1
       else case rpc_type m of
         RAFT_RPC_APPEND_ENTRIES \<Rightarrow> handle_append w s1 m
       | RAFT_RPC_REQUEST_VOTE \<Rightarrow> handle_vote_request w s1 m
       | RAFT_RPC_RESP_APPEND_ENTRIES \<Rightarrow> handle_append_resp s1 m
       | RAFT_RPC_RESP_REQUEST_VOTE \<Rightarrow> handle_vote_resp w s1 m
       | RAFT_RPC_other _ \<Rightarrow> Inr s1))"

text \<open>One event of \<open>thread_2\<close>. The buffer is passed on, or replaced by a fresh one
  (\<open>fresh\<close>) when an accepted append request has taken it over.\<close>

definition took_buffer :: "'sm server \<Rightarrow> 'sm server \<Rightarrow> bool" where
  "took_buffer s s' \<longleftrightarrow> length (to_5 s) < length (to_5 s')"

definition thread_2_event ::
  "outside \<Rightarrow> bytes \<Rightarrow> bool \<Rightarrow> bytes \<Rightarrow> read_outcome list \<Rightarrow> 'sm server \<Rightarrow> (bytes \<times> 'sm server) option res" where
  "thread_2_event w fresh epollin buf outs s =
     bindr (assert_c epollin) (\<lambda>_.
     bindr (thread_2_receive buf outs) (\<lambda>r.
       case r of
         None \<Rightarrow> Inr None
       | Some (buf', _) \<Rightarrow>
           bindr (handle_message w buf' s) (\<lambda>s'.
             Inr (Some (if took_buffer s s' then fresh else buf', s')))))"

text \<open>One round of \<open>thread_2_old\<close>: the first other node that has a message. \<open>net i\<close> are the
  reads from node \<open>i\<close>.\<close>

fun old_poll :: "(nat \<Rightarrow> read_outcome list) \<Rightarrow> bytes \<Rightarrow> cluster_t \<Rightarrow> nat list \<Rightarrow> bytes option option res" where
  "old_poll net buf c [] = Inr (Some None)"
| "old_poll net buf c (i # is) =
     bindr (assert_c (0 < node_fds c ! i)) (\<lambda>_.
     bindr (old_receive buf (net i)) (\<lambda>r.
       case r of
         None \<Rightarrow> Inr None
       | Some (None, _) \<Rightarrow> old_poll net buf c is
       | Some (Some buf', _) \<Rightarrow> Inr (Some (Some buf'))))"

definition thread_2_old_round ::
  "outside \<Rightarrow> bytes \<Rightarrow> bytes \<Rightarrow> (nat \<Rightarrow> read_outcome list) \<Rightarrow> 'sm server \<Rightarrow> (bytes \<times> 'sm server) option res" where
  "thread_2_old_round w fresh buf net s =
     bindr (old_poll net buf (cluster_state s) (other_nodes (cluster_state s))) (\<lambda>r.
       case r of
         None \<Rightarrow> Inr None
       | Some None \<Rightarrow> Inr (Some (buf, s))
       | Some (Some buf') \<Rightarrow>
           bindr (rd 8 buf' 16) (\<lambda>sender :: u64.
           bindr (assert_c (sender < of_nat MAX_NODES)) (\<lambda>_.
           bindr (handle_message w buf' s) (\<lambda>s'.
             Inr (Some (if took_buffer s s' then fresh else buf', s'))))))"


section \<open>Reassembly\<close>

text \<open>A complete message: its length is the one its header announces, its sender a node.\<close>

definition wire_msg :: "bytes \<Rightarrow> bool" where
  "wire_msg m \<longleftrightarrow> (\<exists>(len :: u64) (sender :: u64). rd 8 m 0 = Inr len \<and> unat (len + of_nat sizeof_raft_msg_t) = length m
     \<and> rd 8 m 16 = Inr sender \<and> sender < of_nat MAX_NODES)"

lemma rd_of_prefix:
  assumes "off + n \<le> length a"
  shows "rd n (a @ b) off = rd n a off"
  using rd_append [OF assms] .

lemma memcpy_prefix:
  assumes "length pre + length c \<le> length buf"
  shows "memcpy_into (pre @ drop (length pre) buf) (length pre) c = Inr ((pre @ c) @ drop (length (pre @ c)) buf)"
  using assms by (simp add: memcpy_into_def add.commute)

lemma read_more_done:
  assumes "rd 8 buf 0 = Inr (len :: u64)" "\<not> n < unat (len + of_nat sizeof_raft_msg_t)"
  shows "read_more buf n rs = Inr (Some (buf, n, rs))"
  using assms by (cases rs) simp_all

text \<open>While fewer than 8 bytes of the message have arrived, the upper bytes of the length field
  are what an earlier message left in the buffer. The loop goes on all the same, unless the
  highest of them is 255.\<close>

lemma mixed_length:
  assumes "length bs = 8" "bs ! 7 \<noteq> 255"
  shows "32 \<le> unat (le_dec bs + 32 :: u64)"
proof (rule ccontr)
  let ?l = "le_dec bs :: u64"
  assume "\<not> 32 \<le> unat (?l + 32)"
  then have "unat (?l + 32) < 32" by simp
  then have l: "2 ^ 64 - 32 \<le> unat ?l"
    using unat_add_u64 [of ?l 32] by (cases "unat ?l + unat (32 :: u64) < 2 ^ 64") simp_all
  have "bs = le_enc 8 ?l" using assms(1) by (simp add: le_enc_le_dec)
  then have "bs ! 7 = le_enc 8 ?l ! 7" by metis
  also have "\<dots> = ucast (drop_bit 56 ?l)" by (simp add: eval_nat_numeral)
  finally have "unat (bs ! 7) = unat (drop_bit 56 ?l) mod 256" by (simp add: unsigned_ucast_eq take_bit_eq_mod)
  also have "unat (drop_bit 56 ?l) = unat ?l div 2 ^ 56" by (simp only: unat_drop_bit_eq) (simp only: drop_bit_eq_div)
  also have "unat ?l div 2 ^ 56 = 255"
  proof -
    have "unat ?l < 2 ^ 64" by (rule unat_u64_bound)
    then show ?thesis using l by (intro div_nat_eqI) simp_all
  qed
  finally have "unat (bs ! 7) = unat (255 :: u8)" by simp
  then have "bs ! 7 = 255" by (rule unsigned_word_eqI)
  with assms(2) show False by contradiction
qed

lemma still_short:
  assumes "rd 8 m 0 = Inr (len :: u64)" "unat (len + of_nat sizeof_raft_msg_t) = length m" "length m \<le> length buf"
    and "m = pre @ post" "post \<noteq> []" "buf ! 7 \<noteq> 255 \<or> 8 \<le> length pre"
  shows "\<exists>l :: u64. rd 8 (pre @ drop (length pre) buf) 0 = Inr l \<and> length pre < unat (l + of_nat sizeof_raft_msg_t)"
proof (cases "8 \<le> length pre")
  case True
  then have "rd 8 (pre @ drop (length pre) buf) 0 = Inr len"
    using assms(1,4) by (simp add: rd_of_prefix)
  moreover have "length pre < length m" using assms(4,5) by simp
  ultimately show ?thesis using assms(2) by auto
next
  case False
  let ?b = "take 8 (pre @ drop (length pre) buf)"
  have "8 \<le> length m" using assms(1) by (auto simp: rd_def split: if_splits)
  then have len: "length (pre @ drop (length pre) buf) = length buf" "8 \<le> length buf"
    using assms(3,4) by simp_all
  then have r: "rd 8 (pre @ drop (length pre) buf) 0 = Inr (le_dec ?b :: u64)" by (simp add: rd_def)
  have "length ?b = 8" "?b ! 7 = buf ! 7" using len False by (simp_all add: nth_append)
  then have "32 \<le> unat (le_dec ?b + 32 :: u64)" using assms(6) False by (intro mixed_length) auto
  with r False show ?thesis by (intro exI [of _ "le_dec ?b"]) (simp add: sizeof_raft_msg_t_def)
qed

lemma read_more_chunks:
  assumes "rd 8 m 0 = Inr (len :: u64)" "unat (len + of_nat sizeof_raft_msg_t) = length m" "length m \<le> length buf"
    and "m = pre @ concat cs @ post" "\<forall>c \<in> set cs. c \<noteq> []" "buf ! 7 \<noteq> 255 \<or> 8 \<le> length pre"
  shows "read_more (pre @ drop (length pre) buf) (length pre) (map Read_bytes cs @ rs)
    = read_more ((pre @ concat cs) @ drop (length (pre @ concat cs)) buf) (length (pre @ concat cs)) rs"
  using assms
proof (induction cs arbitrary: pre)
  case (Cons c cs)
  have "c \<noteq> []" using Cons.prems(5) by simp
  then obtain l :: u64 where l: "rd 8 (pre @ drop (length pre) buf) 0 = Inr l"
    "length pre < unat (l + of_nat sizeof_raft_msg_t)"
    using still_short [OF Cons.prems(1-3), of pre "c @ concat cs @ post"] Cons.prems(4,6) by auto
  have fits: "length pre + length c \<le> length buf" using Cons.prems(3,4) by simp
  have ih: "read_more ((pre @ c) @ drop (length (pre @ c)) buf) (length (pre @ c)) (map Read_bytes cs @ rs)
    = read_more (((pre @ c) @ concat cs) @ drop (length ((pre @ c) @ concat cs)) buf) (length ((pre @ c) @ concat cs)) rs"
    using Cons.prems by (intro Cons.IH) auto
  show ?case
    using l \<open>c \<noteq> []\<close> ih memcpy_prefix [OF fits] by simp
qed simp

lemma receive_pieces:
  assumes "wire_msg m" "length m \<le> length buf" "buf ! 7 \<noteq> 255 \<or> 8 \<le> length c"
    and "m = c @ concat cs" "c \<noteq> []" "\<forall>c' \<in> set cs. c' \<noteq> []"
  shows "thread_2_receive buf (map Read_bytes (c # cs) @ rs) = Inr (Some (m @ drop (length m) buf, rs))"
proof -
  from assms(1) obtain len :: u64 and sender :: u64 where m: "rd 8 m 0 = Inr len"
    "unat (len + of_nat sizeof_raft_msg_t) = length m" "rd 8 m 16 = Inr sender" "sender < of_nat MAX_NODES"
    unfolding wire_msg_def by blast
  have first: "memcpy_into buf 0 c = Inr (c @ drop (length c) buf)"
    using assms(2,4) by (simp add: memcpy_into_def)
  have len: "0 + 8 \<le> length m" "16 + 8 \<le> length m"
    using m(1,3) by (auto simp: rd_def split: if_splits)
  note fields = rd_of_prefix [OF len(1), of "drop (length m) buf"] rd_of_prefix [OF len(2), of "drop (length m) buf"]
  have "read_more (c @ drop (length c) buf) (length c) (map Read_bytes cs @ rs)
      = read_more (m @ drop (length m) buf) (length m) rs"
    using read_more_chunks [OF m(1,2) assms(2), of c cs "[]" rs] assms(3,4,6) by simp
  also have "\<dots> = Inr (Some (m @ drop (length m) buf, length m, rs))"
    by (rule read_more_done [of _ len]) (simp_all add: fields m(1,2))
  finally show ?thesis
    using first m by (simp add: thread_2_receive_def fields del: append_assoc length_append)
qed

text \<open>C13: however the network cuts a message into pieces, even inside its length field,
  \<open>thread_2\<close> puts it together again, provided that its reads find the pieces and that the
  first piece has 8 bytes or the eighth byte of the buffer is not 255 (it is the highest byte of
  the length of an earlier message, and a length field of more than \<open>2 ^ 64 - 33\<close> wraps around):
  the message is at the front of the buffer, the rest of the buffer and the later reads are
  untouched. A read that comes before the next piece, on the non-blocking socket a failed
  read, ends the program.\<close>

theorem thread_2_reassembles:
  assumes "wire_msg (c @ concat cs)" "length (c @ concat cs) \<le> length buf" "buf ! 7 \<noteq> 255 \<or> 8 \<le> length c"
    and "c \<noteq> []" "\<forall>c' \<in> set cs. c' \<noteq> []"
  shows "thread_2_receive buf (map Read_bytes (c # cs) @ rs)
      = Inr (Some ((c @ concat cs) @ drop (length (c @ concat cs)) buf, rs))
    \<and> (\<forall>k < length cs. thread_2_receive buf (map Read_bytes (c # take k cs) @ Read_failed # rs) = Inl Assert_failed)"
proof (intro conjI allI impI)
  let ?m = "c @ concat cs"
  show "thread_2_receive buf (map Read_bytes (c # cs) @ rs) = Inr (Some (?m @ drop (length ?m) buf, rs))"
    using receive_pieces [OF assms(1-3) refl assms(4,5)] .
  fix k assume k: "k < length cs"
  from assms(1) obtain len :: u64 where m: "rd 8 ?m 0 = Inr len" "unat (len + of_nat sizeof_raft_msg_t) = length ?m"
    unfolding wire_msg_def by blast
  let ?p = "c @ concat (take k cs)" and ?q = "concat (drop k cs)"
  have split: "?m = c @ concat (take k cs) @ ?q" by (simp flip: concat_append)
  have "cs ! k \<noteq> []" using assms(5) k by simp
  then have q: "?q \<noteq> []" using k by (auto simp flip: Cons_nth_drop_Suc)
  have "\<forall>c' \<in> set (take k cs). c' \<noteq> []" using assms(5) by (auto dest: in_set_takeD)
  then have "read_more (c @ drop (length c) buf) (length c) (map Read_bytes (take k cs) @ Read_failed # rs)
      = read_more (?p @ drop (length ?p) buf) (length ?p) (Read_failed # rs)"
    using read_more_chunks [OF m assms(2) split _ assms(3)] by simp
  also have "\<dots> = Inl Assert_failed"
    using still_short [OF m assms(2), of ?p ?q] split q assms(3) by auto
  finally show "thread_2_receive buf (map Read_bytes (c # take k cs) @ Read_failed # rs) = Inl Assert_failed"
    using assms(2) by (simp add: thread_2_receive_def memcpy_into_def)
qed

text \<open>A message that arrives in one piece.\<close>

lemma thread_2_receive_whole:
  assumes "wire_msg m" "length m \<le> length buf"
  shows "thread_2_receive buf (Read_bytes m # rs) = Inr (Some (m @ drop (length m) buf, rs))"
proof -
  from assms(1) obtain len :: u64 and sender :: u64 where m: "rd 8 m 0 = Inr len"
    "unat (len + of_nat sizeof_raft_msg_t) = length m" "rd 8 m 16 = Inr sender" "sender < of_nat MAX_NODES"
    unfolding wire_msg_def by blast
  have len: "0 + 8 \<le> length m" "16 + 8 \<le> length m"
    using m(1,3) by (auto simp: rd_def split: if_splits)
  note fields = rd_of_prefix [OF len(1), of "drop (length m) buf"] rd_of_prefix [OF len(2), of "drop (length m) buf"]
  have "rd 8 (m @ drop (length m) buf) 0 = Inr len" using m(1) by (simp add: fields)
  from read_more_done [OF this] show ?thesis
    using assms(2) m by (simp add: thread_2_receive_def memcpy_into_def fields)
qed

lemma read_more_length:
  "read_more buf n rs = Inr (Some (buf', n', rs')) \<Longrightarrow> length buf' = length buf"
  by (induction buf n rs rule: read_more.induct)
    (fastforce dest: memcpy_into_length split: if_splits read_outcome.splits)+

text \<open>C28: a message that \<open>thread_2\<close> accepts is well typed. Whatever bytes arrived, the buffer
  keeps its size, every field of the header can be read, and the sender is one of the five nodes
  there may be, so that its descriptor can be looked up without leaving the array.\<close>

theorem thread_2_receive_typed:
  assumes "thread_2_receive buf outs = Inr (Some (buf', rest))" "length buf = thread_2_buf_size"
    and "MAX_NODES \<le> length (node_fds (cluster_state s))"
  shows "length buf' = thread_2_buf_size
    \<and> (\<exists>m. msg_of_bytes buf' = Inr m \<and> unat (sender_node_id m) < MAX_NODES
          \<and> node_fd s (sender_node_id m) = Inr (node_fds (cluster_state s) ! unat (sender_node_id m)))"
proof -
  from assms(1) have "length buf' = length buf \<and> (\<exists>sender :: u64. rd 8 buf' 16 = Inr sender \<and> sender < of_nat MAX_NODES)"
    by (fastforce simp: thread_2_receive_def dest: memcpy_into_length read_more_length
        split: list.splits read_outcome.splits option.splits)
  then obtain sender :: u64 where len: "length buf' = thread_2_buf_size"
    and sender: "rd 8 buf' 16 = Inr sender" "sender < of_nat MAX_NODES"
    using assms(2) by auto
  have "unat sender < MAX_NODES" using sender(2) by (simp add: word_less_nat_alt MAX_NODES_def)
  moreover have "28 \<le> length buf'" by (simp add: len thread_2_buf_size_def CMDBUF_SIZE_def)
  then have "\<exists>m. msg_of_bytes buf' = Inr m \<and> sender_node_id m = sender"
    using sender(1) by (simp add: msg_of_bytes_def rd_def)
  ultimately show ?thesis
    using len assms(3) by (auto simp: node_fd_def Let_def)
qed

text \<open>C34: \<open>thread_2\<close> does not survive what TCP may do. A peer that closes its connection,
  a failed read, and a read that delivers more than the message, as when two messages arrive
  together, all fail an assertion, which ends the program (the length field a closed connection
  meets is what the previous message left in the buffer).\<close>

theorem thread_2_receive_aborts:
  assumes "wire_msg m" "extra \<noteq> []" "length (m @ extra) \<le> length buf"
    and "rd 8 buf 0 = Inr (stale :: u64)" "stale + of_nat sizeof_raft_msg_t \<notin> {0, -1}"
  shows "thread_2_receive buf (Read_bytes [] # Read_bytes [] # rs) = Inl Assert_failed
    \<and> thread_2_receive buf (Read_failed # rs) = Inl Assert_failed
    \<and> thread_2_receive buf (Read_bytes (m @ extra) # rs) = Inl Assert_failed"
proof (intro conjI)
  have "0 < unat (stale + of_nat sizeof_raft_msg_t)"
    using assms(5) by (simp add: unat_gt_0)
  then show "thread_2_receive buf (Read_bytes [] # Read_bytes [] # rs) = Inl Assert_failed"
    using assms(4) by (simp add: thread_2_receive_def memcpy_into_def)
  show "thread_2_receive buf (Read_failed # rs) = Inl Assert_failed"
    using assms(4,5) by (simp add: thread_2_receive_def)
  from assms(1) obtain len :: u64 where len: "rd 8 m 0 = Inr len" "unat (len + of_nat sizeof_raft_msg_t) = length m"
    unfolding wire_msg_def by blast
  have m: "0 + 8 \<le> length m" using len(1) by (auto simp: rd_def split: if_splits)
  have l: "rd 8 ((m @ extra) @ drop (length (m @ extra)) buf) 0 = Inr len"
    using len(1) by (simp add: rd_of_prefix [OF m])
  have first: "memcpy_into buf 0 (m @ extra) = Inr ((m @ extra) @ drop (length (m @ extra)) buf)"
    using assms(3) by (simp add: memcpy_into_def)
  have "read_more ((m @ extra) @ drop (length (m @ extra)) buf) (length (m @ extra)) rs
      = Inr (Some ((m @ extra) @ drop (length (m @ extra)) buf, length (m @ extra), rs))"
    by (rule read_more_done [OF l]) (simp add: len(2))
  moreover have "unat (len + of_nat sizeof_raft_msg_t) \<noteq> length (m @ extra)"
    using len(2) assms(2) by simp
  ultimately show "thread_2_receive buf (Read_bytes (m @ extra) # rs) = Inl Assert_failed"
    using first l by (simp add: thread_2_receive_def del: append_assoc length_append)
qed

text \<open>The body loop of \<open>thread_2_old\<close> on pieces of the body.\<close>

lemma old_body_chunks:
  assumes "length m \<le> length buf" "sizeof_raft_msg_t \<le> length pre" "m = pre @ concat cs" "\<forall>c \<in> set cs. c \<noteq> []"
  shows "old_body (pre @ drop (length pre) buf) (length m - sizeof_raft_msg_t) (length pre - sizeof_raft_msg_t)
      (map Read_bytes cs @ rs)
    = Inr (Some (m @ drop (length m) buf, length m - sizeof_raft_msg_t, rs))"
  using assms
proof (induction cs arbitrary: pre)
  case Nil
  then show ?case by (cases rs) simp_all
next
  case (Cons c cs)
  then have "c \<noteq> []" by simp
  then have less: "length pre - sizeof_raft_msg_t < length m - sizeof_raft_msg_t"
    using Cons.prems(2,3) by simp (metis add_diff_cancel_left' diff_less_mono le_add1 length_greater_0_conv less_add_same_cancel1 trans_less_add1)
  have fits: "length pre + length c \<le> length buf" using Cons.prems(1,3) by simp
  have off: "sizeof_raft_msg_t + (length pre - sizeof_raft_msg_t) = length pre"
    "length pre - sizeof_raft_msg_t + length c = length (pre @ c) - sizeof_raft_msg_t"
    using Cons.prems(2) by simp_all
  have ih: "old_body ((pre @ c) @ drop (length (pre @ c)) buf) (length m - sizeof_raft_msg_t)
      (length (pre @ c) - sizeof_raft_msg_t) (map Read_bytes cs @ rs)
    = Inr (Some (m @ drop (length m) buf, length m - sizeof_raft_msg_t, rs))"
    using Cons.prems by (intro Cons.IH) simp_all
  show ?case
    using less \<open>c \<noteq> []\<close> ih memcpy_prefix [OF fits] off by simp
qed

text \<open>When the header arrives by itself and the body in pieces that add up to it,
  \<open>thread_2_old\<close> and \<open>thread_2\<close> receive the same message and leave the same buffer: on
  these deliveries the rewritten thread is equivalent to the one it replaced.\<close>

theorem thread_2_old_equiv:
  assumes "wire_msg (h @ concat cs)" "length (h @ concat cs) \<le> length buf"
    and "length h = sizeof_raft_msg_t" "cs \<noteq> []" "\<forall>c \<in> set cs. c \<noteq> []" "length buf < 2 ^ 64"
  shows "old_receive buf (map Read_bytes (h # cs) @ rs)
    = bindr (thread_2_receive buf (map Read_bytes (h # cs) @ rs)) (\<lambda>r.
        case r of None \<Rightarrow> Inr None | Some (buf', rs') \<Rightarrow> Inr (Some (Some buf', rs')))"
proof -
  let ?m = "h @ concat cs"
  let ?b = "?m @ drop (length ?m) buf"
  from assms(1) obtain len :: u64 where m: "rd 8 ?m 0 = Inr len" "unat (len + of_nat sizeof_raft_msg_t) = length ?m"
    unfolding wire_msg_def by blast
  have h: "0 + 8 \<le> length h" using assms(3) by (simp add: sizeof_raft_msg_t_def)
  have lh: "rd 8 (h @ drop (length h) buf) 0 = Inr len" "rd 8 ?b 0 = Inr len"
    using m(1) by (simp_all add: rd_of_prefix [OF h])
  have new: "thread_2_receive buf (map Read_bytes (h # cs) @ rs) = Inr (Some (?b, rs))"
    using assms h by (intro receive_pieces) auto
  have "len + of_nat sizeof_raft_msg_t = of_nat (unat (len + of_nat sizeof_raft_msg_t))" by simp
  then have "len = of_nat (length ?m) - of_nat sizeof_raft_msg_t"
    unfolding m(2) by (simp add: eq_diff_eq)
  also have "\<dots> = of_nat (length ?m - sizeof_raft_msg_t)" using assms(3) by simp
  finally have "unat len = length ?m - sizeof_raft_msg_t"
    using assms(2,6) by (simp add: unat_of_nat_u64)
  moreover have "length ?m - sizeof_raft_msg_t > 0"
    using assms(3-5) by (cases cs) simp_all
  ultimately have len: "unat len = length ?m - sizeof_raft_msg_t" "0 < len"
    by (simp_all add: word_less_nat_alt)
  have first: "memcpy_into buf 0 h = Inr (h @ drop (length h) buf)"
    using assms(2) by (simp add: memcpy_into_def)
  have body: "old_body (h @ drop (length h) buf) (unat len) 0 (map Read_bytes cs @ rs)
      = Inr (Some (?b, unat len, rs))"
    using old_body_chunks [OF assms(2) _ refl assms(5), of rs] assms(3) len(1) by simp
  have "h \<noteq> []" using h by auto
  then show ?thesis
    using first lh len(2) body unfolding new by (simp add: old_receive_def)
qed


section \<open>Messages read back\<close>

lemma rpc_of_code [simp]: "\<forall>n. t \<noteq> RAFT_RPC_other n \<Longrightarrow> rpc_of (rpc_code t) = t"
  by (cases t) (simp_all add: rpc_of_def)

lemma length_msg_bytes: "length padding = 4 \<Longrightarrow> length (msg_bytes padding m) = 32 + length (msg_data m)"
  by (simp add: msg_bytes_def)

lemma rd_msg_bytes:
  assumes "length padding = 4"
  shows "rd 8 (msg_bytes padding m @ rest) 0 = Inr (body_length m)"
    "rd 8 (msg_bytes padding m @ rest) 8 = Inr (msg_term m)"
    "rd 8 (msg_bytes padding m @ rest) 16 = Inr (sender_node_id m)"
    "rd 4 (msg_bytes padding m @ rest) 24 = Inr (rpc_code (rpc_type m))"
  using assms by (simp_all add: msg_bytes_def rd_def)

lemma msg_bytes_roundtrip:
  assumes "length padding = 4" "\<forall>n. rpc_type m \<noteq> RAFT_RPC_other n"
  shows "msg_of_bytes (msg_bytes padding m @ rest) = Inr (m\<lparr>msg_data := msg_data m @ rest\<rparr>)"
proof -
  have "drop sizeof_raft_msg_t (msg_bytes padding m @ rest) = msg_data m @ rest"
    using assms(1) by (simp add: msg_bytes_def sizeof_raft_msg_t_def)
  then show ?thesis
    by (simp add: msg_of_bytes_def rd_msg_bytes [OF assms(1)] assms(2))
qed

lemma wire_msg_bytes:
  assumes "length padding = 4" "unat (body_length m + 32) = 32 + length (msg_data m)" "sender_node_id m < 5"
  shows "wire_msg (msg_bytes padding m)"
  using assms rd_msg_bytes [OF assms(1), of m "[]"]
  by (auto simp: wire_msg_def length_msg_bytes sizeof_raft_msg_t_def MAX_NODES_def)

lemma append_resp_roundtrip:
  assumes "length padding = 7"
  shows "append_resp_of (append_resp_bytes padding r @ rest) = Inr r"
proof -
  obtain p where p: "append_resp_bytes padding r = (if ar_success r then 1 else 0) # p"
    by (simp add: append_resp_bytes_def)
  have "rd 8 (append_resp_bytes padding r @ rest) 8 = Inr (ar_log_idx r)"
    "rd 8 (append_resp_bytes padding r @ rest) 16 = Inr (ar_term r)"
    using assms by (simp_all add: append_resp_bytes_def rd_def)
  moreover have "ae_resp_success (append_resp_bytes padding r @ rest) = Inr (ar_success r)"
    by (simp add: p ae_resp_success_def rd_bytes_def)
  ultimately show ?thesis by (simp add: append_resp_of_def)
qed

section \<open>What the handlers do\<close>

definition adopt_term :: "u64 \<Rightarrow> 'sm server \<Rightarrow> 'sm server" where
  "adopt_term t s =
     (if current_term (raft_state s) < t
      then s\<lparr>raft_state := (raft_state s)\<lparr>current_term := t, rstate := RAFT_STATE_FOLLOWER\<rparr>\<rparr> else s)"

lemma adopt_term_fields [simp]:
  "cluster_state (adopt_term t s) = cluster_state s" "server_log (adopt_term t s) = server_log s"
  "outbox (adopt_term t s) = outbox s" "to_5 (adopt_term t s) = to_5 s" "to_3 (adopt_term t s) = to_3 s"
  "to_6 (adopt_term t s) = to_6 s"
  "last_applied_index (adopt_term t s) = last_applied_index s" "last_applied_term (adopt_term t s) = last_applied_term s"
  "mutex_held (raft_state (adopt_term t s)) = mutex_held (raft_state s)"
  "voted_for (raft_state (adopt_term t s)) = voted_for (raft_state s)"
  "current_term (raft_state (adopt_term t s)) = max (current_term (raft_state s)) t"
  by (auto simp: adopt_term_def max_def)

lemma handle_term_eq:
  assumes "\<not> mutex_held (raft_state s)"
  shows "handle_term s m = Inr (\<not> msg_term m < current_term (raft_state s),
    if msg_term m < current_term (raft_state s) then s else adopt_term (msg_term m) s)"
  using assms by (auto simp: handle_term_def adopt_term_def unlock_node_def)

lemma unlock_locked_server [simp]:
  "\<not> mutex_held (raft_state s) \<Longrightarrow> s\<lparr>raft_state := unlock_node ((raft_state s)\<lparr>mutex_held := True\<rparr>)\<rparr> = s"
  by simp

lemma handle_append_eq:
  assumes "\<not> mutex_held (raft_state s)"
    and "ae_req_prev_log_index (msg_data m) = Inr i" "ae_req_prev_log_term (msg_data m) = Inr t"
    and "cmd_buffer_at (msg_data m) ae_req_entries_header = Inr cb" "cmd_buffer_ok cb"
    and "node_fd s (sender_node_id m) = Inr fd" "send_ok w fd"
    and "length (lf_contents (server_log s)) < 2 ^ 31" "full_writes (log_writes w) (unat (cmds_length cb))"
  shows "handle_append w s m =
    (let r = append_answer s i t; s2 = s\<lparr>outbox := outbox s @ [(fd, append_response s r)]\<rparr>
     in Inr (if ar_success r
             then s2\<lparr>server_log := (server_log s)\<lparr>lf_contents := lf_contents (server_log s) @ log_record cb\<rparr>,
                     to_5 := to_5 s @ [cb]\<rparr>
             else s2))"
proof -
  from assms(9) obtain a k c where w: "log_writes w = (Some a, Some k, Some c)" "48 \<le> a" "48 \<le> c"
    "unat (cmds_length cb) \<le> k"
    by (auto simp: full_writes_def)
  have log: "logfile_append_data (log_writes w) (server_log s) cb
      = Inr ((server_log s)\<lparr>lf_contents := lf_contents (server_log s) @ log_record cb\<rparr>)"
    using logfile_append_any [OF assms(5,8) w(2,3)] w(1,4) by (simp add: log_record_def)
  show ?thesis using assms(1-4,6,7) log by (simp add: handle_append_def Let_def)
qed

text \<open>C9: an append request on a server whose mutex is free. A request of an older term is
  dropped without an answer. Otherwise a newer term is adopted and the sender answered. The
  request is accepted when its predecessor is the last entry the server has applied, or when the
  server has applied nothing: then the commands are appended to the log file as one batch and
  queued, once, for the thread that applies them. A refused request leaves log file and queues
  alone and is answered with what the server has applied.\<close>

theorem server_append_effect:
  assumes "\<not> mutex_held (raft_state s)" "msg_of_bytes buf = Inr m" "rpc_type m = RAFT_RPC_APPEND_ENTRIES"
    and "ae_req_prev_log_index (msg_data m) = Inr i" "ae_req_prev_log_term (msg_data m) = Inr t"
    and "cmd_buffer_at (msg_data m) ae_req_entries_header = Inr cb" "cmd_buffer_ok cb"
    and "node_fd s (sender_node_id m) = Inr fd" "send_ok w fd"
    and "length (lf_contents (server_log s)) < 2 ^ 31" "full_writes (log_writes w) (unat (cmds_length cb))"
  shows "handle_message w buf s =
    (if msg_term m < current_term (raft_state s) then Inr s
     else
       let s1 = adopt_term (msg_term m) s;
           accepted = (t = last_applied_term s \<and> i = last_applied_index s
                       \<or> last_applied_term s = 0 \<and> last_applied_index s = 0);
           answer = (if accepted then \<lparr>ar_success = True, ar_log_idx = i + 1, ar_term = t\<rparr>
                     else \<lparr>ar_success = False, ar_log_idx = last_applied_index s, ar_term = last_applied_term s\<rparr>);
           s2 = s1\<lparr>outbox := outbox s @ [(fd, append_response s1 answer)]\<rparr>
       in Inr (if accepted
               then s2\<lparr>server_log := (server_log s)\<lparr>lf_contents := lf_contents (server_log s) @ log_record cb\<rparr>,
                       to_5 := to_5 s @ [cb]\<rparr>
               else s2))"
proof (cases "msg_term m < current_term (raft_state s)")
  case True
  then show ?thesis using assms(1,2) by (simp add: handle_message_def handle_term_eq)
next
  case False
  let ?s1 = "adopt_term (msg_term m) s"
  have run: "handle_message w buf s = handle_append w ?s1 m"
    using False assms(1-3) by (simp add: handle_message_def handle_term_eq)
  have fd: "node_fd ?s1 (sender_node_id m) = Inr fd" using assms(8) by (simp add: node_fd_def)
  have "handle_append w ?s1 m =
    (let r = append_answer ?s1 i t; s2 = ?s1\<lparr>outbox := outbox ?s1 @ [(fd, append_response ?s1 r)]\<rparr>
     in Inr (if ar_success r
             then s2\<lparr>server_log := (server_log ?s1)\<lparr>lf_contents := lf_contents (server_log ?s1) @ log_record cb\<rparr>,
                     to_5 := to_5 ?s1 @ [cb]\<rparr>
             else s2))"
    using assms fd by (intro handle_append_eq) simp_all
  then show ?thesis
    using False unfolding run by (auto simp: append_answer_def Let_def)
qed


text \<open>A vote request on a server whose mutex is free. The answer depends on the logs alone: a
  vote given before is neither looked at nor recorded.\<close>

lemma server_vote_effect:
  assumes "\<not> mutex_held (raft_state s)" "msg_of_bytes buf = Inr m" "rpc_type m = RAFT_RPC_REQUEST_VOTE"
    and "rv_req_last_log_index (msg_data m) = Inr i" "rv_req_last_log_term (msg_data m) = Inr t"
    and "node_fd s (sender_node_id m) = Inr fd" "send_ok w fd" "\<not> msg_term m < current_term (raft_state s)"
  shows "handle_message w buf s = Inr ((adopt_term (msg_term m) s)\<lparr>outbox := outbox s
    @ [(fd, vote_response (adopt_term (msg_term m) s)
          (last_applied_term s < t \<or> t = last_applied_term s \<and> last_applied_index s \<le> i))]\<rparr>)"
proof -
  let ?s1 = "adopt_term (msg_term m) s"
  have "handle_message w buf s = handle_vote_request w ?s1 m"
    using assms(1-3,8) by (simp add: handle_message_def handle_term_eq)
  moreover have "vote_answer ?s1 i t = (last_applied_term s < t \<or> t = last_applied_term s \<and> last_applied_index s \<le> i)"
    by (auto simp: vote_answer_def)
  moreover have "node_fd ?s1 (sender_node_id m) = Inr fd"
    using assms(6) by (simp add: node_fd_def)
  ultimately show ?thesis
    using assms(1,4,5,7) by (simp add: handle_vote_request_def Let_def)
qed

text \<open>A vote response on a candidate of its term: a granted one is counted, and more than half of
  the nodes make the server the leader of the term.\<close>

lemma server_vote_resp_effect:
  assumes "\<not> mutex_held (raft_state s)" "msg_of_bytes buf = Inr m" "rpc_type m = RAFT_RPC_RESP_REQUEST_VOTE"
    and "msg_term m = current_term (raft_state s)" "rv_resp_granted (msg_data m) = Inr g"
  shows "handle_message w buf s =
    (if rstate (raft_state s) \<noteq> RAFT_STATE_CANDIDATE then Inl Assert_failed
     else
       let n = (raft_state s)\<lparr>votes_received := votes_received (raft_state s) + (if g then 1 else 0)\<rparr>
       in if unat (num_nodes (cluster_state s)) div 2 < unat (votes_received n)
          then bindr (raft_become_leader (thread_ok w) (Some n)) (\<lambda>(_, n'). Inr (s\<lparr>raft_state := the n'\<rparr>))
          else Inr (s\<lparr>raft_state := n\<rparr>))"
proof -
  have same: "adopt_term (current_term (raft_state s)) s = s" by (simp add: adopt_term_def)
  have free: "n\<lparr>mutex_held := False\<rparr> = n" if "\<not> mutex_held n" for n :: "'a raft_node_t"
    using that by (cases n) simp
  show ?thesis
    using assms by (auto simp: handle_message_def handle_term_eq same handle_vote_resp_def Let_def unlock_node_def free)
qed

text \<open>A vote never reaches the candidate. The response announces the body of an append
  response, 24 bytes, and carries one byte: the receiver of exactly these bytes reads on, and on
  its non-blocking socket the next read fails, which ends its program.\<close>

theorem vote_response_never_arrives:
  assumes "length buf = thread_2_buf_size"
  shows "thread_2_receive buf [Read_bytes (vote_response s g)] = Inr None
    \<and> thread_2_receive buf [Read_bytes (vote_response s g), Read_failed] = Inl Assert_failed"
proof -
  let ?v = "vote_response s g"
  have len: "length ?v = 33" by (simp add: vote_response_def length_msg_bytes)
  have buf: "33 \<le> length buf" using assms by (simp add: thread_2_buf_size_def CMDBUF_SIZE_def sizeof_raft_msg_t_def)
  then have first: "memcpy_into buf 0 ?v = Inr (?v @ drop 33 buf)"
    using len by (simp add: memcpy_into_def)
  have "rd 8 (?v @ drop 33 buf) 0 = Inr (24 :: u64)"
    by (simp add: vote_response_def rd_msg_bytes sizeof_append_resp_def)
  moreover have "unat (24 + of_nat sizeof_raft_msg_t :: u64) = 56" by (simp add: sizeof_raft_msg_t_def)
  ultimately show ?thesis
    using first len by (simp add: thread_2_receive_def)
qed

theorem vote_response_never_arrives_witness:
  "\<forall>(s :: nat server) g. thread_2_receive (replicate thread_2_buf_size 0) [Read_bytes (vote_response s g)] = Inr None"
  by (simp add: vote_response_never_arrives)

section \<open>Concrete messages\<close>

definition sample_server :: "nat server" where
  "sample_server =
     \<lparr>raft_state = sample_node, last_applied_index = 0, last_applied_term = 0,
      cluster_state = \<lparr>cluster_nodes = replicate 256 zero_addr, node_fds = [5, -1, 6] @ replicate 253 (-1),
                       self_id = 1, num_nodes = 3\<rparr>,
      server_log = \<lparr>lf_contents = []\<rparr>, to_3 = [], to_6 = [], to_5 = [], outbox = []\<rparr>"

definition all_well :: outside where
  "all_well = \<lparr>send_ok = (\<lambda>fd. 0 \<le> fd), log_writes = (Some 48, Some 8, Some 48), thread_ok = True\<rparr>"

definition append_message :: "u64 \<Rightarrow> u64 \<Rightarrow> u64 \<Rightarrow> u64 \<Rightarrow> cmd_buffer_t \<Rightarrow> raft_msg_t" where
  "append_message term sender i t cb =
     \<lparr>body_length = of_nat (72 + length (cb_data cb)), msg_term = term, sender_node_id = sender,
      rpc_type = RAFT_RPC_APPEND_ENTRIES,
      msg_data = le_enc 8 i @ le_enc 8 t @ le_enc 8 i @ le_enc 8 (0 :: u64) @ cmd_buffer_bytes (replicate 8 0) cb\<rparr>"

lemma append_message_fields:
  "ae_req_prev_log_index (msg_data (append_message term sender i t cb) @ rest) = Inr i"
  "ae_req_prev_log_term (msg_data (append_message term sender i t cb) @ rest) = Inr t"
  "cmd_buffer_at (msg_data (append_message term sender i t cb) @ rest) ae_req_entries_header
    = Inr (cb\<lparr>cb_data := cb_data cb @ rest\<rparr>)"
  by (simp_all add: append_message_def ae_req_prev_log_index_def ae_req_prev_log_term_def ae_req_entries_header_def
      cmd_buffer_at_def cmd_buffer_bytes_def sizeof_cmd_buffer_t_def rd_def)

theorem server_append_effect_witness:
  "handle_message all_well (msg_bytes [0, 0, 0, 0] (append_message 3 0 0 0 sample_buffer)) sample_server
   = (let s1 = adopt_term 3 sample_server
      in Inr (s1\<lparr>outbox := [(5, append_response s1 \<lparr>ar_success = True, ar_log_idx = 1, ar_term = 0\<rparr>)],
                 server_log := \<lparr>lf_contents = log_record sample_buffer\<rparr>,
                 to_5 := [sample_buffer]\<rparr>))"
proof -
  let ?m = "append_message 3 0 0 0 sample_buffer"
  have m: "msg_of_bytes (msg_bytes [0, 0, 0, 0] ?m) = Inr ?m"
    using msg_bytes_roundtrip [of "[0, 0, 0, 0]" ?m "[]"] by (simp add: append_message_def)
  have f: "rpc_type ?m = RAFT_RPC_APPEND_ENTRIES" "msg_term ?m = 3" "sender_node_id ?m = 0"
    by (simp_all add: append_message_def)
  have s: "\<not> mutex_held (raft_state sample_server)" "current_term (raft_state sample_server) = 0"
    "node_fd sample_server (sender_node_id ?m) = Inr 5" "send_ok all_well 5"
    "length (lf_contents (server_log sample_server)) < 2 ^ 31"
    "full_writes (log_writes all_well) (unat (cmds_length sample_buffer))"
    using sample_full_writes by (simp_all add: sample_server_def node_fd_def f all_well_def)
  have cb: "cmd_buffer_at (msg_data ?m) ae_req_entries_header = Inr sample_buffer"
    using append_message_fields(3) [of 3 0 0 0 sample_buffer "[]"] by simp
  show ?thesis
    using server_append_effect [OF s(1) m f(1) _ _ cb sample_buffer_ok s(3,4,5,6), of 0 0]
      append_message_fields(1,2) [of 3 0 0 0 sample_buffer "[]"]
    by (simp add: f s(2) Let_def) (simp add: sample_server_def)
qed

text \<open>Whether a server grants a vote request for a log that ends with this index and term.\<close>

definition log_at_least :: "'sm server \<Rightarrow> u64 \<Rightarrow> u64 \<Rightarrow> bool" where
  "log_at_least s i t \<longleftrightarrow> last_applied_term s < t \<or> t = last_applied_term s \<and> last_applied_index s \<le> i"

lemma vote_response_same [simp]:
  "vote_response (s\<lparr>outbox := b\<rparr>) g = vote_response s g"
  "adopt_term u ((adopt_term u s)\<lparr>outbox := b\<rparr>) = (adopt_term u s)\<lparr>outbox := b\<rparr>"
  by (simp_all add: vote_response_def server_id_def) (simp add: adopt_term_def)

text \<open>C35: the server of \<open>main.c\<close> votes for every candidate whose log is at least as long as its
  own: two vote requests of the same term, not below its own, from any two senders, are answered
  one after the other by the comparison of the logs alone, so both are granted when both logs
  are at least as long. \<open>thread_2\<close> neither reads \<open>voted_for\<close> nor writes it, and nothing of
  the server changes but its term, its role and what it sent.\<close>

theorem server_votes_twice:
  assumes "\<not> mutex_held (raft_state s)" "\<not> msg_term m1 < current_term (raft_state s)" "msg_term m2 = msg_term m1"
    and "msg_of_bytes buf1 = Inr m1" "rpc_type m1 = RAFT_RPC_REQUEST_VOTE"
    and "rv_req_last_log_index (msg_data m1) = Inr i1" "rv_req_last_log_term (msg_data m1) = Inr t1"
    and "node_fd s (sender_node_id m1) = Inr fd1" "send_ok w fd1"
    and "msg_of_bytes buf2 = Inr m2" "rpc_type m2 = RAFT_RPC_REQUEST_VOTE"
    and "rv_req_last_log_index (msg_data m2) = Inr i2" "rv_req_last_log_term (msg_data m2) = Inr t2"
    and "node_fd s (sender_node_id m2) = Inr fd2" "send_ok w fd2"
  shows "\<exists>s1 s2. handle_message w buf1 s = Inr s1 \<and> handle_message w buf2 s1 = Inr s2
    \<and> outbox s2 = outbox s @ [(fd1, vote_response s2 (log_at_least s i1 t1)), (fd2, vote_response s2 (log_at_least s i2 t2))]
    \<and> current_term (raft_state s2) = msg_term m1
    \<and> s2 = (adopt_term (msg_term m1) s)\<lparr>outbox := outbox s2\<rparr>
    \<and> voted_for (raft_state s2) = voted_for (raft_state s)"
proof -
  let ?T = "msg_term m1"
  let ?a = "adopt_term ?T s"
  let ?s1 = "?a\<lparr>outbox := outbox s @ [(fd1, vote_response ?a (log_at_least s i1 t1))]\<rparr>"
  have one: "handle_message w buf1 s = Inr ?s1"
    using server_vote_effect [OF assms(1,4-9,2)] by (simp add: log_at_least_def)
  have "node_fd ?s1 (sender_node_id m2) = Inr fd2" using assms(14) by (simp add: node_fd_def)
  then have two: "handle_message w buf2 ?s1 = Inr (?s1\<lparr>outbox := outbox ?s1 @ [(fd2, vote_response ?s1 (log_at_least s i2 t2))]\<rparr>)"
    using server_vote_effect [OF _ assms(10-13) _ assms(15), of ?s1] assms(1-3) by (simp add: log_at_least_def)
  show ?thesis
    by (rule exI [of _ ?s1], rule exI [of _ "?s1\<lparr>outbox := outbox ?s1 @ [(fd2, vote_response ?s1 (log_at_least s i2 t2))]\<rparr>"])
      (use one two assms(2) in \<open>simp add: max_def not_less\<close>)
qed

text \<open>Node 1 votes for node 0 and for node 2 in term 5.\<close>

theorem server_votes_twice_witness:
  "\<exists>s1 s2. handle_message all_well (msg_bytes [0, 0, 0, 0] (vote_request 5 0 0 0)) sample_server = Inr s1
    \<and> handle_message all_well (msg_bytes [0, 0, 0, 0] (vote_request 5 2 0 0)) s1 = Inr s2
    \<and> outbox s2 = [(5, vote_response s2 True), (6, vote_response s2 True)]
    \<and> current_term (raft_state s2) = 5 \<and> voted_for (raft_state s2) = 0"
proof -
  let ?r = "\<lambda>i. vote_request 5 i 0 0"
  have m: "msg_of_bytes (msg_bytes [0, 0, 0, 0] (?r i)) = Inr (?r i)" "rpc_type (?r i) = RAFT_RPC_REQUEST_VOTE" for i
    using msg_bytes_roundtrip [of "[0, 0, 0, 0]" "?r i" "[]"] by (simp_all add: vote_request_def)
  have s: "\<not> mutex_held (raft_state sample_server)" "\<not> msg_term (?r 0) < current_term (raft_state sample_server)"
    "node_fd sample_server 0 = Inr 5" "node_fd sample_server 2 = Inr 6" "send_ok all_well 5" "send_ok all_well 6"
    "voted_for (raft_state sample_server) = 0" "outbox sample_server = []" "log_at_least sample_server 0 0"
    by (simp_all add: sample_server_def node_fd_def all_well_def log_at_least_def)
  show ?thesis
    using server_votes_twice [OF s(1,2) _ m [of 0], of "?r 2" 0 0 5 all_well "msg_bytes [0, 0, 0, 0] (?r 2)" 0 0 6] m [of 2] s
    by auto
qed

definition sample_wire :: bytes where
  "sample_wire = msg_bytes [0, 0, 0, 0] (vote_request 5 0 0 0)"

lemma sample_wire_ok: "wire_msg sample_wire" "length sample_wire = 48"
  unfolding sample_wire_def
  by (rule wire_msg_bytes) (simp_all add: vote_request_def length_msg_bytes)

theorem thread_2_reassembles_witness:
  "thread_2_receive (replicate 64 7) [Read_bytes (take 3 sample_wire), Read_bytes (drop 3 sample_wire), Read_failed]
   = Inr (Some (sample_wire @ replicate 16 7, [Read_failed]))
   \<and> thread_2_receive (replicate 64 7) [Read_bytes (take 3 sample_wire), Read_failed, Read_failed] = Inl Assert_failed"
proof -
  have "sample_wire \<noteq> []" using sample_wire_ok(2) by auto
  then show ?thesis
    using thread_2_reassembles [of "take 3 sample_wire" "[drop 3 sample_wire]" "replicate 64 7" "[Read_failed]"]
      sample_wire_ok by simp
qed

theorem thread_2_receive_aborts_witness:
  "thread_2_receive (replicate 64 0) [Read_failed] = Inl Assert_failed
   \<and> thread_2_receive (replicate 64 0) [Read_bytes (sample_wire @ [1])] = Inl Assert_failed"
proof -
  have "rd 8 (replicate 64 0) 0 = Inr (0 :: u64)" by (simp add: rd_def eval_nat_numeral)
  then show ?thesis
    using thread_2_receive_aborts [of sample_wire "[1]" "replicate 64 0" 0 "[]"] sample_wire_ok
    by (simp add: sizeof_raft_msg_t_def)
qed

theorem thread_2_old_equiv_witness:
  "old_receive (replicate 64 7) [Read_bytes (take 32 sample_wire), Read_bytes (drop 32 sample_wire)]
   = bindr (thread_2_receive (replicate 64 7) [Read_bytes (take 32 sample_wire), Read_bytes (drop 32 sample_wire)])
       (\<lambda>r. case r of None \<Rightarrow> Inr None | Some (buf', rs') \<Rightarrow> Inr (Some (Some buf', rs')))"
  using thread_2_old_equiv [of "take 32 sample_wire" "[drop 32 sample_wire]" "replicate 64 7" "[]"]
    sample_wire_ok by (simp add: sizeof_raft_msg_t_def)

theorem thread_2_receive_typed_witness:
  "\<exists>m. msg_of_bytes (sample_wire @ replicate (thread_2_buf_size - 48) 7) = Inr m \<and> unat (sender_node_id m) < MAX_NODES"
proof -
  have size: "48 \<le> thread_2_buf_size" by (simp add: thread_2_buf_size_def CMDBUF_SIZE_def)
  obtain len sender :: u64 where m: "rd 8 sample_wire 0 = Inr len" "unat (len + of_nat sizeof_raft_msg_t) = length sample_wire"
    using sample_wire_ok(1) unfolding wire_msg_def by blast
  have "thread_2_receive (replicate thread_2_buf_size 7) [Read_bytes sample_wire]
      = Inr (Some (sample_wire @ replicate (thread_2_buf_size - 48) 7, []))"
    using thread_2_receive_whole [OF sample_wire_ok(1), of "replicate thread_2_buf_size 7" "[]"] size
    by (simp add: sample_wire_ok(2))
  from thread_2_receive_typed [OF this, of sample_server] show ?thesis
    by (auto simp: sample_server_def MAX_NODES_def)
qed

end
