(* ===== verification/Server_Leader.thy ===== *)
theory Server_Leader
  imports Server_Messages
begin

text \<open>
  The leader's side of the server (\<open>src/main.c\<close>): \<open>thread_1\<close>, which collects the
  commands of the clients into batches, \<open>thread_3\<close>, which sends a batch to the other nodes and
  waits for a quorum of answers, and the timers \<open>thread_6\<close> and \<open>thread_7\<close>. The model is
  the build with assertions, in which the command buffers start zeroed.
\<close>

section \<open>Collecting commands\<close>

definition cmdbuf_room :: nat where
  "cmdbuf_room = unat CMDBUF_SIZE - sizeof_cmd_buffer_t"

definition max_kvs_cmd_size :: nat where "max_kvs_cmd_size = 2048"

text \<open>The value of \<open>clock()\<close> after 0.1 seconds, with 1000000 ticks in a second; the elapsed
  time, a \<open>double\<close> in the code, is counted in ticks.\<close>

definition batch_ticks :: nat where "batch_ticks = 100000"

text \<open>What one turn of the collecting loop meets: the term of the node, the datagram received
  (\<open>None\<close> after the socket timeout; an empty one counts as none) and the ticks the turn takes.\<close>

record client_input =
  in_term :: u64
  in_datagram :: "bytes option"
  in_ticks :: nat

definition empty_cmd_buffer :: "u64 \<Rightarrow> u64 \<Rightarrow> cmd_buffer_t" where
  "empty_cmd_buffer term index =
     \<lparr>cb_term = term, cb_log_index = index, cmds_length = 0, num_cmds = 0, cb_data = replicate cmdbuf_room 0\<rparr>"

text \<open>A datagram is added to the buffer of its kind; \<open>base\<close> is the address of the receive
  buffer, which holds at most \<open>max_kvs_cmd_size\<close> bytes of the datagram.\<close>

definition add_datagram ::
  "u64 \<Rightarrow> bytes \<Rightarrow> cmd_buffer_t \<times> cmd_buffer_t \<Rightarrow> (bool \<times> cmd_buffer_t \<times> cmd_buffer_t) res" where
  "add_datagram base datagram wr =
     (let d = take max_kvs_cmd_size datagram in
      bindr (assert_c (sizeof_kvs_command_t \<le> length d)) (\<lambda>_.
      bindr (kvs_command_len base d 0) (\<lambda>len.
      bindr (assert_c (jump_to_alignment (of_nat (length d)) 8 = len)) (\<lambda>_.
      bindr (kvs_type d 0) (\<lambda>type.
        let cb = (if type = CMD_GET then snd wr else fst wr) in
        bindr (assert_c (cmds_length cb < CMDBUF_SIZE - 256)) (\<lambda>_.
        bindr (memcpy_into (cb_data cb) (unat (cmds_length cb)) d) (\<lambda>data.
          let cb' = cb\<lparr>cb_data := data, num_cmds := num_cmds cb + 1,
                       cmds_length := cmds_length cb + jump_to_alignment (of_nat (length d)) 8\<rparr>;
              full = (CMDBUF_SIZE - of_nat max_kvs_cmd_size - of_nat sizeof_cmd_buffer_t - 64 \<le> cmds_length cb')
          in Inr (full, if type = CMD_GET then (fst wr, cb') else (cb', snd wr)))))))))"

text \<open>The collecting loop. \<open>None\<close> means that it still waits at the end of the inputs; otherwise
  the buffers and the inputs it has not used.\<close>

fun collect ::
  "u64 \<Rightarrow> nat \<Rightarrow> client_input list \<Rightarrow> cmd_buffer_t \<times> cmd_buffer_t
    \<Rightarrow> ((cmd_buffer_t \<times> cmd_buffer_t) \<times> client_input list) option res" where
  "collect base elapsed [] wr =
     (if elapsed < batch_ticks then Inr None else Inr (Some (wr, [])))"
| "collect base elapsed (x # xs) wr =
     (if elapsed < batch_ticks
      then if in_term x \<noteq> cb_term (fst wr) then Inr (Some (wr, x # xs))
           else (case in_datagram x of
                   None \<Rightarrow> collect base (elapsed + in_ticks x) xs wr
                 | Some d \<Rightarrow>
                     if d = [] then collect base (elapsed + in_ticks x) xs wr
                     else bindr (add_datagram base d wr) (\<lambda>(full, wr').
                       if full then Inr (Some (wr', xs)) else collect base (elapsed + in_ticks x) xs wr'))
      else Inr (Some (wr, x # xs)))"

text \<open>One pass of \<open>thread_1\<close>; \<open>end_term\<close> is the term after the collecting loop. The result is
  the pair of buffers put into the queue to \<open>thread_3\<close>, if any.\<close>

definition thread_1_pass ::
  "u64 \<Rightarrow> client_input list \<Rightarrow> u64 \<Rightarrow> 'sm server \<Rightarrow> (cmd_buffer_t \<times> cmd_buffer_t) option option res" where
  "thread_1_pass base inputs end_term s =
     bindr (lock_node (raft_state s)) (\<lambda>n.
       if rstate n = RAFT_STATE_LEADER
       then
         let w = empty_cmd_buffer (current_term n) (last_applied_index s + 1) in
         bindr (collect base 0 inputs (w, w)) (\<lambda>r.
           case r of
             None \<Rightarrow> Inr None
           | Some ((w', r'), _) \<Rightarrow>
               if end_term \<noteq> cb_term w' then Inr (Some None)
               else if cmds_length w' = 0 \<and> cmds_length r' = 0 then Inr (Some None)
               else Inr (Some (Some (w', r'))))
       else Inr (Some None))"

section \<open>Replicating a batch\<close>

definition sizeof_append_req :: nat where "sizeof_append_req = 80"

text \<open>\<open>*ae_req = \{...\}\<close>: the named fields, zero for the others.\<close>

definition append_req_bytes :: "'sm server \<Rightarrow> bytes" where
  "append_req_bytes s =
     le_enc 8 (last_applied_index s) @ le_enc 8 (last_applied_term s) @ le_enc 8 (last_applied_index s + 1)
     @ replicate 56 0"

definition body_size :: "cmd_buffer_t \<Rightarrow> u64" where
  "body_size cb = of_nat sizeof_cmd_buffer_t + cmds_length cb + of_nat sizeof_append_req"

text \<open>The message \<open>thread_3\<close> builds in a block whose bytes are \<open>junk\<close> where it does not write;
  \<open>pointer\<close> is the field \<open>data_to_free\<close>, which is sent along.\<close>

definition thread_3_message :: "bytes \<Rightarrow> bytes \<Rightarrow> 'sm server \<Rightarrow> cmd_buffer_t \<Rightarrow> bytes res" where
  "thread_3_message junk pointer s cb =
     bindr (rd_bytes (cmd_buffer_bytes pointer cb) 0 (sizeof_cmd_buffer_t + unat (cmds_length cb))) (\<lambda>src.
     bindr (memcpy_into (take (unat (body_size cb)) junk) 0 (append_req_bytes s)) (\<lambda>b1.
     bindr (memcpy_into b1 ae_req_entries_header src) (\<lambda>b2.
       Inr (msg_bytes [0, 0, 0, 0]
         \<lparr>body_length = body_size cb, msg_term = cb_term cb, sender_node_id = server_id s,
          rpc_type = RAFT_RPC_APPEND_ENTRIES, msg_data = b2\<rparr>))))"

text \<open>Sending to the other nodes, in order.\<close>

fun send_to_all :: "outside \<Rightarrow> bytes \<Rightarrow> nat list \<Rightarrow> 'sm server \<Rightarrow> 'sm server res" where
  "send_to_all w msg [] s = Inr s"
| "send_to_all w msg (i # is) s =
     (let fd = node_fds (cluster_state s) ! i in
      bindr (assert_c (send_ok w fd)) (\<lambda>_.
        send_to_all w msg is (s\<lparr>outbox := outbox s @ [(fd, msg)]\<rparr>)))"

text \<open>The loop that waits for a quorum; the dequeue blocks while there is no answer.\<close>

fun await_quorum :: "cmd_buffer_t \<Rightarrow> cmd_buffer_t \<Rightarrow> nat \<Rightarrow> nat \<Rightarrow> msg_2_to_3_t list \<Rightarrow> msg_2_to_3_t list option res" where
  "await_quorum w r nodes ok [] = (if ok \<le> nodes div 2 then Inr None else Inr (Some []))"
| "await_quorum w r nodes ok (a # as) =
     (if ok \<le> nodes div 2
      then
        bindr (assert_c (m23_node_id a \<noteq> -1)) (\<lambda>_.
        if m23_term a = cb_term w \<and> m23_log_index a = cb_log_index w
        then await_quorum w r nodes (ok + 1) as
        else bindr (assert_c (m23_term a \<le> cb_term r)) (\<lambda>_. await_quorum w r nodes ok as))
      else Inr (Some (a # as)))"

text \<open>\<open>thread_3\<close> on one pair of buffers: the server afterwards, and the read commands for
  \<open>thread_4\<close>. \<open>answers\<close> are the items it takes from the queue of \<open>thread_2\<close>.\<close>

definition thread_3_pass ::
  "outside \<Rightarrow> bytes \<Rightarrow> bytes \<Rightarrow> cmd_buffer_t \<times> cmd_buffer_t \<Rightarrow> msg_2_to_3_t list \<Rightarrow> 'sm server
    \<Rightarrow> ('sm server \<times> cmd_buffer_t \<times> msg_2_to_3_t list) option res" where
  "thread_3_pass o' junk pointer wr answers s =
     (let w = fst wr; r = snd wr in
      bindr (assert_c (cb_term r = cb_term w)) (\<lambda>_.
      bindr (assert_c (body_size w \<le> CMDBUF_SIZE)) (\<lambda>_.
      bindr (lock_node (raft_state s)) (\<lambda>n.
      bindr (thread_3_message junk pointer s w) (\<lambda>msg.
      bindr (send_to_all o' msg (other_nodes (cluster_state s)) (s\<lparr>raft_state := unlock_node n\<rparr>)) (\<lambda>s1.
      bindr (await_quorum w r (unat (num_nodes (cluster_state s1))) 1 answers) (\<lambda>q.
        case q of
          None \<Rightarrow> Inr None
        | Some rest \<Rightarrow>
            bindr (logfile_append_data (log_writes o') (server_log s1) w) (\<lambda>lf.
              Inr (Some (s1\<lparr>server_log := lf, to_5 := to_5 s1 @ [w]\<rparr>, r, rest))))))))))"

section \<open>Timers\<close>

text \<open>\<open>thread_6\<close> only sleeps; \<open>thread_7\<close> sends the heartbeat. \<open>RAFT_HEARTBEAT\<close> is not
  declared in any header: the message type is the argument \<open>heartbeat\<close>. The results of these
  sends are not looked at.\<close>

definition thread_6_pass :: timespec where
  "thread_6_pass = sleep_milisec 100000"

definition thread_7_pass :: "raft_rpc_type_t \<Rightarrow> bytes \<Rightarrow> 'sm server \<Rightarrow> 'sm server res" where
  "thread_7_pass heartbeat padding s =
     bindr (lock_node (raft_state s)) (\<lambda>n.
       let rf_state = unlock_node n; s1 = s\<lparr>raft_state := rf_state\<rparr>
       in if rstate rf_state = RAFT_STATE_LEADER
          then
            let msg = msg_bytes padding \<lparr>body_length = 0, msg_term = current_term rf_state,
                  sender_node_id = server_id s, rpc_type = heartbeat, msg_data = []\<rparr>
            in Inr (s1\<lparr>outbox := outbox s1
                 @ map (\<lambda>i. (node_fds (cluster_state s1) ! i, msg)) (other_nodes (cluster_state s1))\<rparr>)
          else Inr s1)"


section \<open>The batches hold the commands in order\<close>

text \<open>A buffer that holds a list of encoded commands, and the largest amount the collecting loop
  goes on with.\<close>

definition holds :: "cmd_buffer_t \<Rightarrow> kvs_cmd list \<Rightarrow> bool" where
  "holds cb cs \<longleftrightarrow> unat (cmds_length cb) = length (kvs_batch cs)
     \<and> take (length (kvs_batch cs)) (cb_data cb) = kvs_batch cs
     \<and> length (cb_data cb) = cmdbuf_room \<and> num_cmds cb = of_nat (length cs)"

definition batch_limit :: nat where "batch_limit = 67106712"

lemma cmdbuf_numbers:
  "unat CMDBUF_SIZE = 67108864" "cmdbuf_room = 67108824"
  "unat (CMDBUF_SIZE - of_nat max_kvs_cmd_size - of_nat sizeof_cmd_buffer_t - 64) = batch_limit"
  "unat (CMDBUF_SIZE - 256) = 67108608"
  by (simp_all add: CMDBUF_SIZE_def cmdbuf_room_def sizeof_cmd_buffer_t_def max_kvs_cmd_size_def batch_limit_def)

lemma jump_aligned_8:
  assumes "n mod 8 = 0" "n + 7 < 2 ^ 64"
  shows "jump_to_alignment (of_nat n) 8 = of_nat n"
proof -
  have n: "unat (of_nat n :: u64) = n" using assms(2) by (intro unat_of_nat_u64) simp
  have "unat (jump_to_alignment (of_nat n) 8) = (n + 7) div 8 * 8"
    using jump_to_alignment_8 [of "of_nat n"] assms(2) n by simp
  also have "\<dots> = n" using assms(1) by presburger
  finally show ?thesis using n by (metis unsigned_word_eqI)
qed

text \<open>An encoded command enters the buffer of its kind, which had room for it.\<close>

definition enter :: "kvs_cmd \<Rightarrow> cmd_buffer_t \<Rightarrow> cmd_buffer_t" where
  "enter c cb = cb\<lparr>cb_data := take (unat (cmds_length cb)) (cb_data cb) @ kvs_encode c
        @ drop (unat (cmds_length cb) + length (kvs_encode c)) (cb_data cb),
      num_cmds := num_cmds cb + 1, cmds_length := cmds_length cb + of_nat (length (kvs_encode c))\<rparr>"

lemma enter_holds:
  assumes "holds cb cs" "length (kvs_batch cs) < batch_limit" "length (kvs_encode c) \<le> max_kvs_cmd_size"
  shows "holds (enter c cb) (cs @ [c])"
proof -
  have bound: "length (kvs_batch cs) + length (kvs_encode c) < cmdbuf_room"
    using assms(2,3) by (simp add: batch_limit_def max_kvs_cmd_size_def cmdbuf_numbers)
  then have "unat (cmds_length cb + of_nat (length (kvs_encode c))) = length (kvs_batch cs) + length (kvs_encode c)"
    using assms(1) by (subst unat_add_u64) (simp_all add: holds_def unat_of_nat_u64 cmdbuf_numbers)
  then show ?thesis
    using assms(1) bound by (simp add: holds_def enter_def)
qed

lemma add_datagram_encode:
  assumes "kvs_wf c" "length (kvs_encode c) \<le> max_kvs_cmd_size" "unat base mod 8 = 0" "unat base < 2 ^ 63"
    and "holds (fst wr) ws" "length (kvs_batch ws) < batch_limit"
    and "holds (snd wr) rs" "length (kvs_batch rs) < batch_limit"
  shows "add_datagram base (kvs_encode c) wr =
    (if kc_op c = CMD_GET
     then Inr (batch_limit \<le> length (kvs_batch (rs @ [c])), fst wr, enter c (snd wr))
     else Inr (batch_limit \<le> length (kvs_batch (ws @ [c])), enter c (fst wr), snd wr))"
proof -
  let ?e = "kvs_encode c"
  let ?cb = "if kc_op c = CMD_GET then snd wr else fst wr"
  let ?cs = "if kc_op c = CMD_GET then rs else ws"
  have le: "length ?e \<le> 2048" using assms(2) by (simp add: max_kvs_cmd_size_def)
  have at: "kvs_at base ?e 0 c"
    using assms(1,3,4) le by (simp add: kvs_at_def)
  have d: "take max_kvs_cmd_size ?e = ?e" using assms(2) by simp
  have min: "sizeof_kvs_command_t \<le> length ?e"
    using kvs_encode_min [OF assms(1)] by (simp add: sizeof_kvs_command_t_def)
  have j: "jump_to_alignment (of_nat (length ?e)) 8 = of_nat (length ?e)"
    using le by (intro jump_aligned_8) simp_all
  have h: "holds ?cb ?cs" "length (kvs_batch ?cs) < batch_limit"
    using assms(5-8) by auto
  then have len: "unat (cmds_length ?cb) = length (kvs_batch ?cs)" and room: "length (cb_data ?cb) = cmdbuf_room"
    by (simp_all add: holds_def)
  have ok: "cmds_length ?cb < CMDBUF_SIZE - 256"
    using h(2) len by (simp add: word_less_nat_alt cmdbuf_numbers batch_limit_def)
  have "unat (cmds_length ?cb) + length ?e \<le> length (cb_data ?cb)"
    using h(2) len room le by (simp add: cmdbuf_numbers batch_limit_def)
  then have cpy: "memcpy_into (cb_data ?cb) (unat (cmds_length ?cb)) ?e = Inr (cb_data (enter c ?cb))"
    by (simp add: memcpy_into_def enter_def)
  have "unat (cmds_length (enter c ?cb)) = length (kvs_batch (?cs @ [c]))"
    using enter_holds [OF h assms(2)] by (simp add: holds_def)
  then have full: "(CMDBUF_SIZE - of_nat max_kvs_cmd_size - of_nat sizeof_cmd_buffer_t - 64 \<le> cmds_length (enter c ?cb))
      = (batch_limit \<le> length (kvs_batch (?cs @ [c])))"
    by (simp only: word_le_nat_alt cmdbuf_numbers)
  have e: "?cb\<lparr>cb_data := cb_data (enter c ?cb), num_cmds := num_cmds ?cb + 1,
      cmds_length := cmds_length ?cb + of_nat (length ?e)\<rparr> = enter c ?cb"
    by (simp add: enter_def)
  show ?thesis
    using min ok cpy full kvs_at_command_len [OF at] kvs_at_fields(4) [OF at] e
    unfolding add_datagram_def d Let_def by (simp only: j assert_c_True bindr_Inr if_split) (auto split: if_splits)
qed


text \<open>A turn of the loop as the clients mean it: the term, an encoded command or nothing.\<close>

definition turn :: "u64 \<times> kvs_cmd option \<times> nat \<Rightarrow> client_input" where
  "turn t = (case t of (tm, c, k) \<Rightarrow>
     \<lparr>in_term = tm, in_datagram = map_option kvs_encode c, in_ticks = k\<rparr>)"

lemma turn_sel [simp]:
  "in_term (turn (tm, c, k)) = tm" "in_datagram (turn (tm, c, k)) = map_option kvs_encode c"
  "in_ticks (turn (tm, c, k)) = k"
  by (simp_all add: turn_def)

definition turn_ok :: "u64 \<times> kvs_cmd option \<times> nat \<Rightarrow> bool" where
  "turn_ok t \<longleftrightarrow> (case fst (snd t) of None \<Rightarrow> True
     | Some c \<Rightarrow> kvs_wf c \<and> length (kvs_encode c) \<le> max_kvs_cmd_size)"

definition turn_cmds :: "(u64 \<times> kvs_cmd option \<times> nat) list \<Rightarrow> kvs_cmd list" where
  "turn_cmds ts = concat (map (\<lambda>t. case fst (snd t) of None \<Rightarrow> [] | Some c \<Rightarrow> [c]) ts)"

abbreviation is_get :: "kvs_cmd \<Rightarrow> bool" where "is_get c \<equiv> kc_op c = CMD_GET"

definition buffer_header :: "cmd_buffer_t \<Rightarrow> u64 \<times> u64" where
  "buffer_header cb = (cb_term cb, cb_log_index cb)"

lemma enter_header [simp]: "buffer_header (enter c cb) = buffer_header cb"
  by (simp add: buffer_header_def enter_def)

text \<open>The buffers after a finished collection: all commands of the turns used, each kind in its
  buffer in the order of arrival.\<close>

definition collected ::
  "u64 \<times> u64 \<Rightarrow> (u64 \<times> kvs_cmd option \<times> nat) list \<Rightarrow> kvs_cmd list \<Rightarrow> kvs_cmd list
    \<Rightarrow> ((cmd_buffer_t \<times> cmd_buffer_t) \<times> client_input list) option res \<Rightarrow> bool" where
  "collected hdr ts ws rs out \<longleftrightarrow> out = Inr None \<or>
     (\<exists>used rest w' r'. ts = used @ rest \<and> out = Inr (Some ((w', r'), map turn rest))
        \<and> holds w' (ws @ filter (\<lambda>c. \<not> is_get c) (turn_cmds used))
        \<and> holds r' (rs @ filter is_get (turn_cmds used))
        \<and> buffer_header w' = hdr \<and> buffer_header r' = hdr)"

lemma collected_more:
  assumes "collected hdr ts (ws @ filter (\<lambda>c. \<not> is_get c) (turn_cmds [t])) (rs @ filter is_get (turn_cmds [t])) out"
  shows "collected hdr (t # ts) ws rs out"
proof (cases "out = Inr None")
  case True
  then show ?thesis by (simp add: collected_def)
next
  case False
  with assms obtain used rest w' r' where u: "ts = used @ rest" "out = Inr (Some ((w', r'), map turn rest))"
    "holds w' (ws @ filter (\<lambda>c. \<not> is_get c) (turn_cmds [t]) @ filter (\<lambda>c. \<not> is_get c) (turn_cmds used))"
    "holds r' (rs @ filter is_get (turn_cmds [t]) @ filter is_get (turn_cmds used))"
    "buffer_header w' = hdr" "buffer_header r' = hdr"
    by (auto simp: collected_def)
  have "turn_cmds (t # used) = turn_cmds [t] @ turn_cmds used" by (simp add: turn_cmds_def)
  with u have "t # ts = (t # used) @ rest \<and> out = Inr (Some ((w', r'), map turn rest))
        \<and> holds w' (ws @ filter (\<lambda>c. \<not> is_get c) (turn_cmds (t # used)))
        \<and> holds r' (rs @ filter is_get (turn_cmds (t # used)))
        \<and> buffer_header w' = hdr \<and> buffer_header r' = hdr"
    by simp
  then show ?thesis unfolding collected_def by blast
qed

lemma collected_stop:
  assumes "holds (fst wr) ws" "holds (snd wr) rs" "buffer_header (fst wr) = hdr" "buffer_header (snd wr) = hdr"
  shows "collected hdr ts ws rs (Inr (Some (wr, map turn ts)))"
proof -
  have "ts = [] @ ts" "turn_cmds [] = []" by (simp_all add: turn_cmds_def)
  with assms show ?thesis unfolding collected_def by (metis append_Nil2 filter.simps(1) prod.collapse)
qed

lemma collect_collected:
  assumes "\<forall>t \<in> set ts. turn_ok t" "unat base mod 8 = 0" "unat base < 2 ^ 63"
    and "holds (fst wr) ws" "length (kvs_batch ws) < batch_limit"
    and "holds (snd wr) rs" "length (kvs_batch rs) < batch_limit"
    and "buffer_header (fst wr) = hdr" "buffer_header (snd wr) = hdr"
  shows "collected hdr ts ws rs (collect base elapsed (map turn ts) wr)"
  using assms
proof (induction ts arbitrary: wr ws rs elapsed)
  case Nil
  then show ?case using collected_stop [of wr ws rs hdr "[]"] by (simp add: collected_def)
next
  case (Cons t ts)
  obtain tm c k where t: "t = (tm, c, k)" by (cases t) auto
  note stop = collected_stop [OF Cons.prems(4,6,8,9), of "t # ts"]
  show ?case
  proof (cases "elapsed < batch_ticks \<and> tm = cb_term (fst wr)")
    case False
    then show ?thesis using stop by (auto simp: t)
  next
    case go: True
    show ?thesis
    proof (cases c)
      case None
      have "collected hdr ts ws rs (collect base (elapsed + k) (map turn ts) wr)"
        using Cons.prems by (intro Cons.IH) simp_all
      then show ?thesis
        using go collected_more [of hdr ts ws t rs] by (simp add: t None turn_cmds_def)
    next
      case (Some c)
      have c: "kvs_wf c" "length (kvs_encode c) \<le> max_kvs_cmd_size" "kvs_encode c \<noteq> []"
        using Cons.prems(1) kvs_encode_min [of c] by (auto simp: turn_ok_def t Some)
      let ?wr = "if is_get c then (fst wr, enter c (snd wr)) else (enter c (fst wr), snd wr)"
      let ?ws = "ws @ filter (\<lambda>c. \<not> is_get c) (turn_cmds [t])"
      let ?rs = "rs @ filter is_get (turn_cmds [t])"
      let ?full = "batch_limit \<le> length (kvs_batch (if is_get c then ?rs else ?ws))"
      have tc: "turn_cmds [t] = [c]" by (simp add: turn_cmds_def t Some)
      have h: "holds (fst ?wr) ?ws" "holds (snd ?wr) ?rs" "buffer_header (fst ?wr) = hdr" "buffer_header (snd ?wr) = hdr"
        using Cons.prems(4-9) enter_holds [OF _ _ c(2)] by (simp_all add: tc)
      have add: "add_datagram base (kvs_encode c) wr = Inr (?full, ?wr)"
        using add_datagram_encode [OF c(1,2) Cons.prems(2-7)] by (simp add: tc)
      have "collected hdr ts ?ws ?rs (if ?full then Inr (Some (?wr, map turn ts))
          else collect base (elapsed + k) (map turn ts) ?wr)"
      proof (cases ?full)
        case True
        then show ?thesis using collected_stop [OF h] by simp
      next
        case False
        then have "length (kvs_batch ?ws) < batch_limit" "length (kvs_batch ?rs) < batch_limit"
          using Cons.prems(5,7) by (auto simp: tc split: if_splits)
        then show ?thesis using False Cons.prems(1-3) Cons.IH [of ?wr ?ws ?rs] h by simp
      qed
      moreover have "collect base elapsed (map turn (t # ts)) wr = (if ?full then Inr (Some (?wr, map turn ts))
          else collect base (elapsed + k) (map turn ts) ?wr)"
        using go c(3) add by (simp add: t Some split del: if_split cong: if_cong)
      ultimately show ?thesis by (simp only: collected_more)
    qed
  qed
qed

text \<open>C11: on a leader whose clients send well-formed commands of at most 2048 bytes,
  \<open>thread_1\<close> never fails an assertion and never writes outside a buffer. Whenever it hands
  over a batch, the batch holds exactly the commands of the turns it used, in the order of their
  arrival: the reads in one buffer, all other commands in the other, with the term of the leader
  and the next log index.\<close>

theorem thread_1_batches:
  assumes "rstate (raft_state s) = RAFT_STATE_LEADER" "\<not> mutex_held (raft_state s)"
    and "\<forall>t \<in> set ts. turn_ok t" "unat base mod 8 = 0" "unat base < 2 ^ 63"
  shows "\<exists>out. thread_1_pass base (map turn ts) end_term s = Inr out
    \<and> (\<forall>w r. out = Some (Some (w, r)) \<longrightarrow>
         (\<exists>used rest. ts = used @ rest
            \<and> holds w (filter (\<lambda>c. \<not> is_get c) (turn_cmds used)) \<and> holds r (filter is_get (turn_cmds used)))
         \<and> (cmds_length w \<noteq> 0 \<or> cmds_length r \<noteq> 0) \<and> cb_term w = end_term
         \<and> cb_term r = cb_term w \<and> cb_log_index w = last_applied_index s + 1 \<and> cb_log_index r = cb_log_index w)"
proof -
  let ?w = "empty_cmd_buffer (current_term (raft_state s)) (last_applied_index s + 1)"
  have h: "holds ?w []" by (simp add: holds_def empty_cmd_buffer_def)
  have "collected (buffer_header ?w) ts [] [] (collect base 0 (map turn ts) (?w, ?w))"
    using assms(3-5) h by (intro collect_collected) (simp_all add: batch_limit_def)
  then consider "collect base 0 (map turn ts) (?w, ?w) = Inr None"
    | used rest w r where "ts = used @ rest" "collect base 0 (map turn ts) (?w, ?w) = Inr (Some ((w, r), map turn rest))"
      "holds w (filter (\<lambda>c. \<not> is_get c) (turn_cmds used))" "holds r (filter is_get (turn_cmds used))" "buffer_header w = buffer_header ?w" "buffer_header r = buffer_header ?w"
    unfolding collected_def by auto
  then show ?thesis
  proof cases
    case 1
    then show ?thesis using assms(1,2) by (simp add: thread_1_pass_def Let_def)
  next
    case 2
    then show ?thesis
      using assms(1,2) by (auto simp: thread_1_pass_def Let_def buffer_header_def empty_cmd_buffer_def)
  qed
qed


section \<open>From the leader to a follower\<close>

text \<open>A command buffer whose length field fits its data, small enough to be sent.\<close>

definition sendable :: "cmd_buffer_t \<Rightarrow> bool" where
  "sendable cb \<longleftrightarrow> unat (cmds_length cb) \<le> length (cb_data cb) \<and> unat (cmds_length cb) + 120 \<le> unat CMDBUF_SIZE"

lemma unat_body_size:
  assumes "sendable cb"
  shows "unat (body_size cb) = 120 + unat (cmds_length cb)"
proof -
  have a: "unat (cmds_length cb) + 120 \<le> 67108864" using assms by (simp add: sendable_def cmdbuf_numbers)
  have "body_size cb = cmds_length cb + 120"
    by (simp add: body_size_def sizeof_cmd_buffer_t_def sizeof_append_req_def)
  also have "unat \<dots> = unat (cmds_length cb) + 120"
    using a by (subst unat_add_u64) simp_all
  finally show ?thesis by simp
qed

text \<open>What is sent: the request structure up to the entries, the header of the buffer with its
  commands, and the last 48 bytes of the block.\<close>

lemma thread_3_message_eq:
  assumes "sendable cb" "length junk = 120 + unat (cmds_length cb)" "length pointer = 8"
  obtains tail where "thread_3_message junk pointer s cb = Inr (msg_bytes [0, 0, 0, 0]
      \<lparr>body_length = body_size cb, msg_term = cb_term cb, sender_node_id = server_id s,
       rpc_type = RAFT_RPC_APPEND_ENTRIES,
       msg_data = (le_enc 8 (last_applied_index s) @ le_enc 8 (last_applied_term s) @ le_enc 8 (last_applied_index s + 1)
         @ replicate 8 0) @ cmd_buffer_bytes pointer (cb\<lparr>cb_data := take (unat (cmds_length cb)) (cb_data cb)\<rparr>) @ tail\<rparr>)"
    and "length tail = 48"
proof -
  let ?n = "unat (cmds_length cb)"
  let ?h = "le_enc 8 (last_applied_index s) @ le_enc 8 (last_applied_term s) @ le_enc 8 (last_applied_index s + 1) @ replicate 8 0"
  let ?src = "cmd_buffer_bytes pointer (cb\<lparr>cb_data := take ?n (cb_data cb)\<rparr>)"
  let ?b1 = "append_req_bytes s @ drop 80 junk"
  let ?tail = "drop (72 + ?n) ?b1"
  have n: "?n \<le> length (cb_data cb)" using assms(1) by (simp add: sendable_def)
  have src: "rd_bytes (cmd_buffer_bytes pointer cb) 0 (sizeof_cmd_buffer_t + ?n) = Inr ?src"
    using n assms(3) by (simp add: rd_bytes_def cmd_buffer_bytes_def sizeof_cmd_buffer_t_def)
  have lsrc: "length ?src = 40 + ?n" using n assms(3) by (simp add: cmd_buffer_bytes_def)
  have lreq: "length (append_req_bytes s) = 80" by (simp add: append_req_bytes_def)
  have b1: "memcpy_into (take (unat (body_size cb)) junk) 0 (append_req_bytes s) = Inr ?b1"
    using assms(2) by (simp add: memcpy_into_def lreq unat_body_size [OF assms(1)])
  have lb1: "length ?b1 = 120 + ?n" using assms(2) lreq by simp
  have "replicate 56 (0 :: u8) = replicate 8 0 @ replicate 48 0" by (simp add: replicate_add [symmetric])
  then have "append_req_bytes s = ?h @ replicate 48 0" by (simp add: append_req_bytes_def)
  then have h: "take 32 ?b1 = ?h" by simp
  have "memcpy_into ?b1 32 ?src = Inr (take 32 ?b1 @ ?src @ drop (32 + length ?src) ?b1)"
    using lb1 lsrc by (simp add: memcpy_into_def del: length_append take_append drop_append)
  moreover have "32 + length ?src = 72 + ?n" using lsrc by simp
  ultimately have b2: "memcpy_into ?b1 ae_req_entries_header ?src = Inr (?h @ ?src @ ?tail)"
    by (simp only: h ae_req_entries_header_def)
  show thesis
  proof (rule that)
    show "thread_3_message junk pointer s cb = Inr (msg_bytes [0, 0, 0, 0]
      \<lparr>body_length = body_size cb, msg_term = cb_term cb, sender_node_id = server_id s,
       rpc_type = RAFT_RPC_APPEND_ENTRIES, msg_data = ?h @ ?src @ ?tail\<rparr>)"
      using src b1 b2 by (simp only: thread_3_message_def bindr_Inr)
    show "length ?tail = 48" using lb1 by (simp del: drop_append)
  qed
qed

lemma thread_3_message_read:
  fixes s :: "'sm server" and tail :: bytes
  assumes "length pointer = 8" "unat (cmds_length cb) \<le> length (cb_data cb)"
  defines "d \<equiv> (le_enc 8 (last_applied_index s) @ le_enc 8 (last_applied_term s) @ le_enc 8 (last_applied_index s + 1)
         @ replicate 8 0) @ cmd_buffer_bytes pointer (cb\<lparr>cb_data := take (unat (cmds_length cb)) (cb_data cb)\<rparr>) @ tail"
  shows "ae_req_prev_log_index d = Inr (last_applied_index s)"
    and "ae_req_prev_log_term d = Inr (last_applied_term s)"
    and "cmd_buffer_at d ae_req_entries_header
      = Inr (cb\<lparr>cb_data := take (unat (cmds_length cb)) (cb_data cb) @ tail\<rparr>)"
  using assms by (simp_all add: d_def ae_req_prev_log_index_def ae_req_prev_log_term_def ae_req_entries_header_def
      cmd_buffer_at_def cmd_buffer_bytes_def sizeof_cmd_buffer_t_def rd_def)

lemma log_record_data:
  "log_record (cb\<lparr>cb_data := take (unat (cmds_length cb)) (cb_data cb) @ tail\<rparr>) = log_record cb"
  if "unat (cmds_length cb) \<le> length (cb_data cb)"
  using that by (simp add: log_record_def logfile_header_def)

text \<open>The message \<open>thread_3\<close> builds, as its receiver reads it.\<close>

lemma thread_3_message_parsed:
  fixes s :: "'sm server"
  assumes "sendable cb" "length junk = 120 + unat (cmds_length cb)" "length pointer = 8"
    and "thread_3_message junk pointer s cb = Inr msg" "unat (server_id s) < 5"
  obtains m tail where "wire_msg msg" "msg_of_bytes msg = Inr m" "msg_term m = cb_term cb" "sender_node_id m = server_id s"
    "rpc_type m = RAFT_RPC_APPEND_ENTRIES" "ae_req_prev_log_index (msg_data m) = Inr (last_applied_index s)"
    "ae_req_prev_log_term (msg_data m) = Inr (last_applied_term s)"
    "cmd_buffer_at (msg_data m) ae_req_entries_header
      = Inr (cb\<lparr>cb_data := take (unat (cmds_length cb)) (cb_data cb) @ tail\<rparr>)"
proof -
  let ?n = "unat (cmds_length cb)"
  have n: "?n \<le> length (cb_data cb)" "?n < 2 ^ 31" using assms(1) by (simp_all add: sendable_def cmdbuf_numbers)
  obtain tail where tail: "thread_3_message junk pointer s cb = Inr (msg_bytes [0, 0, 0, 0]
      \<lparr>body_length = body_size cb, msg_term = cb_term cb, sender_node_id = server_id s,
       rpc_type = RAFT_RPC_APPEND_ENTRIES,
       msg_data = (le_enc 8 (last_applied_index s) @ le_enc 8 (last_applied_term s) @ le_enc 8 (last_applied_index s + 1)
         @ replicate 8 0) @ cmd_buffer_bytes pointer (cb\<lparr>cb_data := take ?n (cb_data cb)\<rparr>) @ tail\<rparr>)"
    and lt: "length tail = 48"
    using thread_3_message_eq [OF assms(1-3)] .
  define m where "m = \<lparr>body_length = body_size cb, msg_term = cb_term cb, sender_node_id = server_id s,
       rpc_type = RAFT_RPC_APPEND_ENTRIES,
       msg_data = (le_enc 8 (last_applied_index s) @ le_enc 8 (last_applied_term s) @ le_enc 8 (last_applied_index s + 1)
         @ replicate 8 0) @ cmd_buffer_bytes pointer (cb\<lparr>cb_data := take ?n (cb_data cb)\<rparr>) @ tail\<rparr>"
  have msg: "msg = msg_bytes [0, 0, 0, 0] m" using tail assms(4) by (simp add: m_def)
  have fields: "msg_term m = cb_term cb" "sender_node_id m = server_id s" "rpc_type m = RAFT_RPC_APPEND_ENTRIES"
    by (simp_all add: m_def)
  have parsed: "msg_of_bytes msg = Inr m"
    using msg_bytes_roundtrip [of "[0, 0, 0, 0]" m "[]"] by (simp add: msg fields)
  have len: "length (msg_data m) = 120 + ?n" using lt n assms(3) by (simp add: m_def cmd_buffer_bytes_def)
  have "unat (body_size cb + 32) = 32 + (120 + ?n)"
    using n(2) by (subst unat_add_u64) (simp_all add: unat_body_size [OF assms(1)])
  then have wire: "wire_msg msg"
    unfolding msg using assms(5) by (intro wire_msg_bytes) (simp_all add: len, simp_all add: m_def word_less_nat_alt)
  show thesis
    by (rule that [OF wire parsed fields, of tail]) (simp_all only: m_def raft_msg_t.select_convs thread_3_message_read [OF assms(3) n(1)])
qed

text \<open>C10: replication of a batch. The message \<open>thread_3\<close> builds from a batch, put together
  by \<open>thread_2\<close> of a server that has applied nothing yet and is not in a later term, makes that
  server append to its log file exactly the bytes the leader appends to its own for this batch,
  queue the batch for its store thread and answer that the entry after the leader's last applied
  one is accepted.\<close>

theorem batch_is_replicated:
  assumes "sendable cb" "length junk = 120 + unat (cmds_length cb)" "length pointer = 8"
    and "thread_3_message junk pointer s cb = Inr msg"
    and "unat (server_id s) < 5" "node_fd f (server_id s) = Inr fd" "send_ok w fd"
    and "\<not> mutex_held (raft_state f)" "last_applied_term f = 0" "last_applied_index f = 0"
    and "current_term (raft_state f) \<le> cb_term cb"
    and "length (lf_contents (server_log f)) < 2 ^ 31" "full_writes (log_writes w) (unat (cmds_length cb))"
  shows "wire_msg msg \<and> (\<exists>f' data. handle_message w msg f = Inr f' \<and> current_term (raft_state f') = cb_term cb
      \<and> lf_contents (server_log f') = lf_contents (server_log f) @ log_record cb
      \<and> to_5 f' = to_5 f @ [cb\<lparr>cb_data := data\<rparr>]
      \<and> take (unat (cmds_length cb)) data = take (unat (cmds_length cb)) (cb_data cb)
      \<and> outbox f' = outbox f @ [(fd, append_response (adopt_term (cb_term cb) f)
           \<lparr>ar_success = True, ar_log_idx = last_applied_index s + 1, ar_term = last_applied_term s\<rparr>)])"
proof -
  let ?n = "unat (cmds_length cb)" and ?f = "adopt_term (cb_term cb) f"
  let ?r = "\<lparr>ar_success = True, ar_log_idx = last_applied_index s + 1, ar_term = last_applied_term s\<rparr>"
  have n: "?n \<le> length (cb_data cb)" "?n < 2 ^ 31" using assms(1) by (simp_all add: sendable_def cmdbuf_numbers)
  obtain m tail where wire: "wire_msg msg" and m: "msg_of_bytes msg = Inr m" "msg_term m = cb_term cb"
      "sender_node_id m = server_id s" "rpc_type m = RAFT_RPC_APPEND_ENTRIES"
    and body: "ae_req_prev_log_index (msg_data m) = Inr (last_applied_index s)"
      "ae_req_prev_log_term (msg_data m) = Inr (last_applied_term s)"
      "cmd_buffer_at (msg_data m) ae_req_entries_header = Inr (cb\<lparr>cb_data := take ?n (cb_data cb) @ tail\<rparr>)"
    by (rule thread_3_message_parsed [OF assms(1-5)])
  let ?cb = "cb\<lparr>cb_data := take ?n (cb_data cb) @ tail\<rparr>"
  have pre: "\<not> mutex_held (raft_state ?f)" "node_fd ?f (sender_node_id m) = Inr fd" "cmd_buffer_ok ?cb"
    "length (lf_contents (server_log ?f)) < 2 ^ 31" "full_writes (log_writes w) (unat (cmds_length ?cb))"
    using assms(6,8,12,13) n by (simp_all add: node_fd_def m(3) cmd_buffer_ok_def)
  have "append_answer ?f (last_applied_index s) (last_applied_term s) = ?r"
    using assms(9,10) by (simp add: append_answer_def)
  moreover have "handle_message w msg f = handle_append w ?f m"
    using assms(8,11) m by (simp add: handle_message_def handle_term_eq not_less [symmetric])
  ultimately have "handle_message w msg f = Inr (?f\<lparr>outbox := outbox f @ [(fd, append_response ?f ?r)],
      server_log := (server_log f)\<lparr>lf_contents := lf_contents (server_log f) @ log_record cb\<rparr>,
      to_5 := to_5 f @ [?cb]\<rparr>)"
    using handle_append_eq [OF pre(1) body pre(3,2) assms(7) pre(4,5)]
    by (simp add: Let_def log_record_data [OF n(1)])
  moreover have "current_term (raft_state ?f) = cb_term cb" using assms(11) by (simp add: max_def)
  ultimately show ?thesis
    using wire n(1) by (intro conjI exI [of _ "take ?n (cb_data cb) @ tail"]) auto
qed


section \<open>The quorum\<close>

definition matches_batch :: "cmd_buffer_t \<Rightarrow> msg_2_to_3_t \<Rightarrow> bool" where
  "matches_batch w a \<longleftrightarrow> m23_term a = cb_term w \<and> m23_log_index a = cb_log_index w"

text \<open>On answers that pass the assertions, the loop ends exactly when more than half of the nodes
  are reached by counting the leader and every matching answer, whoever sent it.\<close>

lemma await_quorum_iff:
  assumes "\<forall>a \<in> set as. m23_node_id a \<noteq> -1 \<and> m23_term a \<le> cb_term r" "cb_term r = cb_term w"
  shows "(\<exists>rest. await_quorum w r nodes ok as = Inr (Some rest))
    \<longleftrightarrow> nodes div 2 < ok + length (filter (matches_batch w) as)"
  using assms
proof (induction as arbitrary: ok)
  case Nil
  then show ?case by simp
next
  case (Cons a as)
  show ?case
  proof (cases "ok \<le> nodes div 2")
    case True
    then show ?thesis
      using Cons.IH [of ok] Cons.IH [of "ok + 1"] Cons.prems
      by (cases "m23_term a = cb_term w \<and> m23_log_index a = cb_log_index w") (auto simp: matches_batch_def)
  next
    case False
    then show ?thesis by simp
  qed
qed

lemma await_quorum_no_match:
  assumes "\<forall>a \<in> set as. \<not> matches_batch w a" "ok \<le> nodes div 2"
  shows "await_quorum w r nodes ok as \<noteq> Inr (Some rest)"
  using assms
proof (induction as)
  case Nil
  then show ?case by simp
next
  case (Cons a as)
  then have "await_quorum w r nodes ok as \<noteq> Inr (Some rest)" by simp
  then show ?case using Cons.prems by (auto simp: matches_batch_def bindr_def assert_c_def)
qed

lemma send_to_all_cluster:
  "send_to_all w msg is s = Inr s' \<Longrightarrow> cluster_state s' = cluster_state s"
  by (induction "is" arbitrary: s) (fastforce simp: Let_def)+

text \<open>C18: no batch is ever committed. An accepting answer repeats the term of the leader's last
  applied entry, which is 0 as long as the leader has applied nothing (and no code of \<open>main.c\<close>
  ever sets it); \<open>thread_3\<close> waits for answers that carry the term of the batch. In a cluster of
  at least two nodes, whatever accepting answers arrive, and however many, \<open>thread_3\<close> does not
  get past its quorum loop for a batch of term 1 or later.\<close>

theorem thread_3_no_quorum:
  assumes "last_applied_term s = 0" "cb_term (fst wr) \<noteq> 0" "1 < unat (num_nodes (cluster_state s))"
    and "\<forall>a \<in> set answers. \<exists>f :: 'sm server. m23_term a
           = ar_term (append_answer f (last_applied_index s) (last_applied_term s))
         \<and> ar_success (append_answer f (last_applied_index s) (last_applied_term s))"
  shows "thread_3_pass w junk pointer wr answers s \<noteq> Inr (Some out)"
proof
  assume "thread_3_pass w junk pointer wr answers s = Inr (Some out)"
  then have "\<exists>msg s1 rest. send_to_all w msg (other_nodes (cluster_state s)) s = Inr s1
      \<and> await_quorum (fst wr) (snd wr) (unat (num_nodes (cluster_state s1))) 1 answers = Inr (Some rest)"
    by (fastforce simp: thread_3_pass_def Let_def split: option.splits)
  then obtain msg s1 rest where s1: "send_to_all w msg (other_nodes (cluster_state s)) s = Inr s1"
    and q: "await_quorum (fst wr) (snd wr) (unat (num_nodes (cluster_state s1))) 1 answers = Inr (Some rest)"
    by blast
  have "m23_term a = 0" if "a \<in> set answers" for a
  proof -
    from assms(4) that obtain f :: "'sm server" where
      "m23_term a = ar_term (append_answer f (last_applied_index s) (last_applied_term s))"
      "ar_success (append_answer f (last_applied_index s) (last_applied_term s))" by blast
    then show ?thesis using assms(1) by (auto simp: append_answer_def Let_def split: if_splits)
  qed
  then have "\<forall>a \<in> set answers. \<not> matches_batch (fst wr) a"
    using assms(2) by (auto simp: matches_batch_def)
  moreover have "1 \<le> unat (num_nodes (cluster_state s1)) div 2"
    using assms(3) send_to_all_cluster [OF s1] by simp
  ultimately show False
    using await_quorum_no_match q by blast
qed

text \<open>The pause \<open>thread_6\<close> asks for is rejected by \<open>nanosleep\<close>: it spins.\<close>

lemma thread_6_does_not_sleep: "\<not> nanosleep_accepts thread_6_pass"
  by (simp add: thread_6_pass_def sleep_milisec_def nanosleep_accepts_def)

section \<open>Concrete runs\<close>

definition leader_server :: "nat server" where
  "leader_server = sample_server\<lparr>raft_state := sample_node\<lparr>rstate := RAFT_STATE_LEADER, current_term := 3\<rparr>,
     cluster_state := (cluster_state sample_server)\<lparr>self_id := 0, node_fds := [-1, 5, 6] @ replicate 253 (-1)\<rparr>\<rparr>"

lemma leader_server_sel [simp]:
  "rstate (raft_state leader_server) = RAFT_STATE_LEADER" "\<not> mutex_held (raft_state leader_server)"
  "current_term (raft_state leader_server) = 3" "last_applied_term leader_server = 0"
  "last_applied_index leader_server = 0" "num_nodes (cluster_state leader_server) = 3" "server_id leader_server = 0"
  by (simp_all add: leader_server_def sample_server_def server_id_def)

lemma sample_server_sel [simp]:
  "\<not> mutex_held (raft_state sample_server)" "current_term (raft_state sample_server) = 0"
  "last_applied_term sample_server = 0" "last_applied_index sample_server = 0"
  "server_log sample_server = \<lparr>lf_contents = []\<rparr>" "rstate (raft_state sample_server) = RAFT_STATE_FOLLOWER"
  by (simp_all add: sample_server_def)

text \<open>A leader that receives one set command and then nothing until the batch is due.\<close>

theorem thread_1_batches_witness:
  "\<exists>out. thread_1_pass 4096 (map turn [(3, Some sample_set, 5), (3, None, 200000)]) 3 leader_server = Inr out"
proof -
  have "turn_ok (3, Some sample_set, 5)" "turn_ok (3, None, 200000)"
    using sample_set_wf sample_set_length by (simp_all add: turn_ok_def max_kvs_cmd_size_def)
  then show ?thesis
    using thread_1_batches [of leader_server "[(3, Some sample_set, 5), (3, None, 200000)]" 4096 3]
    by (simp del: split_paired_Ex) blast
qed

lemma sample_buffer_sendable: "sendable sample_buffer"
  by (simp add: sendable_def sample_buffer_def cmdbuf_numbers)

theorem batch_is_replicated_witness:
  "\<exists>msg f'. thread_3_message (replicate 128 0) (replicate 8 0) leader_server sample_buffer = Inr msg
    \<and> handle_message all_well msg sample_server = Inr f'
    \<and> lf_contents (server_log f') = log_record sample_buffer"
proof -
  have n: "unat (cmds_length sample_buffer) = 8" "cb_term sample_buffer = 3" by (simp_all add: sample_buffer_def)
  obtain msg where msg: "thread_3_message (replicate 128 0) (replicate 8 0) leader_server sample_buffer = Inr msg"
    using thread_3_message_eq [OF sample_buffer_sendable, of "replicate 128 0" "replicate 8 0" leader_server] n by auto
  have fd: "node_fd sample_server (server_id leader_server) = Inr 5" "send_ok all_well 5"
    "full_writes (log_writes all_well) (unat (cmds_length sample_buffer))"
    using sample_full_writes by (simp_all add: node_fd_def sample_server_def all_well_def)
  show ?thesis
    using batch_is_replicated [OF sample_buffer_sendable _ _ msg _ fd(1,2) _ _ _ _ _ fd(3)] msg n by auto
qed

theorem thread_3_no_quorum_witness:
  "\<forall>out. thread_3_pass all_well (replicate 128 0) (replicate 8 0) (sample_buffer, sample_buffer)
     (replicate 100 \<lparr>m23_term = 0, m23_log_index = 1, m23_node_id = 1\<rparr>) leader_server \<noteq> Inr (Some out)"
proof (rule allI, rule thread_3_no_quorum)
  show "\<forall>a \<in> set (replicate 100 \<lparr>m23_term = 0, m23_log_index = 1, m23_node_id = 1\<rparr>). \<exists>f :: nat server.
      m23_term a = ar_term (append_answer f (last_applied_index leader_server) (last_applied_term leader_server))
    \<and> ar_success (append_answer f (last_applied_index leader_server) (last_applied_term leader_server))"
    by (auto intro!: exI [of _ sample_server] simp: append_answer_def)
qed (simp_all add: sample_buffer_def)

end
