(* ===== verification/Server_Store.thy ===== *)
theory Server_Store
  imports Server_Leader Raft_Apply "HOL-Library.While_Combinator"
begin

text \<open>
  The store side of the server: the responses to clients (\<open>src/client_ops.c\<close>), the threads
  that write to the key-value store (\<open>thread_5\<close>, \<open>thread_5_new\<close>) and those that read from it
  (\<open>thread_4_old\<close>, \<open>thread_4\<close>). A response prepared for io_uring refers to the message
  header, a local object of \<open>resp_to_client_uring\<close>, which is out of scope when the call has
  returned.
\<close>

section \<open>Responses to clients\<close>

record client_resp_t =
  cr_body_length :: u64
  cr_op_type :: kvs_op_t
  cr_status_code :: u16
  cr_data :: bytes

definition sizeof_client_resp_t :: nat where "sizeof_client_resp_t = 16"

definition client_resp_bytes :: "client_resp_t \<Rightarrow> bytes" where
  "client_resp_bytes r =
     le_enc 8 (cr_body_length r) @ le_enc 4 (kvs_op_code (cr_op_type r)) @ le_enc 2 (cr_status_code r)
     @ [0, 0] @ cr_data r"

definition check_response :: "int \<Rightarrow> client_resp_t \<Rightarrow> unit res" where
  "check_response fd msg =
     bindr (assert_c (200 \<le> cr_status_code msg \<and> cr_status_code msg \<le> 599)) (\<lambda>_.
     bindr (assert_c (0 < fd)) (\<lambda>_.
       assert_c (cr_op_type msg = CMD_GET \<or> cr_op_type msg = CMD_SET \<or> cr_op_type msg = CMD_DELETE)))"

text \<open>\<open>resp_to_client\<close>: the datagram sent, with its address; \<open>ok\<close> tells whether \<open>sendto\<close>
  returned a positive number.\<close>

definition resp_to_client :: "bool \<Rightarrow> int \<Rightarrow> bytes \<Rightarrow> client_resp_t \<Rightarrow> (bytes \<times> bytes) res" where
  "resp_to_client ok fd addr msg =
     bindr (check_response fd msg) (\<lambda>_.
       let msg_len = sizeof_client_resp_t + unat (cr_body_length msg) in
       bindr (rd_bytes (client_resp_bytes msg) 0 msg_len) (\<lambda>bs.
         if \<not> ok then Inl Exit_called else Inr (addr, bs)))"

text \<open>Local objects whose address is taken: the responses of the threads, and the message
  header and the vector of \<open>resp_to_client_uring\<close>. The address of an object is its place in
  the list of all objects declared so far; it is \<open>None\<close> once its scope was left.\<close>

record msghdr =
  msg_name :: bytes
  msg_namelen :: nat
  msg_iov :: nat
  msg_iovlen :: nat

record iovec =
  iov_base :: nat
  iov_len :: u64

datatype local_object = Msghdr msghdr | Iovec iovec | Response client_resp_t

type_synonym local_objects = "local_object option list"

definition declare_local :: "local_object \<Rightarrow> local_objects \<Rightarrow> nat \<times> local_objects" where
  "declare_local x stk = (length stk, stk @ [Some x])"

text \<open>The end of the scope in which the objects from address \<open>a\<close> on were declared.\<close>

definition leave_scope :: "nat \<Rightarrow> local_objects \<Rightarrow> local_objects" where
  "leave_scope a stk = take a stk @ map (\<lambda>_. None) (drop a stk)"

definition local_load :: "local_objects \<Rightarrow> nat \<Rightarrow> local_object res" where
  "local_load stk a =
     (if a < length stk then (case stk ! a of None \<Rightarrow> Inl Use_after_free | Some x \<Rightarrow> Inr x) else Inl Out_of_bounds)"

text \<open>\<open>resp_to_client_uring\<close>: \<open>msg\<close> is a pointer to a response, its address and what it
  points to. The entry refers to the message header by its address; the call leaves its scope
  when it returns.\<close>

record io_sqe =
  sq_fd :: int
  sq_msg :: nat

definition resp_to_client_uring ::
  "int \<Rightarrow> bytes \<Rightarrow> nat \<times> client_resp_t \<Rightarrow> local_objects \<Rightarrow> (io_sqe \<times> local_objects) res" where
  "resp_to_client_uring fd addr msg stk =
     bindr (check_response fd (snd msg)) (\<lambda>_.
       let msg_len = of_nat sizeof_client_resp_t + cr_body_length (snd msg);
           (ms_addr, stk1) = declare_local (Msghdr \<lparr>msg_name = [], msg_namelen = 0, msg_iov = 0, msg_iovlen = 0\<rparr>) stk;
           (iov, stk2) = declare_local (Iovec \<lparr>iov_base = fst msg, iov_len = msg_len\<rparr>) stk1;
           stk3 = stk2[ms_addr := Some (Msghdr \<lparr>msg_name = addr, msg_namelen = 16, msg_iov = iov, msg_iovlen = 1\<rparr>)];
           sqe = \<lparr>sq_fd = fd, sq_msg = ms_addr\<rparr>
       in Inr (sqe, leave_scope ms_addr stk3))"

text \<open>\<open>io_uring_submit\<close> of the library liburing is a parameter, which is given the local
  objects and the entries; what it is documented to do is to read the header of each entry.\<close>

type_synonym uring_submit = "local_objects \<Rightarrow> io_sqe list \<Rightarrow> nat res"

definition reads_headers :: "uring_submit \<Rightarrow> bool" where
  "reads_headers submit \<longleftrightarrow>
     (\<forall>stk sqes. (\<exists>e \<in> set sqes. local_load stk (sq_msg e) = Inl Use_after_free) \<longrightarrow> submit stk sqes = Inl Use_after_free)"

text \<open>The entry and the objects after a call that returns.\<close>

definition prepared :: "int \<Rightarrow> local_objects \<Rightarrow> io_sqe" where
  "prepared fd stk = \<lparr>sq_fd = fd, sq_msg = length stk\<rparr>"

lemma resp_to_client_uring_eq:
  assumes "check_response fd (snd msg) = Inr ()"
  shows "resp_to_client_uring fd addr msg stk = Inr (prepared fd stk, stk @ [None, None])"
  using assms by (simp add: resp_to_client_uring_def declare_local_def leave_scope_def prepared_def Let_def)

lemma prepared_dead: "local_load (stk @ [None, None]) (sq_msg (prepared fd stk)) = Inl Use_after_free"
  by (simp add: local_load_def prepared_def)

definition IOU_QUEUE_LEN :: nat where "IOU_QUEUE_LEN = 1024"

section \<open>Writing\<close>

text \<open>One command of \<open>thread_5\<close> on the store: its type and the store afterwards. The value is
  also copied into a local array of 128 characters.\<close>

definition store_write ::
  "'db rput \<Rightarrow> 'db rdelete \<Rightarrow> u64 \<Rightarrow> bytes \<Rightarrow> nat \<Rightarrow> 'db kv_store_t \<Rightarrow> (kvs_op_t \<times> 'db kv_store_t) res" where
  "store_write rput rdelete base bs off s =
     bindr (kvs_command_get_key base bs off) (\<lambda>keyp.
     bindr (kvs_type bs off) (\<lambda>type.
       if type = CMD_DELETE
       then bindr (c_str bs keyp) (\<lambda>key.
            bindr (kv_store_delete rdelete (Some s) (Some key)) (\<lambda>(_, s'). Inr (type, s')))
       else if type = CMD_SET
       then bindr (kvs_command_get_value base bs off) (\<lambda>p.
            bindr (kvs_value_length bs off) (\<lambda>vlen.
            bindr (rd_bytes bs p (unat vlen)) (\<lambda>v.
            bindr (memcpy_into (replicate 128 0) 0 v) (\<lambda>_.
            bindr (c_str bs keyp) (\<lambda>key.
            bindr (kv_store_set rput (Some s) (Some key) (Some (drop p bs)) (unat vlen)) (\<lambda>(_, s').
              Inr (type, s')))))))
       else Inl Exit_called))"

definition write_response :: "kvs_op_t \<Rightarrow> client_resp_t" where
  "write_response type = \<lparr>cr_body_length = 0, cr_op_type = type, cr_status_code = 200, cr_data = []\<rparr>"

text \<open>The assertions on a command of length field \<open>vlen\<close> with \<open>left\<close> bytes to go.\<close>

definition check_write :: "bytes \<Rightarrow> nat \<Rightarrow> nat \<Rightarrow> unit res" where
  "check_write bs off left =
     bindr (kvs_value_length bs off) (\<lambda>vlen.
     bindr (assert_c (ucast vlen < MAX_VAL_LEN)) (\<lambda>_.
     bindr (assert_c (ucast vlen < CMDBUF_SIZE)) (\<lambda>_.
       assert_c (sizeof_kvs_command_t \<le> left))))"

text \<open>The loop of \<open>thread_5\<close>; \<open>st off\<close> is the state of the node read after the command at
  \<open>off\<close>, \<open>out\<close> the responses so far. Every command is at least 32 bytes long, so the loop
  ends.\<close>

function thread_5_loop ::
  "'db rput \<Rightarrow> 'db rdelete \<Rightarrow> (int \<Rightarrow> bool) \<Rightarrow> (nat \<Rightarrow> raft_state_t) \<Rightarrow> int \<Rightarrow> u64 \<Rightarrow> bytes \<Rightarrow> nat \<Rightarrow> nat
    \<Rightarrow> 'db kv_store_t \<Rightarrow> (bytes \<times> bytes) list \<Rightarrow> (nat \<times> 'db kv_store_t \<times> (bytes \<times> bytes) list) res" where
  "thread_5_loop rput rdelete sok st fd base bs len off s out =
     (if \<not> off < len then Inr (off, s, out)
      else
        bindr (check_write bs off (len - off)) (\<lambda>_.
        bindr (kvs_command_len base bs off) (\<lambda>cmd_len.
        bindr (store_write rput rdelete base bs off s) (\<lambda>(type, s').
        bindr (if st off = RAFT_STATE_LEADER
               then bindr (kvs_return_addr bs off) (\<lambda>addr.
                    bindr (resp_to_client (sok fd) fd addr (write_response type)) (\<lambda>m. Inr (out @ [m])))
               else Inr out) (\<lambda>out'.
          thread_5_loop rput rdelete sok st fd base bs len (off + unat cmd_len) s' out')))))"
  by pat_completeness auto

termination
  by (relation "measure (\<lambda>(_, _, _, _, _, _, _, len, off, _, _). len - off)")
    (auto dest: kvs_command_len_pos)

declare thread_5_loop.simps [simp del]

text \<open>\<open>thread_5\<close> on one command buffer: the store and the responses sent.\<close>

definition thread_5_pass ::
  "'db rput \<Rightarrow> 'db rdelete \<Rightarrow> (int \<Rightarrow> bool) \<Rightarrow> (nat \<Rightarrow> raft_state_t) \<Rightarrow> int \<Rightarrow> u64 \<Rightarrow> cmd_buffer_t
    \<Rightarrow> 'db kv_store_t \<Rightarrow> ('db kv_store_t \<times> (bytes \<times> bytes) list) res" where
  "thread_5_pass rput rdelete sok st fd base cb s =
     bindr (assert_c (cmds_length cb \<le> CMDBUF_SIZE)) (\<lambda>_.
     bindr (thread_5_loop rput rdelete sok st fd base (cb_data cb) (unat (cmds_length cb)) 0 s []) (\<lambda>(off, s', out).
     bindr (assert_c (off = unat (cmds_length cb))) (\<lambda>_. Inr (s', out))))"

text \<open>\<open>thread_5_new\<close>: the responses go through io_uring. The test for the end of the batch is
  made before the length of the command is added. The responses are elements of an array that
  lives as long as the pass.\<close>

function thread_5_new_loop ::
  "uring_submit \<Rightarrow> 'db rput \<Rightarrow> 'db rdelete \<Rightarrow> (nat \<Rightarrow> raft_state_t) \<Rightarrow> int \<Rightarrow> u64 \<Rightarrow> bytes \<Rightarrow> nat \<Rightarrow> nat
    \<Rightarrow> 'db kv_store_t \<Rightarrow> local_objects \<Rightarrow> io_sqe list \<Rightarrow> nat \<Rightarrow> ('db kv_store_t \<times> io_sqe list \<times> nat) res" where
  "thread_5_new_loop submit rput rdelete st fd base bs len off s stk sqes submitted =
     (if \<not> off < len then Inr (s, sqes, submitted)
      else
        bindr (check_write bs off (len - off)) (\<lambda>_.
        bindr (kvs_command_len base bs off) (\<lambda>cmd_len.
        bindr (store_write rput rdelete base bs off s) (\<lambda>(type, s').
        bindr (if st off = RAFT_STATE_LEADER
               then
                 bindr (assert_c (length sqes < IOU_QUEUE_LEN)) (\<lambda>_.
                 bindr (kvs_return_addr bs off) (\<lambda>addr.
                 let (cr, stk1) = declare_local (Response (write_response type)) stk
                 in bindr (resp_to_client_uring fd addr (cr, write_response type) stk1) (\<lambda>(e, stk2).
                   let sqes' = sqes @ [e]
                   in if length sqes' = IOU_QUEUE_LEN \<or> off = len
                      then bindr (submit stk2 sqes') (\<lambda>k. Inr (stk2, [], submitted + k))
                      else Inr (stk2, sqes', submitted))))
               else Inr (stk, sqes, submitted)) (\<lambda>(stk', sqes', submitted').
          thread_5_new_loop submit rput rdelete st fd base bs len (off + unat cmd_len) s' stk' sqes' submitted')))))"
  by pat_completeness auto

termination
  by (relation "measure (\<lambda>(_, _, _, _, _, _, _, len, off, _, _, _, _). len - off)")
    (auto dest: kvs_command_len_pos)

declare thread_5_new_loop.simps [simp del]


section \<open>Reading\<close>

text \<open>The answer to a read, built in an array of 4096 bytes; the value goes through a local array
  of 128 characters.\<close>

definition read_answer :: "'db rget \<Rightarrow> u64 \<Rightarrow> bytes \<Rightarrow> nat \<Rightarrow> 'db kv_store_t \<Rightarrow> client_resp_t res" where
  "read_answer rget base bs off s =
     bindr (assert_c (off mod 8 = 0)) (\<lambda>_.
     bindr (kvs_value_length bs off) (\<lambda>vlen :: u32.
     bindr (assert_c (unat vlen + sizeof_client_resp_t \<le> 4096)) (\<lambda>_.
     bindr (kvs_command_get_key base bs off) (\<lambda>keyp.
     bindr (c_str bs keyp) (\<lambda>key.
     bindr (kv_store_get rget (Some s) (Some key)) (\<lambda>(data, value_length).
     bindr (assert_c (value_length < 4294967295)) (\<lambda>_.
       case data of
         None \<Rightarrow> Inr \<lparr>cr_body_length = 0, cr_op_type = CMD_GET, cr_status_code = 201,
                      cr_data = replicate (4096 - sizeof_client_resp_t) 0\<rparr>
       | Some v \<Rightarrow>
           bindr (memcpy_into (replicate 128 0) 0 v) (\<lambda>_.
           bindr (memcpy_into (replicate (4096 - sizeof_client_resp_t) 0) 0 v) (\<lambda>d.
             Inr \<lparr>cr_body_length = of_int value_length, cr_op_type = CMD_GET, cr_status_code = 200,
                  cr_data = d\<rparr>)))))))))"

function thread_4_old_loop ::
  "'db rget \<Rightarrow> (int \<Rightarrow> bool) \<Rightarrow> int \<Rightarrow> u64 \<Rightarrow> bytes \<Rightarrow> nat \<Rightarrow> nat \<Rightarrow> 'db kv_store_t \<Rightarrow> (bytes \<times> bytes) list
    \<Rightarrow> (bytes \<times> bytes) list res" where
  "thread_4_old_loop rget sok fd base bs len off s out =
     (if \<not> off < len then Inr out
      else
        bindr (kvs_command_len base bs off) (\<lambda>cmd_len.
        bindr (read_answer rget base bs off s) (\<lambda>r.
        bindr (kvs_return_addr bs off) (\<lambda>addr.
        bindr (resp_to_client (sok fd) fd addr r) (\<lambda>m.
          thread_4_old_loop rget sok fd base bs len (off + unat cmd_len) s (out @ [m]))))))"
  by pat_completeness auto

termination
  by (relation "measure (\<lambda>(_, _, _, _, _, len, off, _, _). len - off)")
    (auto dest: kvs_command_len_pos)

declare thread_4_old_loop.simps [simp del]

definition thread_4_old_pass ::
  "'db rget \<Rightarrow> (int \<Rightarrow> bool) \<Rightarrow> int \<Rightarrow> u64 \<Rightarrow> cmd_buffer_t \<Rightarrow> 'db kv_store_t \<Rightarrow> (bytes \<times> bytes) list res" where
  "thread_4_old_pass rget sok fd base cb s =
     thread_4_old_loop rget sok fd base (cb_data cb) (unat (cmds_length cb)) 0 s []"

text \<open>\<open>thread_4\<close>: the same reads, with the responses prepared for io_uring and submitted when
  the ring is full or the batch is done. The response is built in a local array of the loop
  body, whose scope ends with each turn. The result is the number of responses submitted.\<close>

function thread_4_loop ::
  "uring_submit \<Rightarrow> 'db rget \<Rightarrow> int \<Rightarrow> u64 \<Rightarrow> bytes \<Rightarrow> nat \<Rightarrow> nat \<Rightarrow> 'db kv_store_t \<Rightarrow> local_objects \<Rightarrow> io_sqe list
    \<Rightarrow> nat \<Rightarrow> nat res" where
  "thread_4_loop submit rget fd base bs len off s stk sqes submitted =
     (if \<not> off < len then Inr submitted
      else
        bindr (assert_c (length sqes < IOU_QUEUE_LEN)) (\<lambda>_.
        bindr (kvs_command_len base bs off) (\<lambda>cmd_len.
        bindr (read_answer rget base bs off s) (\<lambda>r.
        bindr (kvs_return_addr bs off) (\<lambda>addr.
        let (cr, stk1) = declare_local (Response r) stk
        in bindr (resp_to_client_uring fd addr (cr, r) stk1) (\<lambda>(e, stk2).
          let sqes' = sqes @ [e]; off' = off + unat cmd_len in
          if length sqes' = IOU_QUEUE_LEN \<or> off' = len
          then bindr (submit stk2 sqes') (\<lambda>k.
               thread_4_loop submit rget fd base bs len off' s (leave_scope cr stk2) [] (submitted + k))
          else thread_4_loop submit rget fd base bs len off' s (leave_scope cr stk2) sqes' submitted))))))"
  by pat_completeness auto

termination
  by (relation "measure (\<lambda>(_, _, _, _, _, len, off, _, _, _, _). len - off)")
    (auto dest: kvs_command_len_pos)

declare thread_4_loop.simps [simp del]

definition thread_4_pass :: "uring_submit \<Rightarrow> 'db rget \<Rightarrow> int \<Rightarrow> u64 \<Rightarrow> cmd_buffer_t \<Rightarrow> 'db kv_store_t \<Rightarrow> nat res" where
  "thread_4_pass submit rget fd base cb s =
     thread_4_loop submit rget fd base (cb_data cb) (unat (cmds_length cb)) 0 s [] [] 0"

section \<open>The walk ends\<close>

text \<open>The loops above walk from command to command, by the lengths they find in the bytes. This is
  that walk alone, as the \<open>while\<close> loop it is in the code: the offset, or the error that stops it;
  \<open>None\<close> would be a walk that never ends.\<close>

definition walk_on :: "nat \<Rightarrow> nat res \<Rightarrow> bool" where
  "walk_on len r = (case r of Inl _ \<Rightarrow> False | Inr off \<Rightarrow> off < len)"

definition walk_next :: "u64 \<Rightarrow> bytes \<Rightarrow> nat res \<Rightarrow> nat res" where
  "walk_next base bs r =
     bindr r (\<lambda>off. bindr (kvs_command_len base bs off) (\<lambda>cmd_len. Inr (off + unat cmd_len)))"

definition command_walk :: "u64 \<Rightarrow> bytes \<Rightarrow> nat \<Rightarrow> nat \<Rightarrow> nat res option" where
  "command_walk base bs len off = while_option (walk_on len) (walk_next base bs) (Inr off)"

text \<open>C29: the loops of \<open>thread_4\<close> and \<open>thread_5\<close> end on every buffer, whatever bytes a
  client or another node has put there: the walk stops with an error, or at an offset at or behind
  the end, having begun its last command before the end.\<close>

theorem command_walk_terminates:
  "\<exists>r. command_walk base bs len off = Some r \<and> \<not> walk_on len r
    \<and> (r = Inr off \<or> (\<exists>last < len. r = walk_next base bs (Inr last)))"
proof -
  let ?P = "\<lambda>r. r = Inr off \<or> (\<exists>last < len. r = walk_next base bs (Inr last))"
  let ?f = "\<lambda>r :: nat res. case r of Inl _ \<Rightarrow> 0 | Inr n \<Rightarrow> Suc (len - n)"
  have step: "?P (walk_next base bs r) \<and> ?f (walk_next base bs r) < ?f r" if on: "walk_on len r" for r
  proof -
    obtain n where r: "r = Inr n" "n < len" using on by (cases r) (auto simp: walk_on_def)
    then have "?f (walk_next base bs r) < ?f r"
      by (cases "kvs_command_len base bs n") (auto simp: walk_next_def dest: kvs_command_len_pos)
    with r show ?thesis by blast
  qed
  have "\<exists>r. command_walk base bs len off = Some r"
    unfolding command_walk_def by (rule measure_while_option_Some [where P = "\<lambda>_. True" and f = ?f]) (simp_all add: step)
  then obtain r where r: "while_option (walk_on len) (walk_next base bs) (Inr off) = Some r"
    by (auto simp: command_walk_def)
  moreover have "?P r" by (rule while_option_rule [where P = ?P, OF _ r]) (simp_all add: step)
  ultimately show ?thesis using while_option_stop [OF r] by (auto simp: command_walk_def)
qed

text \<open>\<open>thread_5\<close> stops where the walk stops.\<close>

lemma thread_5_loop_walks:
  "thread_5_loop rput rdelete sok st fd base bs len off s out = Inr (n, s', out')
    \<Longrightarrow> command_walk base bs len off = Some (Inr n)"
proof (induction "len - off" arbitrary: off s out rule: less_induct)
  case less
  show ?case
  proof (cases "off < len")
    case True
    with less.prems obtain k s1 out1 where k: "kvs_command_len base bs off = Inr k"
      and run: "thread_5_loop rput rdelete sok st fd base bs len (off + unat k) s1 out1 = Inr (n, s', out')"
      unfolding thread_5_loop.simps [of rput rdelete sok st fd base bs len off s out]
      by (auto split: prod.splits if_splits)
    then have "0 < unat k" by (auto dest: kvs_command_len_pos)
    with True have "len - (off + unat k) < len - off" by simp
    from less.hyps [OF this run] True k show ?thesis
      unfolding command_walk_def by (subst while_option_unfold) (simp add: walk_on_def walk_next_def)
  next
    case False
    with less.prems show ?thesis
      unfolding command_walk_def
      by (subst (asm) thread_5_loop.simps) (subst while_option_unfold, simp add: walk_on_def)
  qed
qed

section \<open>Walking a command buffer\<close>

text \<open>The bytes of a buffer that begin with encoded commands.\<close>

definition starts_with :: "u64 \<Rightarrow> bytes \<Rightarrow> kvs_cmd list \<Rightarrow> bool" where
  "starts_with base bs cs \<longleftrightarrow> take (length (kvs_batch cs)) bs = kvs_batch cs \<and> (\<forall>c \<in> set cs. kvs_wf c)
     \<and> unat base mod 8 = 0 \<and> unat base + length bs < 2 ^ 64"

lemma starts_with_at:
  assumes "starts_with base bs (ds @ c # es)"
  shows "kvs_at base bs (length (kvs_batch ds)) c"
    and "length (kvs_batch ds) < length (kvs_batch (ds @ c # es))"
    and "length (kvs_batch ds) + unat (of_nat (length (kvs_encode c)) :: u64) = length (kvs_batch (ds @ [c]))"
    and "sizeof_kvs_command_t \<le> length (kvs_batch (ds @ c # es)) - length (kvs_batch ds)"
proof -
  have wf: "kvs_wf c" using assms by (simp add: starts_with_def)
  obtain post where bs: "bs = kvs_batch (ds @ c # es) @ post"
    using assms by (metis append_take_drop_id starts_with_def)
  then have "bs = take (length (kvs_batch ds)) bs @ kvs_encode c @ (kvs_batch es @ post)"
    and "length (kvs_batch ds) \<le> length bs" by simp_all
  then show "kvs_at base bs (length (kvs_batch ds)) c"
    using assms wf unfolding kvs_at_def starts_with_def by (simp only: kvs_batch_mod_8) blast
  have "length (kvs_encode c) < 2 ^ 64"
    using assms bs by (simp add: starts_with_def)
  then show "length (kvs_batch ds) + unat (of_nat (length (kvs_encode c)) :: u64) = length (kvs_batch (ds @ [c]))"
    by (simp add: unat_of_nat_u64)
  show "length (kvs_batch ds) < length (kvs_batch (ds @ c # es))" using kvs_batch_lt [OF wf] .
  show "sizeof_kvs_command_t \<le> length (kvs_batch (ds @ c # es)) - length (kvs_batch ds)"
    using kvs_encode_min [OF wf] by (simp add: sizeof_kvs_command_t_def)
qed

section \<open>A store that reports no errors\<close>

locale reliable_rocksdb = rocksdb_store +
  assumes put_reliable: "\<not> fst (rput d (Some w) k v)"
    and delete_reliable: "\<not> fst (rdelete d (Some w) k)"
    and get_reliable: "\<not> snd (rget d (Some r) k)"

interpretation map_store_reliable: reliable_rocksdb map_get map_put map_delete "\<lambda>d. d"
  by unfold_locales (simp_all add: map_get_def map_put_def map_delete_def)

text \<open>What the commands mean: a map from keys to values.\<close>

fun map_step :: "(bytes \<rightharpoonup> bytes) \<Rightarrow> kvs_cmd \<Rightarrow> (bytes \<rightharpoonup> bytes)" where
  "map_step m c =
     (if kc_op c = CMD_SET then m(kc_key c \<mapsto> kc_value c)
      else if kc_op c = CMD_DELETE then m(kc_key c := None) else m)"

declare map_step.simps [simp del]

definition write_ok :: "kvs_cmd \<Rightarrow> bool" where
  "write_ok c \<longleftrightarrow> kc_op c \<in> {CMD_SET, CMD_DELETE} \<and> length (kc_value c) \<le> 128"

definition write_reply :: "kvs_cmd \<Rightarrow> bytes \<times> bytes" where
  "write_reply c = (kc_addr c, client_resp_bytes (write_response (kc_op c)))"

lemma resp_write:
  assumes "kc_op c \<in> {CMD_SET, CMD_DELETE}" "0 < fd"
  shows "resp_to_client True fd (kc_addr c) (write_response (kc_op c)) = Inr (write_reply c)"
  using assms by (auto simp: resp_to_client_def check_response_def write_response_def write_reply_def Let_def
      rd_bytes_def client_resp_bytes_def sizeof_client_resp_t_def)

lemma resp_write_uring:
  assumes "kc_op c \<in> {CMD_SET, CMD_DELETE}" "0 < fd"
  shows "resp_to_client_uring fd addr (cr, write_response (kc_op c)) stk = Inr (prepared fd stk, stk @ [None, None])"
  using assms by (intro resp_to_client_uring_eq) (auto simp: check_response_def write_response_def)

lemma check_write_ok:
  assumes "kvs_at base bs off c" "write_ok c" "sizeof_kvs_command_t \<le> left"
  shows "check_write bs off left = Inr ()"
proof -
  have v: "length (kc_value c) \<le> 128" using assms(2) by (simp add: write_ok_def)
  then have "unat (ucast (of_nat (length (kc_value c)) :: u32) :: u64) = length (kc_value c)"
    by (simp only: unat_ucast_u32) (simp add: unat_of_nat_u32)
  with v have "(ucast (of_nat (length (kc_value c)) :: u32) :: u64) < MAX_VAL_LEN"
    "(ucast (of_nat (length (kc_value c)) :: u32) :: u64) < CMDBUF_SIZE"
    by (simp_all add: word_less_nat_alt MAX_VAL_LEN_def CMDBUF_SIZE_def)
  with assms(3) show ?thesis
    using kvs_at_fields(2) [OF assms(1)] by (simp add: check_write_def)
qed

context reliable_rocksdb
begin

lemma store_write_step:
  assumes "kvs_at base bs off c" "write_ok c" "kv_ready s"
  shows "\<exists>s'. store_write rput rdelete base bs off s = Inr (kc_op c, s') \<and> kv_ready s'
    \<and> kv_content content s' = map_step (kv_content content s) c"
proof -
  from assms(3) obtain d o' w r where s: "kv_db s = Some d" "kv_options s = Some o'" "kv_write_options s = Some w"
    "kv_read_options s = Some r"
    by (auto simp: kv_ready_def)
  from kvs_at_key [OF assms(1)] obtain kp where k: "kvs_command_get_key base bs off = Inr kp" "c_str bs kp = Inr (kc_key c)"
    by auto
  have t: "kvs_type bs off = Inr (kc_op c)" by (rule kvs_at_fields(4) [OF assms(1)])
  consider (set) "kc_op c = CMD_SET" | (delete) "kc_op c = CMD_DELETE"
    using assms(2) by (auto simp: write_ok_def)
  then show ?thesis
  proof cases
    case set
    let ?n = "length (kc_value c)"
    have n: "?n \<le> 128" using assms(2) by (simp add: write_ok_def)
    then have un: "unat (of_nat ?n :: u32) = ?n" by (simp add: unat_of_nat_u32)
    from kvs_at_value [OF assms(1)] obtain p where p: "kvs_command_get_value base bs off = Inr p"
      "rd_bytes bs p ?n = Inr (kc_value c)"
      by auto
    then have v: "rd_bytes (drop p bs) 0 ?n = Inr (kc_value c)" by (auto simp: rd_bytes_def split: if_splits)
    obtain d' where put: "rput d (Some w) (kc_key c) (kc_value c) = (False, d')"
      using put_reliable [of d w "kc_key c" "kc_value c"] by (cases "rput d (Some w) (kc_key c) (kc_value c)") auto
    have "content d' = (content d)(kc_key c \<mapsto> kc_value c)"
      using put_ok [of d w "kc_key c" "kc_value c"] put by simp
    moreover have "memcpy_into (replicate 128 0) 0 (kc_value c) \<noteq> Inl Out_of_bounds"
      using n by (simp add: memcpy_into_def)
    then obtain string where "memcpy_into (replicate 128 0) 0 (kc_value c) = Inr string"
      by (auto simp: memcpy_into_def split: if_splits)
    ultimately show ?thesis
      using set k t p v un put s kvs_at_fields(2) [OF assms(1)]
      by (simp add: store_write_def kv_store_set_def kv_ready_def kv_content_def map_step.simps)
  next
    case delete
    obtain d' where del: "rdelete d (Some w) (kc_key c) = (False, d')"
      using delete_reliable [of d w "kc_key c"] by (cases "rdelete d (Some w) (kc_key c)") auto
    have "content d' = (content d)(kc_key c := None)"
      using delete_ok [of d w "kc_key c"] del by simp
    then show ?thesis
      using delete k t del s
      by (simp add: store_write_def kv_store_delete_def kv_ready_def kv_content_def map_step.simps)
  qed
qed

lemma thread_5_loop_batch:
  assumes "starts_with base bs (ds @ cs)" "\<forall>c \<in> set cs. write_ok c" "kv_ready s" "0 < fd" "sok fd"
  shows "\<exists>s'. thread_5_loop rput rdelete sok (\<lambda>_. st) fd base bs (length (kvs_batch (ds @ cs))) (length (kvs_batch ds)) s out
      = Inr (length (kvs_batch (ds @ cs)), s', out @ (if st = RAFT_STATE_LEADER then map write_reply cs else []))
    \<and> kv_ready s' \<and> kv_content content s' = foldl map_step (kv_content content s) cs"
  using assms
proof (induction cs arbitrary: ds s out)
  case Nil
  then show ?case by (simp add: thread_5_loop.simps)
next
  case (Cons c cs)
  note at = starts_with_at [OF Cons.prems(1)]
  let ?L = "length (kvs_batch (ds @ c # cs))" and ?off = "length (kvs_batch ds)"
  let ?out = "if st = RAFT_STATE_LEADER then out @ [write_reply c] else out"
  have c: "write_ok c" using Cons.prems(2) by simp
  obtain s1 where s1: "store_write rput rdelete base bs ?off s = Inr (kc_op c, s1)" "kv_ready s1"
    "kv_content content s1 = map_step (kv_content content s) c"
    using store_write_step [OF at(1) c Cons.prems(3)] by blast
  have reply: "resp_to_client True fd (kc_addr c) (write_response (kc_op c)) = Inr (write_reply c)"
    using c Cons.prems(4) by (intro resp_write) (simp_all add: write_ok_def)
  have step: "thread_5_loop rput rdelete sok (\<lambda>_. st) fd base bs ?L ?off s out
    = thread_5_loop rput rdelete sok (\<lambda>_. st) fd base bs ?L (length (kvs_batch (ds @ [c]))) s1 ?out"
    using at(2) s1(1) reply Cons.prems(5) check_write_ok [OF at(1) c at(4)] kvs_at_command_len [OF at(1)]
      kvs_at_fields(3) [OF at(1)]
    by (subst thread_5_loop.simps) (simp del: kvs_batch_simps add: at(3) [simplified])
  have "starts_with base bs ((ds @ [c]) @ cs)" using Cons.prems(1) by simp
  from Cons.IH [OF this _ s1(2) Cons.prems(4,5), of ?out] Cons.prems(2)
  show ?case unfolding step s1(3) [symmetric] by (auto simp: foldl_Cons s1(3))
qed

end


section \<open>The writes reach the store in order\<close>

text \<open>A buffer of encoded commands, as \<open>thread_1\<close> and the message handler leave it.\<close>

definition command_buffer :: "u64 \<Rightarrow> cmd_buffer_t \<Rightarrow> kvs_cmd list \<Rightarrow> bool" where
  "command_buffer base cb cs \<longleftrightarrow> starts_with base (cb_data cb) cs
     \<and> unat (cmds_length cb) = length (kvs_batch cs) \<and> cmds_length cb \<le> CMDBUF_SIZE"

lemma holds_command_buffer:
  assumes "holds cb cs" "\<forall>c \<in> set cs. kvs_wf c" "unat base mod 8 = 0" "unat base < 2 ^ 63"
  shows "command_buffer base cb cs"
proof -
  have "length (kvs_batch cs) \<le> cmdbuf_room"
    using assms(1) by (metis holds_def length_take min.cobounded1)
  with assms show ?thesis
    by (simp add: command_buffer_def starts_with_def holds_def cmdbuf_numbers word_le_nat_alt)
qed

context reliable_rocksdb
begin

lemma thread_5_pass_refines:
  assumes "kv_ready s" "command_buffer base cb cs" "\<forall>c \<in> set cs. write_ok c" "0 < fd" "sok fd"
  shows "\<exists>s'. thread_5_pass rput rdelete sok (\<lambda>_. st) fd base cb s
      = Inr (s', if st = RAFT_STATE_LEADER then map write_reply cs else [])
    \<and> kv_ready s' \<and> kv_content content s' = foldl map_step (kv_content content s) cs"
proof -
  have "starts_with base (cb_data cb) ([] @ cs)" using assms(2) by (simp add: command_buffer_def)
  from thread_5_loop_batch [OF this assms(3,1), of fd sok st "[]"] assms(2,4,5)
  show ?thesis by (auto simp: thread_5_pass_def command_buffer_def)
qed

end

text \<open>C7: on a database that reports no errors, \<open>thread_5\<close> refines the map. For a buffer of
  encoded sets and deletes with values of at most 128 bytes it returns, the store is then the map
  after these commands in their order, and exactly on the leader every command has been answered,
  in order, with status 200 and its own operation at the address it came from.\<close>

theorem thread_5_refines:
  assumes "reliable_rocksdb rget rput rdelete content" "kv_ready s"
    and "command_buffer base cb cs" "\<forall>c \<in> set cs. write_ok c" "0 < fd" "sok fd"
  shows "\<exists>s'. thread_5_pass rput rdelete sok (\<lambda>_. st) fd base cb s
      = Inr (s', if st = RAFT_STATE_LEADER then map write_reply cs else [])
    \<and> kv_ready s' \<and> kv_content content s' = foldl map_step (kv_content content s) cs"
  using assms by (rule reliable_rocksdb.thread_5_pass_refines)

theorem thread_5_refines_witness:
  "\<exists>s'. thread_5_pass map_put map_delete (\<lambda>_. True) (\<lambda>_. RAFT_STATE_LEADER) 5 4096
      \<lparr>cb_term = 1, cb_log_index = 1, cmds_length = 40, num_cmds = 1, cb_data = kvs_encode sample_set\<rparr> empty_store
    = Inr (s', [write_reply sample_set]) \<and> kv_content (\<lambda>d. d) s' (kc_key sample_set) = Some (kc_value sample_set)"
proof -
  let ?cb = "\<lparr>cb_term = 1, cb_log_index = 1, cmds_length = 40, num_cmds = 1, cb_data = kvs_encode sample_set\<rparr>"
  have cb: "command_buffer 4096 ?cb [sample_set]"
    using sample_set_wf sample_set_length
    by (simp add: command_buffer_def starts_with_def word_le_nat_alt cmdbuf_numbers)
  have w: "\<forall>c \<in> set [sample_set]. write_ok c" "kc_op sample_set = CMD_SET"
    by (simp_all add: write_ok_def sample_set_def)
  show ?thesis
    using thread_5_refines [OF map_store_reliable.reliable_rocksdb_axioms empty_store_ready cb w(1),
        of 5 "\<lambda>_. True" RAFT_STATE_LEADER] w(2)
    by (auto simp: map_step.simps)
qed

text \<open>C36: a set of a value of more than 128 bytes ends the program: \<open>thread_5\<close> copies the
  value into a local array of 128 characters before it stores it.\<close>

theorem thread_5_overflow:
  assumes "command_buffer base cb (c # cs)" "kc_op c = CMD_SET" "128 < length (kc_value c)"
    and "length (kc_value c) < unat CMDBUF_SIZE"
  shows "thread_5_pass rput rdelete sok st fd base cb s = Inl Out_of_bounds"
proof -
  let ?bs = "cb_data cb" and ?n = "length (kc_value c)"
  have sw: "starts_with base ?bs ([] @ c # cs)" and len: "unat (cmds_length cb) = length (kvs_batch (c # cs))"
    using assms(1) by (simp_all add: command_buffer_def)
  note at = starts_with_at [OF sw, simplified]
  have n: "?n < 67108864" using assms(4) by (simp add: cmdbuf_numbers)
  then have un: "unat (of_nat ?n :: u32) = ?n" "unat (ucast (of_nat ?n :: u32) :: u64) = ?n"
    by (simp_all only: unat_ucast_u32) (simp_all add: unat_of_nat_u32)
  have chk: "check_write ?bs 0 (unat (cmds_length cb)) = Inr ()"
    using n at(4) kvs_at_fields(2) [OF at(1)]
    by (simp add: check_write_def len word_less_nat_alt un MAX_VAL_LEN_def CMDBUF_SIZE_def del: unat_ucast_u32)
  from kvs_at_key [OF at(1)] obtain kp where k: "kvs_command_get_key base ?bs 0 = Inr kp" by auto
  from kvs_at_value [OF at(1)] obtain p where p: "kvs_command_get_value base ?bs 0 = Inr p"
    "rd_bytes ?bs p ?n = Inr (kc_value c)"
    by auto
  have "memcpy_into (replicate 128 0) 0 (kc_value c) = Inl Out_of_bounds"
    using assms(3) by (simp add: memcpy_into_def)
  then have w: "store_write rput rdelete base ?bs 0 s = Inl Out_of_bounds"
    using k p un(1) assms(2) kvs_at_fields(2,4) [OF at(1)] by (simp add: store_write_def)
  have pos: "0 < unat (cmds_length cb)" using at(2) len by simp
  show ?thesis
    using assms(1) chk w pos kvs_at_command_len [OF at(1)]
    by (simp add: thread_5_pass_def command_buffer_def thread_5_loop.simps [of _ _ _ _ _ _ _ _ 0])
qed

definition large_set :: kvs_cmd where
  "large_set = \<lparr>kc_op = CMD_SET, kc_key = [107], kc_value = replicate 200 1, kc_addr = replicate 16 0\<rparr>"

theorem thread_5_overflow_witness:
  "thread_5_pass map_put map_delete (\<lambda>_. True) (\<lambda>_. RAFT_STATE_FOLLOWER) 5 4096
     \<lparr>cb_term = 1, cb_log_index = 1, cmds_length = 232, num_cmds = 1, cb_data = kvs_encode large_set\<rparr> empty_store
   = Inl Out_of_bounds"
proof -
  have wf: "kvs_wf large_set" by (simp add: kvs_wf_def large_set_def)
  have "length (kvs_body large_set) = 28 + roundup 4 200 + 1 + 1"
    using length_kvs_body [OF wf] by (simp add: large_set_def)
  then have "length (kvs_encode large_set) = 232"
    by (simp add: length_kvs_encode roundup_def)
  then have "command_buffer 4096 \<lparr>cb_term = 1, cb_log_index = 1, cmds_length = 232, num_cmds = 1, cb_data = kvs_encode large_set\<rparr> [large_set]"
    using wf by (simp add: command_buffer_def starts_with_def word_le_nat_alt cmdbuf_numbers)
  then show ?thesis
    by (rule thread_5_overflow) (simp_all add: large_set_def cmdbuf_numbers)
qed


section \<open>The io_uring variants\<close>

lemma submit_returned:
  assumes "reads_headers submit"
  shows "submit (stk @ [None, None]) (sqes @ [prepared fd stk]) = Inl Use_after_free"
  using assms prepared_dead [of stk fd] unfolding reads_headers_def by simp

definition careful_submit :: uring_submit where
  "careful_submit stk sqes =
     (if list_ex (\<lambda>e. local_load stk (sq_msg e) = Inl Use_after_free) sqes then Inl Use_after_free
      else Inr (length sqes))"

lemma careful_submit_reads: "reads_headers careful_submit"
  by (auto simp: reads_headers_def careful_submit_def list_ex_iff)

context reliable_rocksdb
begin

lemma thread_5_new_loop_batch:
  assumes "starts_with base bs (ds @ cs)" "\<forall>c \<in> set cs. write_ok c" "kv_ready s" "0 < fd"
    and "length sqes + length cs < IOU_QUEUE_LEN"
  shows "\<exists>s' sqes'. thread_5_new_loop submit rput rdelete (\<lambda>_. RAFT_STATE_LEADER) fd base bs (length (kvs_batch (ds @ cs)))
        (length (kvs_batch ds)) s stk sqes 0
      = Inr (s', sqes', 0) \<and> length sqes' = length sqes + length cs
    \<and> kv_ready s' \<and> kv_content content s' = foldl map_step (kv_content content s) cs"
  using assms
proof (induction cs arbitrary: ds s stk sqes)
  case Nil
  then show ?case by (simp add: thread_5_new_loop.simps)
next
  case (Cons c cs)
  note at = starts_with_at [OF Cons.prems(1)]
  let ?L = "length (kvs_batch (ds @ c # cs))" and ?off = "length (kvs_batch ds)"
  let ?stk1 = "stk @ [Some (Response (write_response (kc_op c)))]"
  let ?e = "prepared fd ?stk1"
  have c: "write_ok c" using Cons.prems(2) by simp
  obtain s1 where s1: "store_write rput rdelete base bs ?off s = Inr (kc_op c, s1)" "kv_ready s1"
    "kv_content content s1 = map_step (kv_content content s) c"
    using store_write_step [OF at(1) c Cons.prems(3)] by blast
  have reply: "resp_to_client_uring fd addr (cr, write_response (kc_op c)) ?stk1 = Inr (?e, ?stk1 @ [None, None])" for addr cr
    using c Cons.prems(4) by (intro resp_write_uring) (simp_all add: write_ok_def)
  have step: "thread_5_new_loop submit rput rdelete (\<lambda>_. RAFT_STATE_LEADER) fd base bs ?L ?off s stk sqes 0
    = thread_5_new_loop submit rput rdelete (\<lambda>_. RAFT_STATE_LEADER) fd base bs ?L (length (kvs_batch (ds @ [c]))) s1
        (?stk1 @ [None, None]) (sqes @ [?e]) 0"
    using at(2) s1(1) reply Cons.prems(5) check_write_ok [OF at(1) c at(4)] kvs_at_command_len [OF at(1)]
      kvs_at_fields(3) [OF at(1)]
    by (subst thread_5_new_loop.simps) (simp del: kvs_batch_simps add: at(3) [simplified] Let_def declare_local_def)
  have "starts_with base bs ((ds @ [c]) @ cs)" using Cons.prems(1) by simp
  from Cons.IH [OF this _ s1(2) Cons.prems(4), of "sqes @ [?e]" "?stk1 @ [None, None]"] Cons.prems(2,5)
  show ?case unfolding step by (auto simp: s1(3))
qed

end




section \<open>Reads\<close>

definition read_ok :: "(bytes \<rightharpoonup> bytes) \<Rightarrow> kvs_cmd \<Rightarrow> bool" where
  "read_ok m c \<longleftrightarrow> kc_op c = CMD_GET \<and> length (kc_value c) \<le> 4080
     \<and> (\<forall>v. m (kc_key c) = Some v \<longrightarrow> length v \<le> 128)"

text \<open>The response a read asks for: status 200 with the value, or 201 without one.\<close>

definition read_response :: "(bytes \<rightharpoonup> bytes) \<Rightarrow> kvs_cmd \<Rightarrow> bytes \<times> bytes" where
  "read_response m c =
     (kc_addr c,
      case m (kc_key c) of
        None \<Rightarrow> client_resp_bytes \<lparr>cr_body_length = 0, cr_op_type = CMD_GET, cr_status_code = 201, cr_data = []\<rparr>
      | Some v \<Rightarrow> client_resp_bytes \<lparr>cr_body_length = of_nat (length v), cr_op_type = CMD_GET, cr_status_code = 200, cr_data = v\<rparr>)"

context reliable_rocksdb
begin

lemma read_answer_eq:
  assumes "kvs_at base bs off c" "read_ok (kv_content content s) c" "kv_ready s"
  shows "\<exists>r. read_answer rget base bs off s = Inr r \<and> cr_op_type r = CMD_GET \<and> 200 \<le> cr_status_code r \<and> cr_status_code r \<le> 599
    \<and> rd_bytes (client_resp_bytes r) 0 (sizeof_client_resp_t + unat (cr_body_length r)) = Inr (snd (read_response (kv_content content s) c))"
proof -
  from assms(3) obtain d r where s: "kv_db s = Some d" "kv_read_options s = Some r" by (auto simp: kv_ready_def)
  have m: "kv_content content s (kc_key c) = fst (rget d (Some r) (kc_key c))"
    using get_ok [of d r "kc_key c"] get_reliable [of d r "kc_key c"] s by (simp add: kv_content_def)
  have v: "length (kc_value c) \<le> 4080" using assms(2) by (simp add: read_ok_def)
  then have un: "unat (of_nat (length (kc_value c)) :: u32) = length (kc_value c)" by (simp add: unat_of_nat_u32)
  have al: "off mod 8 = 0" using assms(1) by (simp add: kvs_at_def)
  from kvs_at_key [OF assms(1)] obtain kp where k: "kvs_command_get_key base bs off = Inr kp" "c_str bs kp = Inr (kc_key c)"
    by auto
  note base = al v un k kvs_at_fields(2) [OF assms(1)] s
  show ?thesis
  proof (cases "rget d (Some r) (kc_key c)")
    case (Pair x err)
    then have err: "\<not> err" using get_reliable [of d r "kc_key c"] by simp
    show ?thesis
    proof (cases x)
      case None
      then show ?thesis
        using base Pair err m
        by (simp add: read_answer_def kv_store_get_def sizeof_client_resp_t_def read_response_def rd_bytes_def
            client_resp_bytes_def)
    next
      case (Some u)
      have u: "length u \<le> 128" using assms(2) m Pair Some by (auto simp: read_ok_def)
      then have "unat (of_nat (length u) :: u64) = length u" by (simp add: unat_of_nat_u64)
      then show ?thesis
        using base Pair err m Some u
        by (simp add: read_answer_def kv_store_get_def sizeof_client_resp_t_def read_response_def rd_bytes_def
            client_resp_bytes_def memcpy_into_def)
    qed
  qed
qed

lemma thread_4_old_loop_batch:
  assumes "starts_with base bs (ds @ cs)" "\<forall>c \<in> set cs. read_ok (kv_content content s) c" "kv_ready s" "0 < fd" "sok fd"
  shows "thread_4_old_loop rget sok fd base bs (length (kvs_batch (ds @ cs))) (length (kvs_batch ds)) s out
    = Inr (out @ map (read_response (kv_content content s)) cs)"
  using assms
proof (induction cs arbitrary: ds out)
  case Nil
  then show ?case by (simp add: thread_4_old_loop.simps)
next
  case (Cons c cs)
  note at = starts_with_at [OF Cons.prems(1)]
  let ?L = "length (kvs_batch (ds @ c # cs))" and ?off = "length (kvs_batch ds)"
  let ?m = "read_response (kv_content content s) c"
  obtain r where r: "read_answer rget base bs ?off s = Inr r" "cr_op_type r = CMD_GET"
    "200 \<le> cr_status_code r" "cr_status_code r \<le> 599"
    "rd_bytes (client_resp_bytes r) 0 (sizeof_client_resp_t + unat (cr_body_length r)) = Inr (snd ?m)"
    using read_answer_eq [OF at(1) _ Cons.prems(3)] Cons.prems(2) by auto
  have send: "resp_to_client True fd (kc_addr c) r = Inr ?m"
    using r(2-5) Cons.prems(4) by (simp add: resp_to_client_def check_response_def Let_def read_response_def)
  have step: "thread_4_old_loop rget sok fd base bs ?L ?off s out
    = thread_4_old_loop rget sok fd base bs ?L (length (kvs_batch (ds @ [c]))) s (out @ [?m])"
    using at(2) r(1) send Cons.prems(5) kvs_at_command_len [OF at(1)] kvs_at_fields(3) [OF at(1)]
    by (subst thread_4_old_loop.simps) (simp del: kvs_batch_simps add: at(3) [simplified])
  have "starts_with base bs ((ds @ [c]) @ cs)" using Cons.prems(1) by simp
  from Cons.IH [OF this _ Cons.prems(3-5)] Cons.prems(2) show ?case unfolding step by simp
qed

lemma thread_4_loop_batch:
  assumes "starts_with base bs (ds @ cs)" "\<forall>c \<in> set cs. read_ok (kv_content content s) c" "kv_ready s" "0 < fd"
    and "cs \<noteq> []" "length sqes < IOU_QUEUE_LEN" "reads_headers submit"
  shows "thread_4_loop submit rget fd base bs (length (kvs_batch (ds @ cs))) (length (kvs_batch ds)) s stk sqes k = Inl Use_after_free"
  using assms
proof (induction cs arbitrary: ds stk sqes)
  case Nil
  then show ?case by simp
next
  case (Cons c cs)
  note at = starts_with_at [OF Cons.prems(1)]
  let ?L = "length (kvs_batch (ds @ c # cs))" and ?off = "length (kvs_batch ds)"
  let ?off' = "length (kvs_batch (ds @ [c]))"
  obtain r where r: "read_answer rget base bs ?off s = Inr r" "cr_op_type r = CMD_GET"
    "200 \<le> cr_status_code r" "cr_status_code r \<le> 599"
    using read_answer_eq [OF at(1) _ Cons.prems(3)] Cons.prems(2) by auto
  let ?stk1 = "stk @ [Some (Response r)]"
  let ?e = "prepared fd ?stk1" and ?stk2 = "leave_scope (length stk) (?stk1 @ [None, None])"
  have send: "resp_to_client_uring fd addr (cr, r) ?stk1 = Inr (?e, ?stk1 @ [None, None])" for addr cr
    using r(2-4) Cons.prems(4) by (intro resp_to_client_uring_eq) (simp add: check_response_def)
  note dead = submit_returned [OF Cons.prems(7), of ?stk1 sqes fd, simplified]
  have step: "thread_4_loop submit rget fd base bs ?L ?off s stk sqes k
    = (if length (sqes @ [?e]) = IOU_QUEUE_LEN \<or> ?off' = ?L then Inl Use_after_free
       else thread_4_loop submit rget fd base bs ?L ?off' s ?stk2 (sqes @ [?e]) k)"
    using at(2) r(1) send dead Cons.prems(6) kvs_at_command_len [OF at(1)] kvs_at_fields(3) [OF at(1)]
    by (subst thread_4_loop.simps)
      (simp del: kvs_batch_simps add: at(3) [simplified] Let_def declare_local_def)
  show ?case
  proof (cases "length (sqes @ [?e]) = IOU_QUEUE_LEN \<or> ?off' = ?L")
    case True
    then show ?thesis unfolding step by simp
  next
    case False
    then have "cs \<noteq> []" "length (sqes @ [?e]) < IOU_QUEUE_LEN" using Cons.prems(6) by auto
    moreover have "starts_with base bs ((ds @ [c]) @ cs)" using Cons.prems(1) by simp
    ultimately have "thread_4_loop submit rget fd base bs (length (kvs_batch ((ds @ [c]) @ cs))) ?off' s ?stk2 (sqes @ [?e]) k = Inl Use_after_free"
      using Cons.IH [of "ds @ [c]" "sqes @ [?e]" ?stk2] Cons.prems(2-4,7) by simp
    then show ?thesis unfolding step using False by simp
  qed
qed

end

text \<open>C24: on a database that reports no errors, \<open>thread_4_old\<close> answers every read of a buffer,
  in order and at the address it came from: with status 200 and the value the store maps the key
  to, or with status 201 when it maps the key to none. The values must fit the local array of 128
  characters.\<close>

theorem thread_4_old_answers:
  assumes "reliable_rocksdb rget rput rdelete content" "kv_ready s"
    and "command_buffer base cb cs" "\<forall>c \<in> set cs. read_ok (kv_content content s) c" "0 < fd" "sok fd"
  shows "thread_4_old_pass rget sok fd base cb s = Inr (map (read_response (kv_content content s)) cs)"
proof -
  have "starts_with base (cb_data cb) ([] @ cs)" using assms(3) by (simp add: command_buffer_def)
  from reliable_rocksdb.thread_4_old_loop_batch [OF assms(1) this assms(4,2,5), of sok "[]"] assms(3,6)
  show ?thesis by (simp add: thread_4_old_pass_def command_buffer_def)
qed

text \<open>C37: on the same buffers, unless they are empty, \<open>thread_4\<close> submits responses whose
  message headers are local objects of \<open>resp_to_client_uring\<close>, which went out of scope when it
  returned: a kernel that reads the header of each submitted entry uses it after its end.\<close>

theorem thread_4_use_after_return:
  assumes "reads_headers submit" "reliable_rocksdb rget rput rdelete content" "kv_ready s"
    and "command_buffer base cb cs" "\<forall>c \<in> set cs. read_ok (kv_content content s) c" "0 < fd" "cs \<noteq> []"
  shows "thread_4_pass submit rget fd base cb s = Inl Use_after_free"
proof -
  have "starts_with base (cb_data cb) ([] @ cs)" using assms(4) by (simp add: command_buffer_def)
  from reliable_rocksdb.thread_4_loop_batch [OF assms(2) this assms(5,3,6,7), of "[]" submit "[]" 0] assms(1,4)
  show ?thesis by (simp add: thread_4_pass_def command_buffer_def IOU_QUEUE_LEN_def)
qed

definition sample_get :: kvs_cmd where
  "sample_get = \<lparr>kc_op = CMD_GET, kc_key = [107], kc_value = [], kc_addr = replicate 16 0\<rparr>"

definition sample_reads :: cmd_buffer_t where
  "sample_reads = \<lparr>cb_term = 1, cb_log_index = 1, cmds_length = 32, num_cmds = 1, cb_data = kvs_encode sample_get\<rparr>"

lemma sample_reads_buffer: "command_buffer 4096 sample_reads [sample_get]"
proof -
  have wf: "kvs_wf sample_get" by (simp add: kvs_wf_def sample_get_def)
  have "length (kvs_encode sample_get) = 32"
    using length_kvs_body [OF wf] by (simp add: length_kvs_encode roundup_def sample_get_def)
  with wf show ?thesis
    by (simp add: command_buffer_def starts_with_def sample_reads_def word_le_nat_alt cmdbuf_numbers)
qed

lemma sample_read_ok: "\<forall>c \<in> set [sample_get]. read_ok (kv_content (\<lambda>d. d) empty_store) c"
  by (simp add: read_ok_def sample_get_def kv_content_def empty_store_def kv_store_init_def Let_def)

theorem thread_4_old_answers_witness:
  "thread_4_old_pass map_get (\<lambda>_. True) 5 4096 sample_reads empty_store
   = Inr (map (read_response (kv_content (\<lambda>d. d) empty_store)) [sample_get])"
  by (rule thread_4_old_answers [OF map_store_reliable.reliable_rocksdb_axioms empty_store_ready sample_reads_buffer
      sample_read_ok]) simp_all

theorem thread_4_use_after_return_witness:
  "thread_4_pass careful_submit map_get 5 4096 sample_reads empty_store = Inl Use_after_free"
  by (rule thread_4_use_after_return [OF careful_submit_reads map_store_reliable.reliable_rocksdb_axioms empty_store_ready sample_reads_buffer
      sample_read_ok]) simp_all

end
