(* ===== verification/Server_Main.thy ===== *)
theory Server_Main
  imports Server_Store
begin

text \<open>
  The server as a whole (\<open>main\<close> of \<open>src/main.c\<close>): starting up, and the threads it
  starts as a step relation, with invariants of the reachable states by rule induction. \<open>main\<close>
  calls \<open>raft_init\<close> with arguments of its own; the model passes it the node id and takes the
  node it returns.
\<close>

section \<open>Starting\<close>

text \<open>\<open>strtoll(s, NULL, 10)\<close>, converted to \<open>uint64_t\<close>: out of range, the value is the
  nearest one that fits in 64 bits with a sign.\<close>

definition strtoll10 :: "bytes \<Rightarrow> u64" where
  "strtoll10 s =
     (let s1 = dropWhile is_space s;
          neg = (s1 \<noteq> [] \<and> hd s1 = 45);
          s2 = (if s1 \<noteq> [] \<and> (hd s1 = 45 \<or> hd s1 = 43) then tl s1 else s1);
          n = decimal_value (takeWhile is_digit s2)
      in if neg then (if 2 ^ 63 < n then of_int (- (2 ^ 63)) else - of_nat n)
         else (if 2 ^ 63 \<le> n then of_nat (2 ^ 63 - 1) else of_nat n))"

text \<open>What the host provides: the configuration file and the outcomes of the system and library
  calls, in the order of \<open>main\<close>.\<close>

record ('db, 'g) host =
  config_file :: "bytes option"
  config_mem :: bool
  logfile_fd :: int
  old_log :: bytes
  queue_mem :: "'g option \<times> 'g option \<times> 'g option \<times> 'g option \<times> 'g option"
  kv_opts :: "handle option"
  kv_opened :: "'db option"
  kv_wopts :: "handle option"
  kv_ropts :: "handle option"
  client_fds :: "int \<times> int"
  client_bind :: "int \<Rightarrow> sockaddr_in \<Rightarrow> bool"
  listen_calls :: "bool \<times> bool \<times> bool \<times> bool"
  accepts :: "accept_outcome list"
  connects :: "nat \<Rightarrow> connect_outcome list"
  fd_open :: "int \<Rightarrow> bool"
  mutexes :: "bool \<times> bool \<times> bool"
  wall_clock :: int
  mono_clock :: timespec
  timeout_junk :: adaptive_timeout
  the_heap :: heap

text \<open>The state the threads share: the server, the batches queued for \<open>thread_3\<close>, the reads
  queued for \<open>thread_4\<close>, the store, the client sockets and the responses sent to clients.\<close>

record ('sm, 'db) system =
  srv :: "'sm server"
  to_3_batches :: "(cmd_buffer_t \<times> cmd_buffer_t) list"
  to_4 :: "cmd_buffer_t list"
  disk_map :: "'db kv_store_t"
  clients :: client_handeling_t
  responses :: "(bytes \<times> bytes) list"

definition zero_cluster :: cluster_t where
  "zero_cluster = \<lparr>cluster_nodes = replicate CLUSTER_ARRAY_LEN zero_addr,
     node_fds = replicate CLUSTER_ARRAY_LEN 0, self_id = 0, num_nodes = 0\<rparr>"

definition zero_queue :: "'g spsc_queue_t" where
  "zero_queue = \<lparr>gqueue = None, element_size = 0\<rparr>"

text \<open>\<open>main\<close> up to the creation of the threads; \<open>None\<close> while the cluster is not
  connected.\<close>

definition main_boot :: "bytes list \<Rightarrow> ('db, 'g) host \<Rightarrow> ('sm, 'db) system option res" where
  "main_boot argv o' =
     (if length argv \<noteq> 3 then Inl Exit_called
      else
        let slef_id = strtoll10 (argv ! 1) in
        bindr (assert_c (slef_id < of_nat MAX_NODES)) (\<lambda>_.
        bindr (parse_ip_addr (config_file o') (config_mem o') zero_cluster (ucast slef_id)) (\<lambda>c0.
        bindr (init_logfile (logfile_fd o')) (\<lambda>_.
        let log = \<lparr>lf_contents = old_log o'\<rparr>; (g1, g2, g3, g4, g5) = queue_mem o' in
        bindr (init_channels g1 g2 g3 g4 g5 \<lparr>q_1_to_3 = zero_queue, q_2_to_3 = zero_queue,
                 q_2_to_6 = zero_queue, q_3_to_4 = zero_queue, q_3_to_5 = zero_queue\<rparr>) (\<lambda>_.
        let store = fst (kv_store_init (kv_opts o') (kv_opened o') (kv_wopts o') (kv_ropts o') (Some log)) in
        bindr (init_client_listeners (fst (client_fds o')) (snd (client_fds o')) (client_bind o') (ucast slef_id)) (\<lambda>(cl, _).
        let (ok_s, ok_o, ok_b, ok_l) = listen_calls o' in
        bindr (init_cluster ok_s ok_o ok_b ok_l (accepts o') (connects o') c0) (\<lambda>r.
          case r of
            None \<Rightarrow> Inr None
          | Some c \<Rightarrow>
              bindr (set_cluster_comms_nonblocking (fd_open o') c) (\<lambda>_.
              let (ok_a, ok_m, ok_q) = mutexes o' in
              case raft_init ok_a ok_m ok_q (wall_clock o') (mono_clock o') (timeout_junk o') (ucast (self_id c)) (the_heap o') of
                (None, _) \<Rightarrow> Inl Null_deref
              | (Some node, _) \<Rightarrow>
                  Inr (Some \<lparr>srv = \<lparr>raft_state = node, last_applied_index = 0, last_applied_term = 0,
                                   cluster_state = c, server_log = log, to_3 = [], to_6 = [], to_5 = [], outbox = []\<rparr>,
                            to_3_batches = [], to_4 = [], disk_map = store, clients = cl, responses = []\<rparr>)))))))))"

section \<open>The threads\<close>

text \<open>One step is one pass of one thread, with the outcomes it meets; the state of the node that
  \<open>thread_5\<close> reads is the one at the start of its pass. \<open>rget\<close>, \<open>rput\<close> and
  \<open>rdelete\<close> are RocksDB, \<open>submit\<close> is liburing, \<open>heartbeat\<close> the undeclared message type, \<open>base\<close> in the step of
  \<open>thread_5\<close> the aligned address of the buffer's data, and \<open>W\<close> holds the outcomes a pass may meet. An aborting pass has no successor.\<close>

inductive server_step ::
  "uring_submit \<Rightarrow> 'db rget \<Rightarrow> 'db rput \<Rightarrow> 'db rdelete \<Rightarrow> raft_rpc_type_t \<Rightarrow> outside set \<Rightarrow> ('sm, 'db) system \<Rightarrow> ('sm, 'db) system \<Rightarrow> bool"
  for submit rget rput rdelete heartbeat W where
  thread_1: "thread_1_pass base inputs end_term (srv x) = Inr (Some (Some wr))
    \<Longrightarrow> server_step submit rget rput rdelete heartbeat W x (x\<lparr>to_3_batches := to_3_batches x @ [wr]\<rparr>)"
| thread_2: "w \<in> W \<Longrightarrow> thread_2_event w fresh epollin buf outs (srv x) = Inr (Some (buf', s'))
    \<Longrightarrow> server_step submit rget rput rdelete heartbeat W x (x\<lparr>srv := s'\<rparr>)"
| thread_3: "w \<in> W \<Longrightarrow> to_3_batches x = wr # wrs
    \<Longrightarrow> thread_3_pass w junk pointer wr answers (srv x) = Inr (Some (s', reads, rest))
    \<Longrightarrow> server_step submit rget rput rdelete heartbeat W x (x\<lparr>srv := s'\<lparr>to_3 := rest\<rparr>, to_3_batches := wrs, to_4 := to_4 x @ [reads]\<rparr>)"
| thread_4: "to_4 x = cb # cbs
    \<Longrightarrow> thread_4_pass submit rget (clinet_socket_send (clients x)) base cb (disk_map x) = Inr k
    \<Longrightarrow> server_step submit rget rput rdelete heartbeat W x (x\<lparr>to_4 := cbs\<rparr>)"
| thread_5: "w \<in> W \<Longrightarrow> to_5 (srv x) = cb # cbs \<Longrightarrow> unat base mod 8 = 0 \<Longrightarrow> unat base + length (cb_data cb) < 2 ^ 64
    \<Longrightarrow> thread_5_pass rput rdelete (send_ok w) (\<lambda>_. rstate (raft_state (srv x))) (clinet_socket_send (clients x)) base cb (disk_map x)
       = Inr (m', out)
    \<Longrightarrow> server_step submit rget rput rdelete heartbeat W x
         (x\<lparr>srv := (srv x)\<lparr>to_5 := cbs\<rparr>, disk_map := m', responses := responses x @ out\<rparr>)"
| thread_7: "thread_7_pass heartbeat padding (srv x) = Inr s'
    \<Longrightarrow> server_step submit rget rput rdelete heartbeat W x (x\<lparr>srv := s'\<rparr>)"

definition server_reaches ::
  "uring_submit \<Rightarrow> 'db rget \<Rightarrow> 'db rput \<Rightarrow> 'db rdelete \<Rightarrow> raft_rpc_type_t \<Rightarrow> outside set \<Rightarrow> ('sm, 'db) system \<Rightarrow> ('sm, 'db) system \<Rightarrow> bool" where
  "server_reaches submit rget rput rdelete heartbeat W = (server_step submit rget rput rdelete heartbeat W)\<^sup>*\<^sup>*"


section \<open>The log leads the store\<close>

text \<open>A step of the server state that logs the batches it queues for \<open>thread_5\<close>.\<close>

definition logs_and_queues :: "'sm server \<Rightarrow> 'sm server \<Rightarrow> cmd_buffer_t list \<Rightarrow> bool" where
  "logs_and_queues s s' cbs \<longleftrightarrow> to_5 s' = to_5 s @ cbs
     \<and> lf_contents (server_log s') = lf_contents (server_log s) @ concat (map (log_record) cbs)"

lemma logs_nothing: "to_5 s' = to_5 s \<Longrightarrow> server_log s' = server_log s \<Longrightarrow> logs_and_queues s s' []"
  by (simp add: logs_and_queues_def)

lemma lf_write_contents: "lf_write (Some k) bs lf = (r, lf') \<Longrightarrow> lf_contents lf' = lf_contents lf @ take k bs"
  by (auto simp: lf_write_def)

lemma append_data_contents:
  assumes "logfile_append_data ws lf cb = Inr lf'" "full_writes ws (unat (cmds_length cb))"
  shows "lf_contents lf' = lf_contents lf @ log_record cb"
proof -
  from assms(2) obtain a b c where ws: "ws = (Some a, Some b, Some c)" "48 \<le> a" "unat (cmds_length cb) \<le> b" "48 \<le> c"
    by (auto simp: full_writes_def)
  have dl: "kh_data_length (logfile_header cb) = cmds_length cb"
    by (simp add: logfile_header_def calc_checksum_eq)
  show ?thesis
    using assms(1) ws
    by (auto simp: logfile_append_data_def log_record_def dl rd_bytes_def Let_def min_absorb2
        dest!: lf_write_contents split: prod.splits if_splits)
qed

lemma handle_append_logs:
  assumes "handle_append w s m = Inr s'" "\<forall>n < 2 ^ 64. full_writes (log_writes w) n"
  shows "\<exists>cbs. logs_and_queues s s' cbs"
proof -
  have full: "full_writes (log_writes w) (unat (cmds_length cb))" for cb
    using assms(2) unat_u64_bound by blast
  from assms(1) consider "to_5 s' = to_5 s \<and> server_log s' = server_log s"
    | cb where "to_5 s' = to_5 s @ [cb]"
      "logfile_append_data (log_writes w) (server_log s) cb = Inr (server_log s')"
    by (auto simp: handle_append_def Let_def split: if_splits)
  then show ?thesis
  proof cases
    case 1
    then show ?thesis using logs_nothing by blast
  next
    case 2
    then have "logs_and_queues s s' [cb]"
      using append_data_contents [OF _ full] by (simp add: logs_and_queues_def)
    then show ?thesis by blast
  qed
qed

lemma handle_message_logs:
  assumes "handle_message w buf s = Inr s'" "\<forall>n < 2 ^ 64. full_writes (log_writes w) n"
  shows "\<exists>cbs. logs_and_queues s s' cbs"
proof -
  from assms(1) obtain m go s1 where m: "handle_term s m = Inr (go, s1)"
    and run: "(if \<not> go then Inr s1 else case rpc_type m of
         RAFT_RPC_APPEND_ENTRIES \<Rightarrow> handle_append w s1 m
       | RAFT_RPC_REQUEST_VOTE \<Rightarrow> handle_vote_request w s1 m
       | RAFT_RPC_RESP_APPEND_ENTRIES \<Rightarrow> handle_append_resp s1 m
       | RAFT_RPC_RESP_REQUEST_VOTE \<Rightarrow> handle_vote_resp w s1 m
       | RAFT_RPC_other _ \<Rightarrow> Inr s1) = Inr s'"
    by (fastforce simp: handle_message_def)
  have s1: "to_5 s1 = to_5 s" "server_log s1 = server_log s"
    using m by (auto simp: handle_term_def split: if_splits)
  have "\<exists>cbs. logs_and_queues s1 s' cbs"
  proof (cases "go \<and> rpc_type m = RAFT_RPC_APPEND_ENTRIES")
    case True
    then show ?thesis using run handle_append_logs [OF _ assms(2)] by simp
  next
    case False
    then have "to_5 s' = to_5 s1 \<and> server_log s' = server_log s1"
      using run by (auto simp: handle_vote_request_def handle_append_resp_def handle_vote_resp_def Let_def
          split: if_splits raft_rpc_type_t.splits)
    then show ?thesis using logs_nothing by blast
  qed
  then show ?thesis by (simp add: logs_and_queues_def s1)
qed

lemma thread_2_event_handles:
  assumes "thread_2_event w fresh epollin buf outs s = Inr (Some (buf', s'))"
  obtains msg where "handle_message w msg s = Inr s'"
  using assms by (fastforce simp: thread_2_event_def split: option.splits)

lemma send_to_all_fields:
  "send_to_all w msg is s = Inr s' \<Longrightarrow> to_5 s' = to_5 s \<and> server_log s' = server_log s"
  by (induction "is" arbitrary: s) (fastforce simp: Let_def)+

lemma thread_3_pass_logs:
  assumes "thread_3_pass w junk pointer wr answers s = Inr (Some (s', reads, rest))"
    and "\<forall>n < 2 ^ 64. full_writes (log_writes w) n"
  shows "logs_and_queues s s' [fst wr]"
proof -
  have full: "full_writes (log_writes w) (unat (cmds_length (fst wr)))"
    using assms(2) unat_u64_bound by blast
  show ?thesis
    using assms(1)
    by (auto simp: thread_3_pass_def Let_def logs_and_queues_def split: option.splits
        dest!: send_to_all_fields append_data_contents [OF _ full])
qed


text \<open>A buffer that holds encoded sets and deletes.\<close>

definition write_batch :: "cmd_buffer_t \<Rightarrow> kvs_cmd list \<Rightarrow> bool" where
  "write_batch cb cs \<longleftrightarrow> take (length (kvs_batch cs)) (cb_data cb) = kvs_batch cs
     \<and> unat (cmds_length cb) = length (kvs_batch cs) \<and> (\<forall>c \<in> set cs. kvs_wf c \<and> write_ok c)"

context reliable_rocksdb
begin

lemma thread_5_pass_batch:
  assumes "thread_5_pass rput rdelete sok (\<lambda>_. st) fd base cb s = Inr (s', out)" "write_batch cb cs" "kv_ready s"
    and "unat base mod 8 = 0" "unat base + length (cb_data cb) < 2 ^ 64" "0 < fd" "sok fd"
  shows "kv_ready s'" "kv_content content s' = foldl map_step (kv_content content s) cs"
proof -
  have "starts_with base (cb_data cb) ([] @ cs)" "\<forall>c \<in> set cs. write_ok c"
    using assms(2,4,5) by (auto simp: write_batch_def starts_with_def)
  from thread_5_loop_batch [where ds = "[]" and cs = cs and fd = fd and sok = sok, OF this assms(3,6,7), of st "[]"] assms(1,2)
  show "kv_ready s'" "kv_content content s' = foldl map_step (kv_content content s) cs"
    by (auto simp: thread_5_pass_def write_batch_def)
qed

end

text \<open>The batches logged since \<open>x\<close> are \<open>consumed\<close>, whose writes the store has, followed
  by those still queued.\<close>

definition log_leads ::
  "('db \<Rightarrow> bytes \<rightharpoonup> bytes) \<Rightarrow> ('sm, 'db) system \<Rightarrow> ('sm, 'db) system \<Rightarrow> cmd_buffer_t list \<Rightarrow> bool" where
  "log_leads content x y consumed \<longleftrightarrow>
     lf_contents (server_log (srv y))
       = lf_contents (server_log (srv x)) @ concat (map (log_record) (consumed @ to_5 (srv y)))
     \<and> (\<forall>css. list_all2 write_batch consumed css \<longrightarrow> kv_ready (disk_map y)
         \<and> kv_content content (disk_map y) = foldl map_step (kv_content content (disk_map x)) (concat css))"

lemma log_leads_logs:
  assumes "log_leads content x y consumed" "logs_and_queues (srv y) (srv z) cbs" "disk_map z = disk_map y"
  shows "\<exists>consumed'. log_leads content x z consumed'"
  using assms by (intro exI [of _ consumed]) (simp add: log_leads_def logs_and_queues_def)

lemma log_leads_consume:
  assumes "reliable_rocksdb rget rput rdelete content" "log_leads content x y consumed" "to_5 (srv y) = cb # cbs"
    and "thread_5_pass rput rdelete sok (\<lambda>_. st) fd base cb (disk_map y) = Inr (disk_map z, out)"
    and "unat base mod 8 = 0" "unat base + length (cb_data cb) < 2 ^ 64" "0 < fd" "sok fd"
    and "srv z = (srv y)\<lparr>to_5 := cbs\<rparr>"
  shows "log_leads content x z (consumed @ [cb])"
proof -
  have "kv_ready (disk_map z) \<and> kv_content content (disk_map z) = foldl map_step (kv_content content (disk_map x)) (concat css)"
    if css: "list_all2 write_batch (consumed @ [cb]) css" for css
  proof -
    obtain bs cs where s: "css = bs @ [cs]" "list_all2 write_batch consumed bs" "write_batch cb cs"
      using css by (auto simp: list_all2_append1 list_all2_Cons1)
    then have "kv_ready (disk_map y)"
      "kv_content content (disk_map y) = foldl map_step (kv_content content (disk_map x)) (concat bs)"
      using assms(2) by (simp_all add: log_leads_def)
    with reliable_rocksdb.thread_5_pass_batch [OF assms(1,4) s(3) _ assms(5-8)] s(1)
    show ?thesis by simp
  qed
  with assms(2,3,9) show ?thesis by (simp add: log_leads_def)
qed

text \<open>Outcomes without failures of the log writes and of the responses to clients.\<close>

definition well_served :: "int \<Rightarrow> outside \<Rightarrow> bool" where
  "well_served fd w \<longleftrightarrow> (\<forall>n < 2 ^ 64. full_writes (log_writes w) n) \<and> send_ok w fd"

lemma server_step_leads:
  assumes "server_step submit rget rput rdelete heartbeat W y z" "log_leads content x y consumed"
    and "reliable_rocksdb rget rput rdelete content" "\<forall>w \<in> W. well_served (clinet_socket_send (clients y)) w"
    and "0 < clinet_socket_send (clients y)"
  shows "clients z = clients y \<and> (\<exists>consumed'. log_leads content x z consumed')"
  using assms(1)
proof cases
  case (thread_1 base inputs end_term wr)
  then show ?thesis using assms(2) by (auto simp: log_leads_def)
next
  case (thread_2 w fresh epollin buf outs buf' s')
  then obtain msg where "handle_message w msg (srv y) = Inr s'" using thread_2_event_handles by blast
  moreover have "\<forall>n < 2 ^ 64. full_writes (log_writes w) n"
    using assms(4) thread_2(2) by (simp_all add: well_served_def)
  ultimately obtain cbs where "logs_and_queues (srv y) (srv z) cbs"
    using handle_message_logs thread_2(1) by fastforce
  then show ?thesis using thread_2 log_leads_logs [OF assms(2)] by simp
next
  case (thread_3 w wr wrs junk pointer answers s' reads rest)
  then have "\<forall>n < 2 ^ 64. full_writes (log_writes w) n"
    using assms(4) by (simp_all add: well_served_def)
  with thread_3_pass_logs [OF thread_3(4)] have "logs_and_queues (srv y) (srv z) [fst wr]"
    by (simp add: thread_3(1) logs_and_queues_def)
  then show ?thesis using thread_3 log_leads_logs [OF assms(2)] by simp
next
  case (thread_4 cb cbs base k)
  then show ?thesis using assms(2) by (auto simp: log_leads_def)
next
  case (thread_5 w cb cbs base m' out)
  then have "send_ok w (clinet_socket_send (clients y))" using assms(4) by (simp add: well_served_def)
  then have "log_leads content x z (consumed @ [cb])"
    using log_leads_consume [OF assms(3,2), of cb cbs "send_ok w" _ "clinet_socket_send (clients y)" base z out] assms(5) thread_5 by simp
  then show ?thesis using thread_5 by auto
next
  case (thread_7 padding s')
  then have "logs_and_queues (srv y) (srv z) []"
    by (auto simp: thread_7_pass_def Let_def intro!: logs_nothing split: if_splits)
  then show ?thesis using thread_7 log_leads_logs [OF assms(2)] by simp
qed

text \<open>The log leads the store after every pass. Over all sequences of passes of the threads,
  taken as atomic (\<open>Server_Interleave\<close> has the single accesses), what the log file has gained is the records of a sequence of batches, in order; the last of them are the
  ones still queued for \<open>thread_5\<close>, and the store holds exactly the writes of the others: its
  map is the earlier map after these writes in the order of the log. The log writes are complete,
  the database reports no errors and responses can be sent.\<close>

theorem server_log_leads_store:
  assumes "server_reaches submit rget rput rdelete heartbeat W x y" "to_5 (srv x) = []" "kv_ready (disk_map x)"
    and "reliable_rocksdb rget rput rdelete content" "0 < clinet_socket_send (clients x)"
    and "\<forall>w \<in> W. well_served (clinet_socket_send (clients x)) w"
  shows "\<exists>consumed. lf_contents (server_log (srv y))
      = lf_contents (server_log (srv x)) @ concat (map (log_record) (consumed @ to_5 (srv y)))
    \<and> (\<forall>css. list_all2 write_batch consumed css \<longrightarrow>
         kv_content content (disk_map y) = foldl map_step (kv_content content (disk_map x)) (concat css))"
proof -
  have "clients y = clients x \<and> (\<exists>consumed. log_leads content x y consumed)"
    using assms(1) unfolding server_reaches_def
  proof (induction rule: rtranclp_induct)
    case base
    have "log_leads content x x []" using assms(2,3) by (simp add: log_leads_def)
    then show ?case by blast
  next
    case (step y z)
    then show ?case using server_step_leads [OF step.hyps(2) _ assms(4)] assms(5,6) by metis
  qed
  then show ?thesis unfolding log_leads_def by blast
qed


section \<open>No server ever leads\<close>

text \<open>A follower that has applied nothing, and messages that only answer.\<close>

definition idle :: "'sm server \<Rightarrow> bool" where
  "idle s \<longleftrightarrow> rstate (raft_state s) = RAFT_STATE_FOLLOWER \<and> \<not> mutex_held (raft_state s)
     \<and> last_applied_index s = 0 \<and> last_applied_term s = 0"

definition is_answer :: "bytes \<Rightarrow> bool" where
  "is_answer b = (case msg_of_bytes b of Inl _ \<Rightarrow> False
     | Inr m \<Rightarrow> rpc_type m = RAFT_RPC_RESP_APPEND_ENTRIES \<or> rpc_type m = RAFT_RPC_RESP_REQUEST_VOTE)"

definition only_answers :: "'sm server \<Rightarrow> bool" where
  "only_answers s \<longleftrightarrow> list_all (\<lambda>(fd, b). is_answer b) (outbox s)"

lemma responses_are_answers [simp]: "is_answer (append_response s r)" "is_answer (vote_response s g)"
proof -
  show "is_answer (append_response s r)"
    unfolding append_response_def is_answer_def
    by (subst msg_bytes_roundtrip [where rest = "[]", simplified]) simp_all
  show "is_answer (vote_response s g)"
    unfolding vote_response_def is_answer_def
    by (subst msg_bytes_roundtrip [where rest = "[]", simplified]) simp_all
qed

lemma handle_message_idle:
  assumes "handle_message w buf s = Inr s'" "idle s" "only_answers s"
  shows "idle s' \<and> only_answers s'"
proof -
  from assms(1) obtain m where m: "msg_of_bytes buf = Inr m" by (auto simp: handle_message_def)
  let ?s1 = "adopt_term (msg_term m) s"
  have f: "idle ?s1" "only_answers ?s1" "rstate (raft_state ?s1) = RAFT_STATE_FOLLOWER"
    "\<not> mutex_held (raft_state ?s1)"
    using assms(2,3) by (auto simp: idle_def only_answers_def adopt_term_def)
  show ?thesis
  proof (cases "msg_term m < current_term (raft_state s)")
    case True
    then show ?thesis
      using assms m by (auto simp: handle_message_def handle_term_eq idle_def)
  next
    case False
    then have "(case rpc_type m of
         RAFT_RPC_APPEND_ENTRIES \<Rightarrow> handle_append w ?s1 m
       | RAFT_RPC_REQUEST_VOTE \<Rightarrow> handle_vote_request w ?s1 m
       | RAFT_RPC_RESP_APPEND_ENTRIES \<Rightarrow> handle_append_resp ?s1 m
       | RAFT_RPC_RESP_REQUEST_VOTE \<Rightarrow> handle_vote_resp w ?s1 m
       | RAFT_RPC_other _ \<Rightarrow> Inr ?s1) = Inr s'"
      using assms(1,2) m by (simp add: handle_message_def handle_term_eq idle_def)
    then show ?thesis
      using f by (auto simp: handle_append_def handle_vote_request_def handle_append_resp_def handle_vote_resp_def
          Let_def idle_def only_answers_def split: raft_rpc_type_t.splits if_splits)
  qed
qed

lemma thread_5_loop_follower:
  "thread_5_loop rput rdelete sok (\<lambda>_. RAFT_STATE_FOLLOWER) fd base bs len off s out = Inr (n, s', out') \<Longrightarrow> out' = out"
proof (induction "len - off" arbitrary: off s rule: less_induct)
  case less
  show ?case
  proof (cases "off < len")
    case True
    with less.prems obtain k s1 where "kvs_command_len base bs off = Inr k"
      and run: "thread_5_loop rput rdelete sok (\<lambda>_. RAFT_STATE_FOLLOWER) fd base bs len (off + unat k) s1 out = Inr (n, s', out')"
      by (subst (asm) thread_5_loop.simps) auto
    then have "0 < unat k" by (auto dest: kvs_command_len_pos)
    with True have "len - (off + unat k) < len - off" by simp
    from less.hyps [OF this run] show ?thesis .
  next
    case False
    with less.prems show ?thesis by (subst (asm) thread_5_loop.simps) simp
  qed
qed

text \<open>The state of a system in which nothing but answering happens.\<close>

definition quiet :: "('sm, 'db) system \<Rightarrow> bool" where
  "quiet x \<longleftrightarrow> idle (srv x) \<and> only_answers (srv x) \<and> to_3_batches x = [] \<and> to_4 x = [] \<and> responses x = []"

lemma server_step_quiet:
  assumes "server_step submit rget rput rdelete heartbeat W x y" "quiet x"
  shows "quiet y"
  using assms(1)
proof cases
  case (thread_1 base inputs end_term wr)
  then show ?thesis using assms(2) by (auto simp: quiet_def idle_def thread_1_pass_def)
next
  case (thread_2 w fresh epollin buf outs buf' s')
  then obtain msg where "handle_message w msg (srv x) = Inr s'" using thread_2_event_handles by blast
  from handle_message_idle [OF this] show ?thesis using thread_2 assms(2) by (simp add: quiet_def)
next
  case (thread_5 w cb cbs base m' out)
  then have "out = []"
    using assms(2) by (auto simp: quiet_def idle_def thread_5_pass_def dest: thread_5_loop_follower)
  then show ?thesis using thread_5 assms(2) by (simp add: quiet_def idle_def only_answers_def)
next
  case (thread_7 padding s')
  then show ?thesis using assms(2)
    by (auto simp: quiet_def idle_def only_answers_def thread_7_pass_def unlock_node_def Let_def)
qed (use assms(2) in \<open>simp_all add: quiet_def\<close>)

lemma raft_init_follower:
  assumes "raft_init ok_a ok_m ok_b now t junk self h = (Some n, h')"
  shows "rstate n = RAFT_STATE_FOLLOWER \<and> \<not> mutex_held n"
  using assms
  by (auto simp: raft_init_def raft_adaptive_init_def zero_node_def Let_def
      split: prod.splits if_splits option.splits)

lemma main_boot_quiet:
  assumes "main_boot argv o' = Inr (Some x)"
  shows "quiet x"
  using assms
  by (auto simp: main_boot_def quiet_def idle_def only_answers_def Let_def dest!: raft_init_follower
      split: if_splits prod.splits option.splits)

text \<open>C17: no server ever leads. Started by \<open>main\<close>, whatever messages, datagrams and failures it
  meets, and in whatever order its threads run, a server stays a follower that has applied
  nothing: it sends nothing but answers to other servers, hands no batch on for replication and
  answers no client. \<open>thread_6\<close>, which should start elections, only sleeps.\<close>

theorem server_never_leads:
  assumes "main_boot argv o' = Inr (Some x)" "server_reaches submit rget rput rdelete heartbeat W x y"
  shows "rstate (raft_state (srv y)) = RAFT_STATE_FOLLOWER \<and> only_answers (srv y)
    \<and> to_3_batches y = [] \<and> responses y = []
    \<and> last_applied_index (srv y) = 0 \<and> last_applied_term (srv y) = 0"
proof -
  from assms(2) have "quiet y"
    unfolding server_reaches_def
  proof (induction rule: rtranclp_induct)
    case base
    show ?case by (rule main_boot_quiet [OF assms(1)])
  next
    case (step y z)
    show ?case by (rule server_step_quiet [OF step.hyps(2) step.IH])
  qed
  then show ?thesis by (simp add: quiet_def idle_def)
qed


section \<open>Concrete systems\<close>

text \<open>A cluster of one node, started as node 0 on the configuration \<open>127.0.0.1:80\<close>.\<close>

definition lone_host :: "(bytes \<rightharpoonup> bytes, nat) host" where
  "lone_host =
     \<lparr>config_file = Some [49, 50, 55, 46, 48, 46, 48, 46, 49, 58, 56, 48, 10], config_mem = True, logfile_fd = 3,
      old_log = [], queue_mem = (Some 0, Some 0, Some 0, Some 0, Some 0),
      kv_opts = Some 1, kv_opened = Some Map.empty, kv_wopts = Some 2, kv_ropts = Some 3,
      client_fds = (4, 5), client_bind = (\<lambda>_ _. True), listen_calls = (True, True, True, True),
      accepts = [], connects = (\<lambda>_. []), fd_open = (\<lambda>_. True), mutexes = (True, True, True),
      wall_clock = 1000, mono_clock = zero_timespec, timeout_junk = sample_timeout, the_heap = empty_heap\<rparr>"

lemma lone_config:
  "\<exists>c. parse_ip_addr (config_file lone_host) True zero_cluster 0 = Inr c \<and> self_id c = 0 \<and> num_nodes c = 1"
  by (simp add: lone_host_def parse_ip_addr_def fsizeof_def fseek0_def parse_loop.simps strtok_lines_def
      is_newline_def parse_line_def P_ADDR_LEN_def strtoul10_def is_space_def is_digit_def decimal_value_def
      inet_pton4_def MAX_NODES_def Let_def set_node_def)

lemma lone_boot:
  "\<exists>x :: (nat, bytes \<rightharpoonup> bytes) system. main_boot [[], [48], []] lone_host = Inr (Some x)"
proof -
  obtain c where c: "parse_ip_addr (config_file lone_host) True zero_cluster 0 = Inr c" "self_id c = 0" "num_nodes c = 1"
    using lone_config by blast
  have id: "strtoll10 [48] = 0"
    by (simp add: strtoll10_def is_space_def is_digit_def decimal_value_def)
  have others: "other_nodes c = []" by (simp add: other_nodes_def c)
  have "init_cluster True True True True [] (\<lambda>_. []) c = Inr (Some c)"
    by (simp add: init_cluster_def others c)
  moreover have "set_cluster_comms_nonblocking (\<lambda>_. True) c = Inr []"
    by (simp add: set_cluster_comms_nonblocking_def others)
  moreover obtain n :: "nat raft_node_t" and h where "raft_init True True True 1000 zero_timespec sample_timeout 0 empty_heap = (Some n, h)"
    by (simp add: raft_init_def h_alloc_def empty_heap_def log_init_def raft_adaptive_init_def
      adaptive_timeout_init_def init_with_config_def zero_node_def command_batcher_init_def Let_def)
  moreover have "init_logfile 3 = Inr 3" by (simp add: init_logfile_def)
  moreover obtain ch where "init_channels (Some 0) (Some 0) (Some 0) (Some 0) (Some (0 :: nat)) \<lparr>q_1_to_3 = zero_queue,
      q_2_to_3 = zero_queue, q_2_to_6 = zero_queue, q_3_to_4 = zero_queue, q_3_to_5 = zero_queue\<rparr> = Inr ch"
    by (simp add: init_channels_def init_channel_def spsc_queue_init_def)
  moreover obtain cl bs where "init_client_listeners 4 5 (\<lambda>_ _. True) 0 = Inr (cl, bs)"
    by (simp add: init_client_listeners_def Let_def)
  ultimately show ?thesis
    using c(1) by (auto simp: main_boot_def id lone_host_def Let_def c(2) MAX_NODES_def split: prod.splits)
qed

text \<open>The server right after it has started, and after a pass of \<open>thread_7\<close>.\<close>

theorem server_never_leads_witness:
  "\<exists>x y :: (nat, bytes \<rightharpoonup> bytes) system. main_boot [[], [48], []] lone_host = Inr (Some x)
    \<and> thread_7_pass (RAFT_RPC_other 4) [0, 0, 0, 0] (srv x) = Inr (srv y)
    \<and> rstate (raft_state (srv y)) = RAFT_STATE_FOLLOWER \<and> responses y = []"
proof -
  obtain x :: "(nat, bytes \<rightharpoonup> bytes) system" where x: "main_boot [[], [48], []] lone_host = Inr (Some x)"
    using lone_boot by blast
  have "\<not> mutex_held (raft_state (srv x))" using main_boot_quiet [OF x] by (simp add: quiet_def idle_def)
  then obtain s' where s': "thread_7_pass (RAFT_RPC_other 4) [0, 0, 0, 0] (srv x) = Inr s'"
    by (cases "rstate (raft_state (srv x)) = RAFT_STATE_LEADER") (auto simp: thread_7_pass_def unlock_node_def Let_def)
  then have "server_reaches careful_submit map_get map_put map_delete (RAFT_RPC_other 4) UNIV x (x\<lparr>srv := s'\<rparr>)"
    unfolding server_reaches_def by (intro r_into_rtranclp thread_7)
  from server_never_leads [OF x this] x s' show ?thesis by (intro exI [of _ x] exI [of _ "x\<lparr>srv := s'\<rparr>"]) simp
qed

text \<open>A follower that receives a batch with one set command from node 0 and applies it.\<close>

definition set_buffer :: cmd_buffer_t where
  "set_buffer = \<lparr>cb_term = 3, cb_log_index = 1, cmds_length = 40, num_cmds = 1, cb_data = kvs_encode sample_set\<rparr>"

definition steady :: outside where
  "steady = all_well\<lparr>log_writes := (Some 48, Some (2 ^ 64), Some 48)\<rparr>"

definition follower_system :: "(nat, bytes \<rightharpoonup> bytes) system" where
  "follower_system = \<lparr>srv = sample_server, to_3_batches = [], to_4 = [], disk_map = empty_store,
     clients = \<lparr>client_socket_recv = 8, clinet_socket_send = 9\<rparr>, responses = []\<rparr>"

definition set_message :: bytes where
  "set_message = msg_bytes [0, 0, 0, 0] (append_message 3 0 0 0 set_buffer)"

lemma set_buffer_sel [simp]:
  "cmds_length set_buffer = 40" "length (cb_data set_buffer) = 40" "cb_data set_buffer = kvs_encode sample_set"
  by (simp_all add: set_buffer_def) (rule sample_set_length)

lemma set_message_wire: "wire_msg set_message" "length set_message = 144"
proof -
  have "length (msg_data (append_message 3 0 0 0 set_buffer)) = 112"
    by (simp add: append_message_def cmd_buffer_bytes_def sample_set_length)
  then show "wire_msg set_message" "length set_message = 144"
    unfolding set_message_def
    by (auto intro!: wire_msg_bytes simp: length_msg_bytes) (simp_all add: append_message_def sample_set_length)
qed

lemma set_message_received:
  "thread_2_receive (replicate 144 0) [Read_bytes set_message] = Inr (Some (set_message, []))"
  using thread_2_receive_whole [OF set_message_wire(1), of "replicate 144 0" "[]"] by (simp add: set_message_wire(2))

lemma set_message_handled:
  "handle_message steady set_message sample_server
   = Inr ((adopt_term 3 sample_server)\<lparr>outbox := [(5, append_response (adopt_term 3 sample_server)
              \<lparr>ar_success = True, ar_log_idx = 1, ar_term = 0\<rparr>)],
            server_log := \<lparr>lf_contents = log_record set_buffer\<rparr>, to_5 := [set_buffer]\<rparr>)"
proof -
  let ?m = "append_message 3 0 0 0 set_buffer" and ?s = "adopt_term 3 sample_server"
  have m: "msg_of_bytes set_message = Inr ?m"
    unfolding set_message_def
    using msg_bytes_roundtrip [of "[0, 0, 0, 0]" ?m "[]"] by (simp add: append_message_def)
  have f: "rpc_type ?m = RAFT_RPC_APPEND_ENTRIES" "msg_term ?m = 3" "sender_node_id ?m = 0"
    by (simp_all add: append_message_def)
  have fd: "node_fd ?s (sender_node_id ?m) = Inr 5" "send_ok steady 5"
    "full_writes (log_writes steady) (unat (cmds_length set_buffer))"
    by (simp_all add: f node_fd_def sample_server_def steady_def all_well_def full_writes_def)
  have fields: "ae_req_prev_log_index (msg_data ?m) = Inr 0" "ae_req_prev_log_term (msg_data ?m) = Inr 0"
    "cmd_buffer_at (msg_data ?m) ae_req_entries_header = Inr set_buffer"
    using append_message_fields [of 3 0 0 0 set_buffer "[]"] by simp_all
  have "cmd_buffer_ok set_buffer" by (simp add: cmd_buffer_ok_def sample_set_length)
  from handle_append_eq [OF _ fields this fd(1,2) _ fd(3)]
  have "handle_append steady ?s ?m = Inr (?s\<lparr>outbox := [(5, append_response ?s \<lparr>ar_success = True, ar_log_idx = 1, ar_term = 0\<rparr>)],
            server_log := \<lparr>lf_contents = log_record set_buffer\<rparr>, to_5 := [set_buffer]\<rparr>)"
    by (simp add: append_answer_def fd(3) Let_def) (simp add: sample_server_def)
  then show ?thesis
    using m f by (simp add: handle_message_def handle_term_eq)
qed

theorem server_log_leads_store_witness:
  "\<exists>y consumed. server_reaches careful_submit map_get map_put map_delete (RAFT_RPC_other 4) {steady} follower_system y
    \<and> lf_contents (server_log (srv y)) = log_record set_buffer \<and> to_5 (srv y) = []
    \<and> lf_contents (server_log (srv y)) = concat (map (log_record) consumed)"
proof -
  obtain s1 where s1: "handle_message steady set_message sample_server = Inr s1"
    "lf_contents (server_log s1) = log_record set_buffer" "to_5 s1 = [set_buffer]"
    using set_message_handled by simp
  let ?x1 = "follower_system\<lparr>srv := s1\<rparr>"
  have "thread_2_event steady [] True (replicate 144 0) [Read_bytes set_message] sample_server
      = Inr (Some (if took_buffer sample_server s1 then [] else set_message, s1))"
    by (simp add: thread_2_event_def set_message_received s1(1))
  then have "server_step careful_submit map_get map_put map_delete (RAFT_RPC_other 4) {steady} follower_system ?x1"
    by (intro server_step.thread_2) (simp_all add: follower_system_def)
  moreover obtain m' out where "thread_5_pass map_put map_delete (send_ok steady) (\<lambda>_. rstate (raft_state s1)) 9 4096 set_buffer empty_store
      = Inr (m', out)"
  proof -
    have "starts_with 4096 (kvs_encode sample_set) ([] @ [sample_set])" "\<forall>c \<in> set [sample_set]. write_ok c"
      using sample_set_length sample_set_wf by (simp_all add: starts_with_def write_ok_def) (simp_all add: sample_set_def)
    from map_store_reliable.thread_5_loop_batch [where ds = "[]" and cs = "[sample_set]" and fd = 9 and sok = "send_ok steady",
      OF this empty_store_ready, of "rstate (raft_state s1)" "[]"] that
    show thesis by (auto simp: thread_5_pass_def sample_set_length steady_def all_well_def CMDBUF_SIZE_def)
  qed
  then have "server_step careful_submit map_get map_put map_delete (RAFT_RPC_other 4) {steady} ?x1
      (?x1\<lparr>srv := s1\<lparr>to_5 := []\<rparr>, disk_map := m', responses := responses ?x1 @ out\<rparr>)"
    using server_step.thread_5 [of steady "{steady}" ?x1 set_buffer "[]" 4096] s1(3)
    by (simp add: follower_system_def sample_set_length)
  ultimately have run: "server_reaches careful_submit map_get map_put map_delete (RAFT_RPC_other 4) {steady} follower_system
      (?x1\<lparr>srv := s1\<lparr>to_5 := []\<rparr>, disk_map := m', responses := responses ?x1 @ out\<rparr>)"
    unfolding server_reaches_def by (rule converse_rtranclp_into_rtranclp [OF _ r_into_rtranclp])
  have "\<forall>w \<in> {steady}. well_served (clinet_socket_send (clients follower_system)) w"
    by (simp add: well_served_def steady_def all_well_def full_writes_def follower_system_def)
  from server_log_leads_store [OF run _ _ map_store_reliable.reliable_rocksdb_axioms _ this] run s1(2)
  show ?thesis
    by (intro exI [of _ "?x1\<lparr>srv := s1\<lparr>to_5 := []\<rparr>, disk_map := m', responses := responses ?x1 @ out\<rparr>"])
      (auto simp: follower_system_def sample_server_def)
qed

end
