(* ===== verification/Server_Handshake.thy ===== *)
theory Server_Handshake
  imports Server_Cluster
begin

text \<open>
  The nodes of a cluster running \<open>init_cluster\<close> together, as a step relation. A node is where its
  program is: not yet listening, waiting in \<open>accept\<close>, reading the id of the peer it accepted,
  calling \<open>connect\<close>, writing its own id, waiting for the answer, or past the handshake. The
  kernel holds for every node the backlog of its listening socket, and for every pair of nodes
  whether the id and the answer have been written to their connection. Every system call that a
  node sees the outcome of is recorded as the outcome \<open>init_cluster\<close> of
  \<open>Server_Cluster\<close> takes, so that the program can be run on what happened to its node.
  The lemmas show that the handshake cannot block, that it takes a fixed number of
  steps, and that the steps are those of the program.
\<close>

section \<open>The nodes and their connections\<close>

datatype hs_pc =
    Hs_off
  | Hs_accept nat
  | Hs_read nat nat int
  | Hs_connect nat
  | Hs_write nat int
  | Hs_wait nat int
  | Hs_done

record handshake =
  hs_pc :: "nat \<Rightarrow> hs_pc"
  backlog :: "nat \<Rightarrow> nat list"
  id_sent :: "nat \<Rightarrow> nat \<Rightarrow> bool"
  ack_sent :: "nat \<Rightarrow> nat \<Rightarrow> bool"
  hs_accepts :: "nat \<Rightarrow> accept_outcome list"
  hs_conns :: "nat \<Rightarrow> nat \<Rightarrow> connect_outcome list"

definition hs_init :: handshake where
  "hs_init = \<lparr>hs_pc = (\<lambda>_. Hs_off), backlog = (\<lambda>_. []), id_sent = (\<lambda>_ _. False),
     ack_sent = (\<lambda>_ _. False), hs_accepts = (\<lambda>_. []), hs_conns = (\<lambda>_ _. [])\<rparr>"

text \<open>Where the two loops of \<open>init_cluster\<close> go next: \<open>k\<close> accepts are left, \<open>j\<close> is the next node to
  connect to.\<close>

definition connect_from :: "nat \<Rightarrow> nat \<Rightarrow> hs_pc" where
  "connect_from n j = (if j < n then Hs_connect j else Hs_done)"

definition accept_from :: "nat \<Rightarrow> nat \<Rightarrow> nat \<Rightarrow> hs_pc" where
  "accept_from n i k = (if 0 < k then Hs_accept k else connect_from n (Suc i))"

definition listening :: "handshake \<Rightarrow> nat \<Rightarrow> bool" where
  "listening s j \<longleftrightarrow> hs_pc s j \<noteq> Hs_off \<and> hs_pc s j \<noteq> Hs_done"

definition note_conn :: "nat \<Rightarrow> nat \<Rightarrow> connect_outcome \<Rightarrow> handshake \<Rightarrow> handshake" where
  "note_conn i j e s = s\<lparr>hs_conns := (hs_conns s)(i := (hs_conns s i)(j := hs_conns s i j @ [e]))\<rparr>"

definition go :: "nat \<Rightarrow> hs_pc \<Rightarrow> handshake \<Rightarrow> handshake" where
  "go i p s = s\<lparr>hs_pc := (hs_pc s)(i := p)\<rparr>"

text \<open>A node is started and listens; it connects, and the kernel of the other node, which was
  told to keep \<open>num_nodes\<close> connections, keeps it until it is accepted; it writes its id; the other
  node accepts a connection, reads the id, writes its own and stores the descriptor; the first
  one reads the answer and stores the descriptor.\<close>

inductive hs_step :: "nat \<Rightarrow> handshake \<Rightarrow> handshake \<Rightarrow> bool" for n where
  start: "\<lbrakk>i < n; hs_pc s i = Hs_off\<rbrakk> \<Longrightarrow> hs_step n s (go i (accept_from n i i) s)"
| connect: "\<lbrakk>i < n; hs_pc s i = Hs_connect j; listening s j; length (backlog s j) < n; 0 \<le> fd\<rbrakk> \<Longrightarrow>
    hs_step n s (go i (Hs_write j fd) (s\<lparr>backlog := (backlog s)(j := backlog s j @ [i])\<rparr>))"
| write_id: "\<lbrakk>i < n; hs_pc s i = Hs_write j fd\<rbrakk> \<Longrightarrow>
    hs_step n s (go i (Hs_wait j fd) (s\<lparr>id_sent := (id_sent s)(i := (id_sent s i)(j := True))\<rparr>))"
| accept: "\<lbrakk>j < n; hs_pc s j = Hs_accept k; backlog s j = i # r; 0 \<le> fd\<rbrakk> \<Longrightarrow>
    hs_step n s (go j (Hs_read k i fd) (s\<lparr>backlog := (backlog s)(j := r)\<rparr>))"
| read_id: "\<lbrakk>j < n; hs_pc s j = Hs_read k i fd; id_sent s i j\<rbrakk> \<Longrightarrow>
    hs_step n s (go j (accept_from n j (k - 1))
      (s\<lparr>ack_sent := (ack_sent s)(i := (ack_sent s i)(j := True)),
         hs_accepts := (hs_accepts s)(j := hs_accepts s j @ [Accepted fd (Some (of_nat i)) True])\<rparr>))"
| read_ack: "\<lbrakk>i < n; hs_pc s i = Hs_wait j fd; ack_sent s i j\<rbrakk> \<Longrightarrow>
    hs_step n s (go i (connect_from n (Suc j)) (note_conn i j (Connected fd True (Some (of_nat j))) s))"

text \<open>While the other node does not listen, \<open>connect\<close> is refused and tried again.\<close>

inductive hs_retry :: "nat \<Rightarrow> handshake \<Rightarrow> handshake \<Rightarrow> bool" for n where
  refused: "\<lbrakk>i < n; hs_pc s i = Hs_connect j; \<not> listening s j\<rbrakk> \<Longrightarrow>
    hs_retry n s (note_conn i j Connect_refused s)"

definition hs_next :: "nat \<Rightarrow> handshake \<Rightarrow> handshake \<Rightarrow> bool" where
  "hs_next n s s' \<longleftrightarrow> hs_step n s s' \<or> hs_retry n s s'"

definition hs_reach :: "nat \<Rightarrow> handshake \<Rightarrow> bool" where
  "hs_reach n s \<longleftrightarrow> (hs_next n)\<^sup>*\<^sup>* hs_init s"

inductive_cases hs_stepE: "hs_step n s s'"
inductive_cases hs_retryE: "hs_retry n s s'"

lemma note_conn_fields [simp]:
  "hs_pc (note_conn i j e s) = hs_pc s" "backlog (note_conn i j e s) = backlog s"
  "id_sent (note_conn i j e s) = id_sent s" "ack_sent (note_conn i j e s) = ack_sent s"
  "hs_accepts (note_conn i j e s) = hs_accepts s"
  "hs_conns (note_conn i j e s) = (hs_conns s)(i := (hs_conns s i)(j := hs_conns s i j @ [e]))"
  by (simp_all add: note_conn_def)

lemma go_fields [simp]:
  "hs_pc (go i p s) = (hs_pc s)(i := p)" "backlog (go i p s) = backlog s"
  "id_sent (go i p s) = id_sent s" "ack_sent (go i p s) = ack_sent s"
  "hs_accepts (go i p s) = hs_accepts s" "hs_conns (go i p s) = hs_conns s"
  by (simp_all add: go_def)

section \<open>The invariant\<close>

text \<open>Node \<open>i\<close> has connected to \<open>j\<close>; it has also read the answer of \<open>j\<close>.\<close>

fun pc_reached :: "hs_pc \<Rightarrow> nat \<Rightarrow> bool" where
  "pc_reached (Hs_connect t) j \<longleftrightarrow> j < t"
| "pc_reached (Hs_write t fd) j \<longleftrightarrow> j \<le> t"
| "pc_reached (Hs_wait t fd) j \<longleftrightarrow> j \<le> t"
| "pc_reached Hs_done j \<longleftrightarrow> True"
| "pc_reached _ j \<longleftrightarrow> False"

fun pc_passed :: "hs_pc \<Rightarrow> nat \<Rightarrow> bool" where
  "pc_passed (Hs_connect t) j \<longleftrightarrow> j < t"
| "pc_passed (Hs_write t fd) j \<longleftrightarrow> j < t"
| "pc_passed (Hs_wait t fd) j \<longleftrightarrow> j < t"
| "pc_passed Hs_done j \<longleftrightarrow> True"
| "pc_passed _ j \<longleftrightarrow> False"

fun pc_reading :: "hs_pc \<Rightarrow> nat list" where
  "pc_reading (Hs_read k i fd) = [i]"
| "pc_reading _ = []"

text \<open>\<open>d\<close> accepts are done.\<close>

fun pc_ok :: "nat \<Rightarrow> nat \<Rightarrow> nat \<Rightarrow> hs_pc \<Rightarrow> bool" where
  "pc_ok n i d Hs_off \<longleftrightarrow> d = 0"
| "pc_ok n i d (Hs_accept k) \<longleftrightarrow> 0 < k \<and> d + k = i"
| "pc_ok n i d (Hs_read k p fd) \<longleftrightarrow> 0 < k \<and> d + k = i \<and> 0 \<le> fd"
| "pc_ok n i d (Hs_connect t) \<longleftrightarrow> d = i \<and> i < t \<and> t < n"
| "pc_ok n i d (Hs_write t fd) \<longleftrightarrow> d = i \<and> i < t \<and> t < n \<and> 0 \<le> fd"
| "pc_ok n i d (Hs_wait t fd) \<longleftrightarrow> d = i \<and> i < t \<and> t < n \<and> 0 \<le> fd"
| "pc_ok n i d Hs_done \<longleftrightarrow> d = i"

fun accepted_id :: "accept_outcome \<Rightarrow> nat" where
  "accepted_id (Accepted fd (Some p) w) = unat p"
| "accepted_id _ = 0"

definition accepted_ids :: "handshake \<Rightarrow> nat \<Rightarrow> nat list" where
  "accepted_ids s j = map accepted_id (hs_accepts s j)"

definition seen_by :: "handshake \<Rightarrow> nat \<Rightarrow> nat list" where
  "seen_by s j = accepted_ids s j @ pc_reading (hs_pc s j) @ backlog s j"

definition node_ok :: "nat \<Rightarrow> handshake \<Rightarrow> nat \<Rightarrow> bool" where
  "node_ok n s j \<longleftrightarrow> pc_ok n j (length (hs_accepts s j)) (hs_pc s j)
     \<and> (hs_pc s j = Hs_off \<longrightarrow> backlog s j = [])
     \<and> distinct (seen_by s j)
     \<and> (\<forall>e \<in> set (hs_accepts s j). \<exists>p fd. e = Accepted fd (Some p) True \<and> 0 \<le> fd \<and> unat p < j)
     \<and> (\<forall>i. i \<in> set (seen_by s j) \<longleftrightarrow> i < j \<and> pc_reached (hs_pc s i) j)"

definition conn_outcomes :: "connect_outcome list \<Rightarrow> bool \<Rightarrow> nat \<Rightarrow> bool" where
  "conn_outcomes es p j \<longleftrightarrow> (\<exists>r fd. 0 \<le> fd \<and>
     es = replicate r Connect_refused @ (if p then [Connected fd True (Some (of_nat j))] else []))"

definition pair_ok :: "handshake \<Rightarrow> nat \<Rightarrow> nat \<Rightarrow> bool" where
  "pair_ok s i j \<longleftrightarrow> (ack_sent s i j \<longleftrightarrow> i \<in> set (accepted_ids s j))
     \<and> (id_sent s i j \<longleftrightarrow> pc_reached (hs_pc s i) j \<and> (\<forall>fd. hs_pc s i \<noteq> Hs_write j fd))
     \<and> (pc_passed (hs_pc s i) j \<longrightarrow> ack_sent s i j)
     \<and> conn_outcomes (hs_conns s i j) (pc_passed (hs_pc s i) j) j"

definition hs_inv :: "nat \<Rightarrow> handshake \<Rightarrow> bool" where
  "hs_inv n s \<longleftrightarrow> (\<forall>j < n. node_ok n s j \<and> (\<forall>i < j. pair_ok s i j))"

lemma hs_inv_init: "hs_inv n hs_init"
  by (auto simp: hs_inv_def hs_init_def node_ok_def pair_ok_def seen_by_def accepted_ids_def conn_outcomes_def)


lemma pc_from [simp]:
  "pc_reading (connect_from n j) = []" "pc_reading (accept_from n i k) = []"
  "connect_from n j \<noteq> Hs_off" "accept_from n i k \<noteq> Hs_off"
  "connect_from n j \<noteq> Hs_write t fd" "accept_from n i k \<noteq> Hs_write t fd"
  by (simp_all add: connect_from_def accept_from_def)

lemma pc_from_reached [simp]:
  "t < n \<Longrightarrow> pc_reached (connect_from n j) t \<longleftrightarrow> t < j"
  "t < n \<Longrightarrow> pc_passed (connect_from n j) t \<longleftrightarrow> t < j"
  "t < n \<Longrightarrow> i < t \<Longrightarrow> \<not> pc_reached (accept_from n i k) t"
  "t < n \<Longrightarrow> i < t \<Longrightarrow> \<not> pc_passed (accept_from n i k) t"
  by (auto simp: connect_from_def accept_from_def)

lemma pc_from_ok:
  "d + k = i \<Longrightarrow> i < n \<Longrightarrow> pc_ok n i d (accept_from n i k)"
  "i < j \<Longrightarrow> pc_ok n i i (connect_from n j)"
  by (auto simp: accept_from_def connect_from_def)

lemma hs_inv_node: "hs_inv n s \<Longrightarrow> j < n \<Longrightarrow> node_ok n s j"
  by (simp add: hs_inv_def)

lemma hs_inv_pair: "hs_inv n s \<Longrightarrow> i < j \<Longrightarrow> j < n \<Longrightarrow> pair_ok s i j"
  by (simp add: hs_inv_def)

lemma hs_inv_pc: "hs_inv n s \<Longrightarrow> j < n \<Longrightarrow> pc_ok n j (length (hs_accepts s j)) (hs_pc s j)"
  by (simp add: hs_inv_def node_ok_def)

lemma hs_inv_seen: "hs_inv n s \<Longrightarrow> j < n \<Longrightarrow> i \<in> set (seen_by s j) \<longleftrightarrow> i < j \<and> pc_reached (hs_pc s i) j"
  by (simp add: hs_inv_def node_ok_def)

lemma hs_invI:
  assumes "\<And>j. j < n \<Longrightarrow> node_ok n s j" and "\<And>i j. i < j \<Longrightarrow> j < n \<Longrightarrow> pair_ok s i j"
  shows "hs_inv n s"
  using assms by (simp add: hs_inv_def)

text \<open>Nodes and pairs a step does not change.\<close>

lemma node_frame:
  assumes "node_ok n s j" "hs_pc s' j = hs_pc s j" "backlog s' j = backlog s j" "hs_accepts s' j = hs_accepts s j"
    and "\<And>i. i < j \<Longrightarrow> pc_reached (hs_pc s' i) j = pc_reached (hs_pc s i) j"
  shows "node_ok n s' j"
  using assms by (auto simp: node_ok_def seen_by_def accepted_ids_def)

lemma pair_frame:
  assumes "pair_ok s i j" "hs_pc s' i = hs_pc s i
      \<or> pc_reached (hs_pc s' i) j = pc_reached (hs_pc s i) j \<and> pc_passed (hs_pc s' i) j = pc_passed (hs_pc s i) j
        \<and> (\<forall>fd. hs_pc s i \<noteq> Hs_write j fd) \<and> (\<forall>fd. hs_pc s' i \<noteq> Hs_write j fd)"
    and "ack_sent s' i j = ack_sent s i j" "id_sent s' i j = id_sent s i j"
    and "i \<in> set (accepted_ids s' j) \<longleftrightarrow> i \<in> set (accepted_ids s j)" "hs_conns s' i j = hs_conns s i j"
  shows "pair_ok s' i j"
  using assms unfolding pair_ok_def by (elim disjE conjE) simp_all

lemma inv_start:
  assumes "hs_inv n s" "i < n" "hs_pc s i = Hs_off"
  shows "hs_inv n (go i (accept_from n i i) s)" (is "hs_inv n ?s")
proof (rule hs_invI)
  fix j assume j: "j < n"
  note ok = hs_inv_node [OF assms(1) j]
  show "node_ok n ?s j"
  proof (cases "j = i")
    case True
    with ok assms(2,3) show ?thesis
      by (auto simp: node_ok_def seen_by_def accepted_ids_def pc_from_ok)
  next
    case False
    with j assms(3) show ?thesis by (intro node_frame [OF ok]) auto
  qed
next
  fix k j assume "k < j" "j < n"
  with assms(3) show "pair_ok ?s k j"
    by (intro pair_frame [OF hs_inv_pair [OF assms(1)]]) (auto simp: accepted_ids_def)
qed

lemma inv_connect:
  assumes "hs_inv n s" "i < n" "hs_pc s i = Hs_connect j" "listening s j" "0 \<le> fd"
  shows "hs_inv n (go i (Hs_write j fd) (s\<lparr>backlog := (backlog s)(j := backlog s j @ [i])\<rparr>))" (is "hs_inv n ?s")
proof (rule hs_invI)
  have ij: "i < j" "j < n" using hs_inv_pc [OF assms(1,2)] assms(3) by auto
  fix k assume k: "k < n"
  note ok = hs_inv_node [OF assms(1) k]
  show "node_ok n ?s k"
  proof (cases "k = j")
    case True
    have "i \<notin> set (seen_by s j)" using hs_inv_seen [OF assms(1) ij(2)] assms(3) by simp
    moreover have "seen_by ?s j = seen_by s j @ [i]" using ij by (simp add: seen_by_def accepted_ids_def)
    moreover have "pc_reached (hs_pc ?s p) j \<longleftrightarrow> pc_reached (hs_pc s p) j \<or> p = i" for p
      using assms(3) by auto
    ultimately show ?thesis
      using ok ij assms(4) True unfolding node_ok_def by (auto simp: listening_def)
  next
    case False
    then show ?thesis
    proof (cases "k = i")
      case True
      with ok ij assms(3,5) show ?thesis by (auto simp: node_ok_def seen_by_def accepted_ids_def)
    next
      case other: False
      with False assms(3) show ?thesis by (intro node_frame [OF ok]) auto
    qed
  qed
next
  have ij: "i < j" "j < n" using hs_inv_pc [OF assms(1,2)] assms(3) by auto
  fix p k assume pk: "p < k" "k < n"
  show "pair_ok ?s p k"
  proof (cases "p = i \<and> k = j")
    case True
    with hs_inv_pair [OF assms(1) pk] assms(3) show ?thesis by (auto simp: pair_ok_def accepted_ids_def)
  next
    case False
    with assms(3) show ?thesis
      by (intro pair_frame [OF hs_inv_pair [OF assms(1) pk]]) (auto simp: accepted_ids_def)
  qed
qed

lemma inv_write_id:
  assumes "hs_inv n s" "i < n" "hs_pc s i = Hs_write j fd"
  shows "hs_inv n (go i (Hs_wait j fd) (s\<lparr>id_sent := (id_sent s)(i := (id_sent s i)(j := True))\<rparr>))" (is "hs_inv n ?s")
proof (rule hs_invI)
  fix k assume k: "k < n"
  note ok = hs_inv_node [OF assms(1) k]
  show "node_ok n ?s k"
  proof (cases "k = i")
    case True
    with ok assms(3) show ?thesis by (auto simp: node_ok_def seen_by_def accepted_ids_def)
  next
    case False
    with assms(3) show ?thesis by (intro node_frame [OF ok]) auto
  qed
next
  fix p k assume pk: "p < k" "k < n"
  show "pair_ok ?s p k"
  proof (cases "p = i \<and> k = j")
    case True
    with hs_inv_pair [OF assms(1) pk] assms(3) show ?thesis by (auto simp: pair_ok_def accepted_ids_def)
  next
    case False
    with assms(3) show ?thesis
      by (intro pair_frame [OF hs_inv_pair [OF assms(1) pk]]) (auto simp: accepted_ids_def)
  qed
qed

lemma inv_accept:
  assumes "hs_inv n s" "j < n" "hs_pc s j = Hs_accept k" "backlog s j = i # r" "0 \<le> fd"
  shows "hs_inv n (go j (Hs_read k i fd) (s\<lparr>backlog := (backlog s)(j := r)\<rparr>))" (is "hs_inv n ?s")
proof (rule hs_invI)
  fix p assume p: "p < n"
  note ok = hs_inv_node [OF assms(1) p]
  show "node_ok n ?s p"
  proof (cases "p = j")
    case True
    have "seen_by ?s j = seen_by s j" using assms(3,4) by (simp add: seen_by_def accepted_ids_def)
    with ok assms(3-5) True show ?thesis by (auto simp: node_ok_def)
  next
    case False
    with assms(3) show ?thesis by (intro node_frame [OF ok]) auto
  qed
next
  fix p q assume pq: "p < q" "q < n"
  show "pair_ok ?s p q"
    using assms(3) by (intro pair_frame [OF hs_inv_pair [OF assms(1) pq]]) (auto simp: accepted_ids_def)
qed

lemma inv_read_id:
  assumes "hs_inv n s" "n < 256" "j < n" "hs_pc s j = Hs_read k i fd" "id_sent s i j"
  shows "hs_inv n (go j (accept_from n j (k - 1))
      (s\<lparr>ack_sent := (ack_sent s)(i := (ack_sent s i)(j := True)),
         hs_accepts := (hs_accepts s)(j := hs_accepts s j @ [Accepted fd (Some (of_nat i)) True])\<rparr>))" (is "hs_inv n ?s")
proof (rule hs_invI)
  have "i \<in> set (seen_by s j)" using assms(4) by (simp add: seen_by_def)
  then have ij: "i < j" using hs_inv_seen [OF assms(1,3)] by simp
  then have u: "unat (of_nat i :: u8) = i" using assms(2,3) by (simp add: unat_of_nat)
  fix p assume p: "p < n"
  note ok = hs_inv_node [OF assms(1) p]
  show "node_ok n ?s p"
  proof (cases "p = j")
    case True
    have "seen_by ?s j = seen_by s j" using assms(4) u by (simp add: seen_by_def accepted_ids_def)
    with ok assms(3,4) True ij u show ?thesis by (auto simp: node_ok_def intro!: pc_from_ok(1))
  next
    case False
    with p assms(4) show ?thesis by (intro node_frame [OF ok]) auto
  qed
next
  have "i \<in> set (seen_by s j)" using assms(4) by (simp add: seen_by_def)
  then have ij: "i < j" using hs_inv_seen [OF assms(1,3)] by simp
  then have u: "unat (of_nat i :: u8) = i" using assms(2,3) by (simp add: unat_of_nat)
  fix p q assume pq: "p < q" "q < n"
  show "pair_ok ?s p q"
  proof (cases "p = i \<and> q = j")
    case True
    with hs_inv_pair [OF assms(1) pq] ij u assms(4) show ?thesis by (auto simp: pair_ok_def accepted_ids_def)
  next
    case False
    with u pq assms(4) show ?thesis
      by (intro pair_frame [OF hs_inv_pair [OF assms(1) pq]]) (auto simp: accepted_ids_def)
  qed
qed

lemma inv_read_ack:
  assumes "hs_inv n s" "i < n" "hs_pc s i = Hs_wait j fd" "ack_sent s i j"
  shows "hs_inv n (go i (connect_from n (Suc j)) (note_conn i j (Connected fd True (Some (of_nat j))) s))" (is "hs_inv n ?s")
proof (rule hs_invI)
  have ij: "i < j" "j < n" "0 \<le> fd" using hs_inv_pc [OF assms(1,2)] assms(3) by auto
  fix k assume k: "k < n"
  note ok = hs_inv_node [OF assms(1) k]
  show "node_ok n ?s k"
  proof (cases "k = i")
    case True
    with ok ij assms(3) show ?thesis by (auto simp: node_ok_def seen_by_def accepted_ids_def pc_from_ok)
  next
    case False
    with k assms(3) show ?thesis by (intro node_frame [OF ok]) auto
  qed
next
  have ij: "i < j" "j < n" "0 \<le> fd" using hs_inv_pc [OF assms(1,2)] assms(3) by auto
  fix p k assume pk: "p < k" "k < n"
  show "pair_ok ?s p k"
  proof (cases "p = i \<and> k = j")
    case True
    with hs_inv_pair [OF assms(1) pk] assms(3,4) ij show ?thesis
      by (auto simp: pair_ok_def accepted_ids_def conn_outcomes_def)
  next
    case False
    with pk assms(3) show ?thesis
      by (intro pair_frame [OF hs_inv_pair [OF assms(1) pk]]) (auto simp: accepted_ids_def)
  qed
qed

lemma conn_outcomes_refused:
  assumes "conn_outcomes es False j"
  shows "conn_outcomes (es @ [Connect_refused]) False j"
proof -
  obtain r where "es = replicate r Connect_refused" using assms by (auto simp: conn_outcomes_def)
  then have "es @ [Connect_refused] = replicate (Suc r) Connect_refused" by (simp add: replicate_append_same)
  then show ?thesis unfolding conn_outcomes_def by (intro exI [of _ "Suc r"] exI [of _ 0]) simp
qed

lemma inv_refused:
  assumes "hs_inv n s" "i < n" "hs_pc s i = Hs_connect j"
  shows "hs_inv n (note_conn i j Connect_refused s)" (is "hs_inv n ?s")
proof (rule hs_invI)
  fix k assume k: "k < n"
  show "node_ok n ?s k" by (rule node_frame [OF hs_inv_node [OF assms(1) k]]) simp_all
next
  fix p k assume pk: "p < k" "k < n"
  show "pair_ok ?s p k"
  proof (cases "p = i \<and> k = j")
    case True
    with hs_inv_pair [OF assms(1) pk] assms(3) show ?thesis
      by (simp add: pair_ok_def accepted_ids_def conn_outcomes_refused)
  next
    case False
    with pk assms(3) show ?thesis
      by (intro pair_frame [OF hs_inv_pair [OF assms(1) pk]]) (auto simp: accepted_ids_def)
  qed
qed

lemma hs_inv_step:
  assumes "hs_step n s s'" "n < 256" "hs_inv n s"
  shows "hs_inv n s'"
  using assms(1)
proof (cases rule: hs_step.cases)
  case (start i)
  then show ?thesis using inv_start [OF assms(3)] by simp
next
  case (connect i j fd)
  then show ?thesis using inv_connect [OF assms(3)] by simp
next
  case (write_id i j fd)
  then show ?thesis using inv_write_id [OF assms(3)] by simp
next
  case (accept j k i r fd)
  then show ?thesis using inv_accept [OF assms(3)] by simp
next
  case (read_id j k i fd)
  then show ?thesis using inv_read_id [OF assms(3,2)] by simp
next
  case (read_ack i j fd)
  then show ?thesis using inv_read_ack [OF assms(3)] by simp
qed

lemma hs_inv_next: "hs_next n s s' \<Longrightarrow> n < 256 \<Longrightarrow> hs_inv n s \<Longrightarrow> hs_inv n s'"
  unfolding hs_next_def by (auto elim: hs_inv_step hs_retryE intro: inv_refused)

lemma hs_reach_inv:
  assumes "hs_reach n s" "n < 256"
  shows "hs_inv n s"
  using assms(1) unfolding hs_reach_def
  by (induction rule: rtranclp_induct) (auto intro: hs_inv_init hs_inv_next assms(2))

section \<open>The handshake always completes\<close>

text \<open>The steps node \<open>i\<close> has left.\<close>

fun pc_left :: "nat \<Rightarrow> nat \<Rightarrow> hs_pc \<Rightarrow> nat" where
  "pc_left n i Hs_off = 1 + 2 * i + 3 * (n - Suc i)"
| "pc_left n i (Hs_accept k) = 2 * k + 3 * (n - Suc i)"
| "pc_left n i (Hs_read k p fd) = 2 * k - 1 + 3 * (n - Suc i)"
| "pc_left n i (Hs_connect t) = 3 * (n - t)"
| "pc_left n i (Hs_write t fd) = 3 * (n - t) - 1"
| "pc_left n i (Hs_wait t fd) = 3 * (n - t) - 2"
| "pc_left n i Hs_done = 0"

definition steps_left :: "nat \<Rightarrow> handshake \<Rightarrow> nat" where
  "steps_left n s = (\<Sum>i<n. pc_left n i (hs_pc s i))"

definition all_done :: "nat \<Rightarrow> handshake \<Rightarrow> bool" where
  "all_done n s \<longleftrightarrow> (\<forall>i<n. hs_pc s i = Hs_done)"

definition all_started :: "nat \<Rightarrow> handshake \<Rightarrow> bool" where
  "all_started n s \<longleftrightarrow> (\<forall>i<n. hs_pc s i \<noteq> Hs_off)"

lemma pc_left_from [simp]:
  "pc_left n i (connect_from n j) = 3 * (n - j)"
  "pc_left n i (accept_from n i k) = 2 * k + 3 * (n - Suc i)"
  by (simp_all add: connect_from_def accept_from_def)

lemma steps_left_one:
  assumes "i < n" "pc_left n i (hs_pc s i) = Suc (pc_left n i (hs_pc s' i))"
    and "\<forall>j. j \<noteq> i \<longrightarrow> hs_pc s' j = hs_pc s j"
  shows "steps_left n s = Suc (steps_left n s')"
proof -
  have "i \<in> {..<n}" using assms(1) by simp
  then have "steps_left n t = pc_left n i (hs_pc t i) + (\<Sum>j \<in> {..<n} - {i}. pc_left n j (hs_pc t j))" for t
    unfolding steps_left_def by (simp add: sum.remove)
  moreover have "(\<Sum>j \<in> {..<n} - {i}. pc_left n j (hs_pc s' j)) = (\<Sum>j \<in> {..<n} - {i}. pc_left n j (hs_pc s j))"
    using assms(3) by (intro sum.cong) auto
  ultimately show ?thesis using assms(2) by simp
qed

lemma steps_left_step:
  assumes "hs_step n s s'" "hs_inv n s"
  shows "steps_left n s = Suc (steps_left n s')"
  using assms(1)
proof (cases rule: hs_step.cases)
  case (start i)
  then show ?thesis by (intro steps_left_one [of i]) auto
next
  case (connect i j fd)
  with hs_inv_pc [OF assms(2), of i] show ?thesis by (intro steps_left_one [of i]) auto
next
  case (write_id i j fd)
  with hs_inv_pc [OF assms(2), of i] show ?thesis by (intro steps_left_one [of i]) auto
next
  case (accept j k i r fd)
  with hs_inv_pc [OF assms(2), of j] show ?thesis by (intro steps_left_one [of j]) auto
next
  case (read_id j k i fd)
  with hs_inv_pc [OF assms(2), of j] show ?thesis by (intro steps_left_one [of j]) auto
next
  case (read_ack i j fd)
  with hs_inv_pc [OF assms(2), of i] show ?thesis by (intro steps_left_one [of i]) auto
qed

lemma steps_left_0: "steps_left n s = 0 \<longleftrightarrow> (\<forall>i<n. pc_left n i (hs_pc s i) = 0)"
  by (auto simp: steps_left_def)

lemma pc_left_0:
  assumes "pc_ok n i d p"
  shows "pc_left n i p = 0 \<longleftrightarrow> p = Hs_done"
  using assms by (cases p) auto

lemma steps_left_all_done:
  assumes "hs_inv n s"
  shows "steps_left n s = 0 \<longleftrightarrow> all_done n s"
  using pc_left_0 [OF hs_inv_pc [OF assms]] by (auto simp: steps_left_0 all_done_def)

lemma steps_left_init: "2 * steps_left n hs_init = 5 * n * n - 3 * n"
proof -
  have "2 * (\<Sum>i<m. 1 + 2 * i + 3 * (n - Suc i)) + m * m + 3 * m = 6 * n * m" if "m \<le> n" for m
    using that
  proof (induction m)
    case (Suc m)
    moreover obtain d where "n = Suc m + d" using Suc.prems le_Suc_ex by blast
    ultimately show ?case by (simp add: algebra_simps)
  qed simp
  from this [of n] show ?thesis by (simp add: steps_left_def hs_init_def algebra_simps)
qed

text \<open>A connecting node waits for a node that has not finished: it is in the backlog, or the node
  has all its accepts still to come.\<close>

lemma connecting_not_done:
  assumes "hs_inv n s" "i < j" "j < n" "\<not> pc_passed (hs_pc s i) j \<and> \<not> ack_sent s i j"
  shows "hs_pc s j \<noteq> Hs_done \<and> length (hs_accepts s j) < j"
proof -
  have "i \<notin> set (accepted_ids s j)" using hs_inv_pair [OF assms(1-3)] assms(4) by (simp add: pair_ok_def)
  moreover have "set (accepted_ids s j) \<subseteq> {..<j}"
    using hs_inv_node [OF assms(1,3)] by (auto simp: node_ok_def seen_by_def)
  ultimately have "set (accepted_ids s j) \<subset> {..<j}" using assms(2) by auto
  then have "card (set (accepted_ids s j)) < j" using psubset_card_mono [of "{..<j}"] by simp
  moreover have "distinct (accepted_ids s j)"
    using hs_inv_node [OF assms(1,3)] by (simp add: node_ok_def seen_by_def)
  ultimately have "length (hs_accepts s j) < j"
    using distinct_card [of "accepted_ids s j"] by (simp add: accepted_ids_def)
  moreover have "pc_ok n j (length (hs_accepts s j)) (hs_pc s j)" by (rule hs_inv_pc [OF assms(1,3)])
  ultimately show ?thesis by auto
qed

lemma backlog_room:
  assumes "hs_inv n s" "j < n"
  shows "length (backlog s j) < n"
proof -
  have "set (backlog s j) \<subseteq> {..<j}" and d: "distinct (backlog s j)"
    using hs_inv_node [OF assms] by (auto simp: node_ok_def seen_by_def)
  then have "card (set (backlog s j)) \<le> j" using card_mono [of "{..<j}" "set (backlog s j)"] by simp
  with distinct_card [OF d] assms(2) show ?thesis by simp
qed

text \<open>A node with accepts to come and a peer it has not answered never blocks the others.\<close>

lemma accepting_step:
  assumes "hs_inv n s" "i < j" "j < n" "pc_reached (hs_pc s i) j" "\<not> ack_sent s i j"
    and "length (hs_accepts s j) < j"
  shows "\<exists>s'. hs_step n s s'"
proof -
  have ok: "pc_ok n j (length (hs_accepts s j)) (hs_pc s j)" by (rule hs_inv_pc [OF assms(1,3)])
  then consider (off) "hs_pc s j = Hs_off" | (accept) k where "hs_pc s j = Hs_accept k"
    | (read) k p fd where "hs_pc s j = Hs_read k p fd"
    using assms(6) by (cases "hs_pc s j") auto
  then show ?thesis
  proof cases
    case off
    then show ?thesis using hs_step.start [OF assms(3)] by blast
  next
    case (accept k)
    have "i \<in> set (seen_by s j)" using hs_inv_seen [OF assms(1,3)] assms(2,4) by simp
    moreover have "i \<notin> set (accepted_ids s j)" using hs_inv_pair [OF assms(1-3)] assms(5) by (simp add: pair_ok_def)
    ultimately have "i \<in> set (backlog s j)" using accept by (simp add: seen_by_def)
    then obtain p r where "backlog s j = p # r" by (cases "backlog s j") auto
    then show ?thesis using hs_step.accept [OF assms(3) accept, of p r 0] by blast
  next
    case (read k p fd)
    have "p \<in> set (seen_by s j)" using read by (simp add: seen_by_def)
    then have p: "p < j" "pc_reached (hs_pc s p) j" using hs_inv_seen [OF assms(1,3)] by simp_all
    show ?thesis
    proof (cases "id_sent s p j")
      case True
      then show ?thesis using hs_step.read_id [OF assms(3) read] by blast
    next
      case False
      with hs_inv_pair [OF assms(1) p(1) assms(3)] p(2) obtain fd' where "hs_pc s p = Hs_write j fd'"
        by (auto simp: pair_ok_def)
      then show ?thesis using hs_step.write_id [of p n s j fd'] p(1) assms(3) by auto
    qed
  qed
qed

lemma listening_or_step: "hs_pc s t \<noteq> Hs_done \<Longrightarrow> t < n \<Longrightarrow> listening s t \<or> (\<exists>s'. hs_step n s s')"
  using hs_step.start [of t n s] by (auto simp: listening_def)

text \<open>The node of least id that is not past the handshake, or one it waits for, can make a step.\<close>

lemma least_node_step:
  assumes "hs_inv n s" "i < n" "hs_pc s i \<noteq> Hs_done" "\<forall>p < i. hs_pc s p = Hs_done"
  shows "\<exists>s'. hs_step n s s'"
proof (cases "length (hs_accepts s i) < i")
  case True
  then have "card (set (accepted_ids s i)) < i"
    using card_length [of "accepted_ids s i"] by (simp add: accepted_ids_def)
  then have "\<not> {..<i} \<subseteq> set (accepted_ids s i)" using card_mono [of "set (accepted_ids s i)" "{..<i}"] by auto
  then obtain p where p: "p < i" "p \<notin> set (accepted_ids s i)" by auto
  then have "\<not> ack_sent s p i" using hs_inv_pair [OF assms(1) p(1) assms(2)] by (simp add: pair_ok_def)
  then show ?thesis using accepting_step [OF assms(1) p(1) assms(2)] True assms(4) p(1) by simp
next
  case False
  note ok = hs_inv_pc [OF assms(1,2)]
  with False assms(3) consider (off) "hs_pc s i = Hs_off" | (connect) t where "hs_pc s i = Hs_connect t" "i < t" "t < n"
    | (writing) t fd where "hs_pc s i = Hs_write t fd" | (wait) t fd where "hs_pc s i = Hs_wait t fd" "i < t" "t < n"
    by (cases "hs_pc s i") auto
  then show ?thesis
  proof cases
    case off
    then show ?thesis using hs_step.start [OF assms(2)] by blast
  next
    case (connect t)
    then have "\<not> ack_sent s i t"
      using hs_inv_pair [OF assms(1) connect(2,3)] hs_inv_seen [OF assms(1) connect(3), of i]
      by (auto simp: pair_ok_def seen_by_def)
    with connect connecting_not_done [OF assms(1) connect(2,3)] have "hs_pc s t \<noteq> Hs_done" by simp
    from listening_or_step [OF this connect(3)] show ?thesis
      using hs_step.connect [OF assms(2) connect(1) _ backlog_room [OF assms(1) connect(3)], of 0] by blast
  next
    case (writing t fd)
    then show ?thesis using hs_step.write_id [OF assms(2)] by blast
  next
    case (wait t fd)
    show ?thesis
    proof (cases "ack_sent s i t")
      case True
      then show ?thesis using hs_step.read_ack [OF assms(2) wait(1)] by blast
    next
      case False
      with wait connecting_not_done [OF assms(1) wait(2,3)] show ?thesis
        using accepting_step [OF assms(1) wait(2,3)] by simp
    qed
  qed
qed

lemma handshake_progress:
  assumes "hs_inv n s" "\<not> all_done n s"
  shows "\<exists>s'. hs_step n s s'"
proof -
  define i where "i = (LEAST i. i < n \<and> hs_pc s i \<noteq> Hs_done)"
  have "\<exists>i. i < n \<and> hs_pc s i \<noteq> Hs_done" using assms(2) by (auto simp: all_done_def)
  then have i: "i < n \<and> hs_pc s i \<noteq> Hs_done" unfolding i_def by (rule LeastI_ex)
  moreover have "hs_pc s p = Hs_done" if "p < i" for p
    using not_less_Least [of p "\<lambda>i. i < n \<and> hs_pc s i \<noteq> Hs_done"] that i by (auto simp: i_def)
  ultimately show ?thesis using least_node_step [OF assms(1)] by blast
qed

lemma no_retry_when_started:
  assumes "hs_inv n s" "all_started n s"
  shows "\<not> hs_retry n s s'"
proof
  assume "hs_retry n s s'"
  then obtain i t where i: "i < n" "hs_pc s i = Hs_connect t" "\<not> listening s t" by (auto elim: hs_retryE)
  then have t: "i < t" "t < n" using hs_inv_pc [OF assms(1) i(1)] by simp_all
  have "\<not> ack_sent s i t"
    using hs_inv_pair [OF assms(1) t] hs_inv_seen [OF assms(1) t(2), of i] i(2) by (auto simp: pair_ok_def seen_by_def)
  with i connecting_not_done [OF assms(1) t] assms(2) t(2) show False
    by (auto simp: listening_def all_started_def)
qed

lemma started_step: "hs_step n s s' \<Longrightarrow> all_started n s \<Longrightarrow> all_started n s'"
  by (auto elim!: hs_stepE simp: all_started_def split: if_splits)

lemma started_run:
  assumes "(hs_next n ^^ k) s s'" "hs_inv n s" "all_started n s" "n < 256"
  shows "hs_inv n s' \<and> all_started n s' \<and> steps_left n s = k + steps_left n s'"
  using assms(1)
proof (induction k arbitrary: s')
  case 0
  with assms(2,3) show ?case by simp
next
  case (Suc k)
  then obtain t where t: "(hs_next n ^^ k) s t" "hs_next n t s'" by auto
  with Suc.IH have i: "hs_inv n t" "all_started n t" "steps_left n s = k + steps_left n t" by simp_all
  with t(2) no_retry_when_started have "hs_step n t s'" by (auto simp: hs_next_def)
  with i steps_left_step hs_inv_step started_step assms(4) show ?case by fastforce
qed

text \<open>C6: once every node of the cluster has been started, in whatever order and however far
  the first ones have come, the handshake ends: no attempt to connect is refused any more, every
  run takes exactly the same number of further steps, it can always go on until it has taken
  them, and then every node has left \<open>init_cluster\<close>. No order of connections, accepts,
  reads and writes makes the nodes wait for each other.\<close>

theorem handshake_terminates:
  assumes "hs_reach n s" "n < 256" "all_started n s" "(hs_next n ^^ k) s s'"
  shows "k \<le> steps_left n s \<and> (all_done n s' \<longleftrightarrow> k = steps_left n s)
    \<and> (k < steps_left n s \<longrightarrow> (\<exists>s''. hs_next n s' s''))"
proof -
  have run: "hs_inv n s' \<and> steps_left n s = k + steps_left n s'"
    using started_run [OF assms(4) hs_reach_inv [OF assms(1,2)] assms(3,2)] by simp
  moreover have "steps_left n s' \<noteq> 0 \<longrightarrow> (\<exists>s''. hs_next n s' s'')"
    using handshake_progress [of n s'] run steps_left_all_done [of n s'] by (auto simp: hs_next_def)
  ultimately show ?thesis using steps_left_all_done [of n s'] by auto
qed

text \<open>Two nodes that have both been started go through the whole handshake in five steps.\<close>

definition two_started :: handshake where
  "two_started = go 1 (accept_from 2 1 1) (go 0 (accept_from 2 0 0) hs_init)"

lemma two_started_reach: "hs_reach 2 two_started" "all_started 2 two_started" "steps_left 2 two_started = 5"
proof -
  let ?s = "go 0 (accept_from 2 0 0) hs_init"
  have "hs_next 2 hs_init ?s" "hs_next 2 ?s two_started"
    unfolding hs_next_def two_started_def
    by (auto intro!: hs_step.start simp: hs_init_def)
  then show "hs_reach 2 two_started" unfolding hs_reach_def by (meson rtranclp.simps)
  show "all_started 2 two_started" by (simp add: all_started_def two_started_def)
  show "steps_left 2 two_started = 5"
    by (simp add: steps_left_def two_started_def numeral_2_eq_2)
qed

theorem handshake_terminates_witness: "\<exists>s'. (hs_next 2 ^^ 5) two_started s' \<and> all_done 2 s'"
proof -
  have run: "\<exists>s'. (hs_next 2 ^^ k) two_started s'" if "k \<le> 5" for k
    using that
  proof (induction k)
    case 0
    then show ?case by auto
  next
    case (Suc k)
    then obtain s' where s': "(hs_next 2 ^^ k) two_started s'" by auto
    with Suc.prems obtain s'' where "hs_next 2 s' s''"
      using handshake_terminates [OF two_started_reach(1) _ two_started_reach(2) s'] two_started_reach(3) by auto
    with s' show ?case by (auto intro: relcomppI)
  qed
  obtain s' where s': "(hs_next 2 ^^ 5) two_started s'" using run [of 5] by auto
  then show ?thesis
    using handshake_terminates [OF two_started_reach(1) _ two_started_reach(2) s'] two_started_reach(3) by auto
qed

section \<open>The handshake runs the program\<close>

lemma accept_loop_short: "length ps < m \<Longrightarrow> accept_loop m (incoming ps) c = Inr None"
proof (induction ps arbitrary: m c)
  case Nil
  then show ?case by (cases m) (simp_all add: incoming_def)
next
  case (Cons p ps)
  then show ?case by (cases m; cases p) (auto simp: incoming_def)
qed

lemma connect_node_refused: "connect_node j (replicate r Connect_refused) c = Inr None"
  by (induction r) simp_all

lemma connect_loop_append:
  "connect_loop (is @ js) conns c = bindr (connect_loop is conns c) (\<lambda>r.
     case r of None \<Rightarrow> Inr None | Some c' \<Rightarrow> connect_loop js conns c')"
  by (induction "is" arbitrary: c) (auto simp: bindr_def split: sum.splits option.splits)

lemma connect_loop_cong: "\<forall>j \<in> set is. f j = g j \<Longrightarrow> connect_loop is f c = connect_loop is g c"
  by (induction "is" arbitrary: c) (auto simp: bindr_def split: sum.splits option.splits)

lemma incoming_cons: "incoming ((p, fd) # ps) = Accepted fd (Some p) True # incoming ps"
  by (simp add: incoming_def)

lemma accepts_incoming:
  assumes "node_ok n s j"
  shows "\<exists>ps. hs_accepts s j = incoming ps \<and> map (unat \<circ> fst) ps = accepted_ids s j \<and> (\<forall>p \<in> set ps. 0 \<le> snd p)"
proof -
  have "\<exists>ps. es = incoming ps \<and> map (unat \<circ> fst) ps = map accepted_id es \<and> (\<forall>p \<in> set ps. 0 \<le> snd p)"
    if "\<forall>e \<in> set es. \<exists>p fd. e = Accepted fd (Some p) True \<and> 0 \<le> fd \<and> unat p < j" for es
    using that
  proof (induction es)
    case (Cons e es)
    then obtain ps where "es = incoming ps \<and> map (unat \<circ> fst) ps = map accepted_id es \<and> (\<forall>p \<in> set ps. 0 \<le> snd p)"
      by (metis list.set_intros(2))
    moreover obtain p fd where "e = Accepted fd (Some p) True" "0 \<le> fd" using Cons.prems by auto
    ultimately have "e # es = incoming ((p, fd) # ps)
        \<and> map (unat \<circ> fst) ((p, fd) # ps) = map accepted_id (e # es) \<and> (\<forall>p \<in> set ((p, fd) # ps). 0 \<le> snd p)"
      by (metis accepted_id.simps(1) comp_apply fst_conv incoming_cons list.simps(9) set_ConsD snd_conv)
    then show ?case by blast
  qed (simp add: incoming_def)
  with assms show ?thesis by (auto simp: node_ok_def accepted_ids_def)
qed

lemma conns_outgoing:
  assumes "hs_inv n s" "i < n"
  shows "\<exists>r fd. (\<forall>j. 0 \<le> fd j) \<and> (\<forall>j. i < j \<and> j < n \<longrightarrow>
     hs_conns s i j = (if pc_passed (hs_pc s i) j then outgoing r fd j else replicate (r j) Connect_refused))"
proof -
  have "\<forall>j. \<exists>p. 0 \<le> snd p \<and> (i < j \<and> j < n \<longrightarrow> hs_conns s i j = replicate (fst p) Connect_refused
      @ (if pc_passed (hs_pc s i) j then [Connected (snd p) True (Some (of_nat j))] else []))"
  proof
    fix j
    show "\<exists>p. 0 \<le> snd p \<and> (i < j \<and> j < n \<longrightarrow> hs_conns s i j = replicate (fst p) Connect_refused
      @ (if pc_passed (hs_pc s i) j then [Connected (snd p) True (Some (of_nat j))] else []))"
    proof (cases "i < j \<and> j < n")
      case True
      with hs_inv_pair [OF assms(1), of i j] obtain r fd where "0 \<le> fd" "hs_conns s i j = replicate r Connect_refused
          @ (if pc_passed (hs_pc s i) j then [Connected fd True (Some (of_nat j))] else [])"
        by (auto simp: pair_ok_def conn_outcomes_def)
      then show ?thesis by (intro exI [of _ "(r, fd)"]) simp
    qed (auto intro: exI [of _ "(0, 0)"])
  qed
  from choice [OF this] obtain f where f: "\<And>j. 0 \<le> snd (f j) \<and> (i < j \<and> j < n \<longrightarrow>
      hs_conns s i j = replicate (fst (f j)) Connect_refused
      @ (if pc_passed (hs_pc s i) j then [Connected (snd (f j)) True (Some (of_nat j))] else []))" by blast
  show ?thesis
    by (intro exI [of _ "fst \<circ> f"] exI [of _ "snd \<circ> f"]) (use f in \<open>simp add: outgoing_def\<close>)
qed

lemma connecting_waits:
  assumes "i < t" "t < n" "n < 256"
    and "\<forall>j. i < j \<and> j < n \<longrightarrow> conns j = (if j < t then outgoing r fd j else replicate (r j) Connect_refused)"
  shows "connect_loop [i + 1..<n] conns c = Inr None"
proof -
  have "[i + 1..<n] = [i + 1..<t] @ t # [t + 1..<n]"
    using assms(1,2) upt_add_eq_append [of "i + 1" t "n - t"] upt_conv_Cons [of t n] by simp
  moreover have "connect_loop [i + 1..<t] conns c = connect_loop [i + 1..<t] (outgoing r fd) c"
    using assms by (intro connect_loop_cong) auto
  moreover have "\<forall>j \<in> set [i + 1..<t]. j < 256" using assms(2,3) by auto
  ultimately show ?thesis
    using assms by (simp only: connect_loop_append connect_loop_outgoing) (simp add: connect_node_refused)
qed

lemma not_done_waits:
  assumes inv: "hs_inv n s" and i: "i < n" "n < 256"
    and c: "unat (self_id c) = i" "unat (num_nodes c) = n"
    and pc: "hs_pc s i \<noteq> Hs_off" "hs_pc s i \<noteq> Hs_done"
  shows "init_cluster True True True True (hs_accepts s i) (hs_conns s i) c = Inr None"
proof -
  have ok: "node_ok n s i" by (rule hs_inv_node [OF inv i(1)])
  have self: "self_id c < num_nodes c" using c i(1) by (simp add: word_less_nat_alt)
  have turns: "length (filter (\<lambda>k. k < i) (other_nodes c)) = i" using expected_incoming [OF self] c(1) by simp
  obtain ps where ps: "hs_accepts s i = incoming ps" using accepts_incoming [OF ok] by blast
  then have len: "length (hs_accepts s i) = length ps" by (simp add: incoming_def)
  obtain r fd where conns: "\<forall>j. i < j \<and> j < n \<longrightarrow>
     hs_conns s i j = (if pc_passed (hs_pc s i) j then outgoing r fd j else replicate (r j) Connect_refused)"
    using conns_outgoing [OF inv i(1)] by blast
  consider "length ps < i" | t where "length ps = i" "i < t" "t < n" "\<forall>j. pc_passed (hs_pc s i) j \<longleftrightarrow> j < t"
    using hs_inv_pc [OF inv i(1)] pc len by (cases "hs_pc s i") auto
  then show ?thesis
  proof cases
    case 1
    then show ?thesis
      by (simp add: init_cluster_def Let_def turns c ps accept_loop_short)
  next
    case 2
    have "connect_loop [i + 1..<n] (hs_conns s i) c' = Inr None" for c'
      by (rule connecting_waits [OF 2(2,3) i(2), of _ r fd]) (use conns 2(4) in simp)
    moreover have "accept_loop i (incoming ps) c = Inr (Some (foldl take_in c ps))"
      using accept_loop_incoming [of ps c] 2(1) by simp
    ultimately show ?thesis
      by (simp add: init_cluster_def Let_def turns c ps)
  qed
qed

lemma done_connects:
  assumes inv: "hs_inv n s" and i: "i < n" "n < 256"
    and c: "unat (self_id c) = i" "unat (num_nodes c) = n" "n \<le> length (node_fds c)" "\<forall>j < n. node_fds c ! j = -1"
    and pc: "hs_pc s i = Hs_done"
  shows "\<exists>c'. init_cluster True True True True (hs_accepts s i) (hs_conns s i) c = Inr (Some c')
    \<and> set_cluster_comms_nonblocking (\<lambda>_. True) c' = Inr (map (\<lambda>j. node_fds c' ! j) (other_nodes c))"
proof -
  have ok: "node_ok n s i" by (rule hs_inv_node [OF inv i(1)])
  have self: "self_id c < num_nodes c" using c(1,2) i(1) by (simp add: word_less_nat_alt)
  have turns: "length (filter (\<lambda>k. k < i) (other_nodes c)) = i" using expected_incoming [OF self] c(1) by simp
  obtain ps where ps: "hs_accepts s i = incoming ps" "map (unat \<circ> fst) ps = accepted_ids s i" "\<forall>p \<in> set ps. 0 \<le> snd p"
    using accepts_incoming [OF ok] by blast
  obtain r fd where conns: "\<forall>j. 0 \<le> fd j" "\<forall>j. i < j \<and> j < n \<longrightarrow> hs_conns s i j = outgoing r fd j"
    using conns_outgoing [OF inv i(1)] pc by auto
  have len: "length ps = unat (self_id c)" "distinct (accepted_ids s i)" "set (accepted_ids s i) \<subseteq> {..<i}"
    using ok pc ps(1) c(1) by (auto simp: node_ok_def seen_by_def incoming_def)
  moreover have "length (accepted_ids s i) = length ps" using arg_cong [OF ps(2), of length] by simp
  ultimately have "set (accepted_ids s i) = {..<i}"
    using c(1) by (intro card_subset_eq) (simp_all add: distinct_card)
  then have "(unat \<circ> fst) ` set ps = {..<i}" using arg_cong [OF ps(2), of set] by simp
  then have all: "\<forall>j < unat (self_id c). of_nat j \<in> fst ` set ps"
  proof (intro allI impI)
    fix j assume "j < unat (self_id c)"
    then have "j \<in> (unat \<circ> fst) ` set ps" using c(1) \<open>(unat \<circ> fst) ` set ps = {..<i}\<close> by simp
    then obtain p where "p \<in> set ps" "j = unat (fst p)" by auto
    then show "of_nat j \<in> fst ` set ps" by simp
  qed
  have "connect_loop [i + 1..<n] (hs_conns s i) c' = connect_loop [i + 1..<n] (outgoing r fd) c'" for c'
    using conns(2) by (intro connect_loop_cong) auto
  then have "init_cluster True True True True (hs_accepts s i) (hs_conns s i) c
      = init_cluster True True True True (incoming ps) (outgoing r fd) c"
    using accept_loop_incoming [of ps c] len(1)
    by (simp add: init_cluster_def Let_def turns c ps(1))
  with init_cluster_result [OF self _ _ len(1) ps(3) conns(1), of r] c(2-4) all show ?thesis by auto
qed

text \<open>C12: the steps of the handshake are those of the program. Take a node that has been
  started, at any moment of any run of the cluster, and run \<open>init_cluster\<close> on the outcomes its
  system calls have had so far: it is still waiting exactly when the node is not past the
  handshake, and otherwise it has returned, with a descriptor for every other node, so that
  \<open>set_cluster_comms_nonblocking\<close> succeeds. In particular no node of a cluster without
  strangers and system failures ends the program.\<close>

theorem handshake_runs_init_cluster:
  assumes "hs_reach n s" "n < 256" "i < n" "hs_pc s i \<noteq> Hs_off"
    and "unat (self_id c) = i" "unat (num_nodes c) = n" "n \<le> length (node_fds c)" "\<forall>j < n. node_fds c ! j = -1"
  shows "if hs_pc s i = Hs_done
    then \<exists>c'. init_cluster True True True True (hs_accepts s i) (hs_conns s i) c = Inr (Some c')
      \<and> set_cluster_comms_nonblocking (\<lambda>_. True) c' = Inr (map (\<lambda>j. node_fds c' ! j) (other_nodes c))
    else init_cluster True True True True (hs_accepts s i) (hs_conns s i) c = Inr None"
proof -
  have inv: "hs_inv n s" by (rule hs_reach_inv [OF assms(1,2)])
  then show ?thesis
    using done_connects [OF inv assms(3,2,5,6,7,8)] not_done_waits [OF inv assms(3,2,5,6,4)] by simp
qed

text \<open>The second of two nodes that have just been started.\<close>

theorem handshake_runs_init_cluster_witness:
  "init_cluster True True True True (hs_accepts two_started 1) (hs_conns two_started 1) (three_nodes\<lparr>num_nodes := 2\<rparr>) = Inr None"
proof -
  have "hs_pc two_started 1 = Hs_accept 1" by (simp add: two_started_def accept_from_def)
  then show ?thesis
    using handshake_runs_init_cluster [OF two_started_reach(1), of 1 "three_nodes\<lparr>num_nodes := 2\<rparr>"]
    by (simp add: three_nodes_def)
qed

end
