(* ===== verification/Server_Interleave.thy ===== *)
theory Server_Interleave
  imports Server_Main "HOL-Library.Sublist"
begin

text \<open>
  The path of a write through the server, one access to shared data at a time: \<open>thread_2\<close>
  and \<open>thread_3\<close> append a batch to the log file (one \<open>lseek\<close> and three \<open>write\<close>s
  on a descriptor they share) and put it into the queue \<open>_3_to_5\<close>; \<open>thread_5\<close> takes the
  batches from the queue, applies their commands to the store and answers the clients. No lock is
  held on this path except around the reading of the node's state, so any thread may run between two accesses of
  another. With one of the two producers the log leads the store and the store the answers at every
  moment. The batches the producers get and the moments they get them are not restricted here: the
  guards of \<open>thread_2\<close> (term, role, matching logs) and of \<open>thread_3\<close> (leader, quorum) are part of
  the models of their passes, so this model has all the runs of the program on this path, and more.
\<close>

section \<open>The log file behind its descriptor\<close>

text \<open>\<open>init_logfile\<close> opens the file without \<open>O_APPEND\<close>: the threads share the descriptor and
  its offset, and a \<open>write\<close> goes where the offset is. Writing past the end leaves zeros.\<close>

record open_file =
  of_log :: logfile_t
  of_offset :: nat

definition overwrite :: "nat \<Rightarrow> bytes \<Rightarrow> bytes \<Rightarrow> bytes" where
  "overwrite off bs old =
     (if bs = [] then old
      else take off old @ replicate (off - length old) 0 @ bs @ drop (off + length bs) old)"

definition seek_end :: "open_file \<Rightarrow> int \<times> open_file" where
  "seek_end f = (let off = length (lf_contents (of_log f)) in (to_int32 off, f\<lparr>of_offset := off\<rparr>))"

definition write_here :: "write_outcome \<Rightarrow> bytes \<Rightarrow> open_file \<Rightarrow> int \<times> open_file" where
  "write_here w bs f =
     (case w of None \<Rightarrow> (-1, f)
      | Some k \<Rightarrow>
          (to_int32 (min k (length bs)),
           \<lparr>of_log = (of_log f)\<lparr>lf_contents := overwrite (of_offset f) (take k bs) (lf_contents (of_log f))\<rparr>,
            of_offset = of_offset f + min k (length bs)\<rparr>))"

section \<open>The producers\<close>

text \<open>Where \<open>thread_2\<close> or \<open>thread_3\<close> is with its batch: inside
  \<open>logfile_append_data\<close>, before its \<open>lseek\<close> or one of its writes, or before the
  \<open>spsc_queue_enqueue\<close> that follows.\<close>

datatype append_pc =
    No_batch
  | At_seek cmd_buffer_t
  | At_header cmd_buffer_t
  | At_payload cmd_buffer_t
  | At_trailer cmd_buffer_t
  | At_enqueue cmd_buffer_t

fun append_step ::
  "write_outcome \<Rightarrow> open_file \<times> cmd_buffer_t list \<Rightarrow> append_pc
    \<Rightarrow> ((open_file \<times> cmd_buffer_t list) \<times> append_pc) res" where
  "append_step w (f, q) No_batch = Inr ((f, q), No_batch)"
| "append_step w (f, q) (At_seek cb) =
     (let (res, f') = seek_end f in
      bindr (assert_c (res \<ge> 0)) (\<lambda>_. Inr ((f', q), At_header cb)))"
| "append_step w (f, q) (At_header cb) =
     (let (res, f') = write_here w (header_bytes (logfile_header cb)) f in
      bindr (assert_c (res \<ge> 0)) (\<lambda>_. Inr ((f', q), At_payload cb)))"
| "append_step w (f, q) (At_payload cb) =
     bindr (rd_bytes (cb_data cb) 0 (unat (kh_data_length (logfile_header cb)))) (\<lambda>payload.
     let (res, f') = write_here w payload f in
     bindr (assert_c (res \<ge> 0)) (\<lambda>_. Inr ((f', q), At_trailer cb)))"
| "append_step w (f, q) (At_trailer cb) =
     (let (res, f') = write_here w (header_bytes (logfile_header cb)) f in
      bindr (assert_c (res \<ge> 0)) (\<lambda>_. Inr ((f', q), At_enqueue cb)))"
| "append_step w (f, q) (At_enqueue cb) = Inr ((f, q @ [cb]), No_batch)"

section \<open>The consumer\<close>

text \<open>\<open>thread_5\<close>: waiting for a batch, at the head of its loop with the offset of a command, or
  after the store has the command and before the state of the node is read. \<open>base\<close> is the
  address of the data of the buffer.\<close>

datatype store_pc =
    Waiting
  | At_command u64 cmd_buffer_t nat
  | At_answer u64 cmd_buffer_t nat u64 kvs_op_t

fun store_step ::
  "'db rput \<Rightarrow> 'db rdelete \<Rightarrow> bool \<Rightarrow> int \<Rightarrow> raft_state_t \<Rightarrow> 'db kv_store_t \<times> (bytes \<times> bytes) list \<Rightarrow> store_pc
    \<Rightarrow> (('db kv_store_t \<times> (bytes \<times> bytes) list) \<times> store_pc) res" where
  "store_step rput rdelete sok fd st (s, out) Waiting = Inr ((s, out), Waiting)"
| "store_step rput rdelete sok fd st (s, out) (At_command base cb off) =
     (let len = unat (cmds_length cb) in
      if off < len then
        bindr (check_write (cb_data cb) off (len - off)) (\<lambda>_.
        bindr (kvs_command_len base (cb_data cb) off) (\<lambda>cmd_len.
        bindr (store_write rput rdelete base (cb_data cb) off s) (\<lambda>(type, s').
          Inr ((s', out), At_answer base cb off cmd_len type))))
      else bindr (assert_c (off = len)) (\<lambda>_. Inr ((s, out), Waiting)))"
| "store_step rput rdelete sok fd st (s, out) (At_answer base cb off cmd_len type) =
     bindr (if st = RAFT_STATE_LEADER
            then bindr (kvs_return_addr (cb_data cb) off) (\<lambda>addr.
                 bindr (resp_to_client sok fd addr (write_response type)) (\<lambda>m. Inr (out @ [m])))
            else Inr out) (\<lambda>out'.
       Inr ((s, out'), At_command base cb (off + unat cmd_len)))"

section \<open>The path of a write\<close>

datatype producer = Thread_2 | Thread_3

record 'db write_path =
  wp_file :: open_file
  wp_queue :: "cmd_buffer_t list"
  wp_append :: "producer \<Rightarrow> append_pc"
  wp_store :: "'db kv_store_t"
  wp_reader :: store_pc
  wp_role :: raft_state_t
  wp_answers :: "(bytes \<times> bytes) list"

text \<open>One access to shared data. \<open>T\<close> are the producers that run, \<open>B\<close> the batches they may
  get (\<open>get_batch\<close> stands for all that comes before the append, without its guards),
  \<open>W\<close> the outcomes of writes; the state of the node may change at any time. A step that
  aborts has no successor.\<close>

inductive path_step ::
  "'db rput \<Rightarrow> 'db rdelete \<Rightarrow> bool \<Rightarrow> int \<Rightarrow> producer set \<Rightarrow> cmd_buffer_t set \<Rightarrow> write_outcome set
    \<Rightarrow> 'db write_path \<Rightarrow> 'db write_path \<Rightarrow> bool"
  for rput rdelete sok fd T B W where
  get_batch: "t \<in> T \<Longrightarrow> cb \<in> B \<Longrightarrow> wp_append x t = No_batch
    \<Longrightarrow> path_step rput rdelete sok fd T B W x (x\<lparr>wp_append := (wp_append x)(t := At_seek cb)\<rparr>)"
| append: "t \<in> T \<Longrightarrow> w \<in> W \<Longrightarrow> append_step w (wp_file x, wp_queue x) (wp_append x t) = Inr ((f', q'), pc')
    \<Longrightarrow> path_step rput rdelete sok fd T B W x
         (x\<lparr>wp_file := f', wp_queue := q', wp_append := (wp_append x)(t := pc')\<rparr>)"
| dequeue: "wp_reader x = Waiting \<Longrightarrow> wp_queue x = cb # cbs \<Longrightarrow> cmds_length cb \<le> CMDBUF_SIZE
    \<Longrightarrow> unat base mod 8 = 0 \<Longrightarrow> unat base + length (cb_data cb) < 2 ^ 64
    \<Longrightarrow> path_step rput rdelete sok fd T B W x (x\<lparr>wp_queue := cbs, wp_reader := At_command base cb 0\<rparr>)"
| store: "store_step rput rdelete sok fd (wp_role x) (wp_store x, wp_answers x) (wp_reader x) = Inr ((s', out'), pc')
    \<Longrightarrow> path_step rput rdelete sok fd T B W x (x\<lparr>wp_store := s', wp_answers := out', wp_reader := pc'\<rparr>)"
| role: "path_step rput rdelete sok fd T B W x (x\<lparr>wp_role := r\<rparr>)"

definition path_reaches ::
  "'db rput \<Rightarrow> 'db rdelete \<Rightarrow> bool \<Rightarrow> int \<Rightarrow> producer set \<Rightarrow> cmd_buffer_t set \<Rightarrow> write_outcome set
    \<Rightarrow> 'db write_path \<Rightarrow> 'db write_path \<Rightarrow> bool" where
  "path_reaches rput rdelete sok fd T B W = (path_step rput rdelete sok fd T B W)\<^sup>*\<^sup>*"

text \<open>Nothing is under way.\<close>

definition path_quiet :: "'db write_path \<Rightarrow> bool" where
  "path_quiet x \<longleftrightarrow> (\<forall>t. wp_append x t = No_batch) \<and> wp_queue x = [] \<and> wp_reader x = Waiting"

section \<open>A pass is one of the interleavings\<close>

lemma overwrite_end [simp]: "overwrite (length old) bs old = old @ bs"
  by (simp add: overwrite_def)

text \<open>A file whose offset is at its end.\<close>

abbreviation at_end :: "logfile_t \<Rightarrow> open_file" where
  "at_end lf \<equiv> \<lparr>of_log = lf, of_offset = length (lf_contents lf)\<rparr>"

lemma write_at_end: "write_here w bs (at_end lf) = (case lf_write w bs lf of (r, lf') \<Rightarrow> (r, at_end lf'))"
  by (cases w) (simp_all add: write_here_def lf_write_def)

lemma seek_to_end: "seek_end f = (to_int32 (length (lf_contents (of_log f))), at_end (of_log f))"
  by (cases f) (simp add: seek_end_def Let_def)

text \<open>A producer that nobody disturbs.\<close>

definition append_alone ::
  "write_outcome \<times> write_outcome \<times> write_outcome \<Rightarrow> open_file \<times> cmd_buffer_t list \<Rightarrow> cmd_buffer_t
    \<Rightarrow> ((open_file \<times> cmd_buffer_t list) \<times> append_pc) res" where
  "append_alone ws fq cb =
     (case ws of (w1, w2, w3) \<Rightarrow>
       bindr (append_step w1 fq (At_seek cb)) (\<lambda>(fq1, pc1).
       bindr (append_step w1 fq1 pc1) (\<lambda>(fq2, pc2).
       bindr (append_step w2 fq2 pc2) (\<lambda>(fq3, pc3).
       bindr (append_step w3 fq3 pc3) (\<lambda>(fq4, pc4).
         append_step w3 fq4 pc4)))))"

lemma append_alone_eq:
  "append_alone ws (f, q) cb
   = bindr (logfile_append_data ws (of_log f) cb) (\<lambda>lf. Inr ((at_end lf, q @ [cb]), No_batch))"
proof -
  obtain w1 w2 w3 where ws: "ws = (w1, w2, w3)" by (cases ws)
  let ?h = "header_bytes (logfile_header cb)"
  obtain r1 lf1 where h: "lf_write w1 ?h (of_log f) = (r1, lf1)" by fastforce
  show ?thesis
  proof (cases "rd_bytes (cb_data cb) 0 (unat (kh_data_length (logfile_header cb)))")
    case (Inl e)
    then show ?thesis
      unfolding ws by (simp add: append_alone_def logfile_append_data_def seek_to_end write_at_end h assert_c_def)
  next
    case (Inr payload)
    obtain r2 lf2 where p: "lf_write w2 payload lf1 = (r2, lf2)" by fastforce
    obtain r3 lf3 where t: "lf_write w3 ?h lf2 = (r3, lf3)" by fastforce
    show ?thesis
      unfolding ws
      by (simp add: append_alone_def logfile_append_data_def seek_to_end write_at_end h Inr p t assert_c_def)
  qed
qed

text \<open>A consumer that nobody disturbs, and the answers it had given before.\<close>

definition store_moves ::
  "'db rput \<Rightarrow> 'db rdelete \<Rightarrow> bool \<Rightarrow> int \<Rightarrow> ('db kv_store_t \<times> (bytes \<times> bytes) list) \<times> store_pc
    \<Rightarrow> ('db kv_store_t \<times> (bytes \<times> bytes) list) \<times> store_pc \<Rightarrow> bool" where
  "store_moves rput rdelete sok fd = (\<lambda>a b. \<exists>r. store_step rput rdelete sok fd r (fst a) (snd a) = Inr b)\<^sup>*\<^sup>*"

lemma store_moves_step:
  "store_step rput rdelete sok fd r s pc = Inr b \<Longrightarrow> store_moves rput rdelete sok fd b c
    \<Longrightarrow> store_moves rput rdelete sok fd (s, pc) c"
  unfolding store_moves_def by (erule converse_rtranclp_into_rtranclp [rotated]) auto

lemma store_moves_refl [simp]: "store_moves rput rdelete sok fd a a"
  by (simp add: store_moves_def)

text \<open>One turn of the loop of \<open>thread_5\<close>.\<close>

lemma thread_5_loop_turn:
  assumes "thread_5_loop rput rdelete sok st fd base bs len off s out = Inr (n, s', out')" "off < len"
  obtains k t s1 out1 where "check_write bs off (len - off) = Inr ()" "kvs_command_len base bs off = Inr k"
    "store_write rput rdelete base bs off s = Inr (t, s1)"
    "(if st off = RAFT_STATE_LEADER
      then bindr (kvs_return_addr bs off) (\<lambda>addr.
           bindr (resp_to_client (sok fd) fd addr (write_response t)) (\<lambda>m. Inr (out @ [m])))
      else Inr out) = Inr out1"
    "thread_5_loop rput rdelete sok st fd base bs len (off + unat k) s1 out1 = Inr (n, s', out')"
  using assms unfolding thread_5_loop.simps [of rput rdelete sok st fd base bs len off s out] by auto

text \<open>Its two accesses: the store, and the state of the node with the answer.\<close>

lemma store_moves_turn:
  assumes "off < unat (cmds_length cb)" "check_write (cb_data cb) off (unat (cmds_length cb) - off) = Inr ()"
    and "kvs_command_len base (cb_data cb) off = Inr k" "store_write rput rdelete base (cb_data cb) off s = Inr (t, s1)"
    and "(if r = RAFT_STATE_LEADER
      then bindr (kvs_return_addr (cb_data cb) off) (\<lambda>addr.
           bindr (resp_to_client sok fd addr (write_response t)) (\<lambda>m. Inr (out @ [m])))
      else Inr out) = Inr out1"
  shows "store_moves rput rdelete sok fd ((s, pre @ out), At_command base cb off)
    ((s1, pre @ out1), At_command base cb (off + unat k))"
proof -
  have "store_step rput rdelete sok fd r (s, pre @ out) (At_command base cb off)
      = Inr ((s1, pre @ out), At_answer base cb off k t)"
    using assms(1-4) by simp
  moreover have "store_step rput rdelete sok fd r (s1, pre @ out) (At_answer base cb off k t)
      = Inr ((s1, pre @ out1), At_command base cb (off + unat k))"
    using assms(5) by (auto split: if_splits)
  ultimately show ?thesis
    using store_moves_step store_moves_refl by metis
qed

lemma thread_5_loop_moves:
  "thread_5_loop rput rdelete (\<lambda>_. sok) st fd base (cb_data cb) (unat (cmds_length cb)) off s out
     = Inr (unat (cmds_length cb), s', out')
   \<Longrightarrow> store_moves rput rdelete sok fd ((s, pre @ out), At_command base cb off) ((s', pre @ out'), Waiting)"
proof (induction "unat (cmds_length cb) - off" arbitrary: off s out rule: less_induct)
  case less
  show ?case
  proof (cases "off < unat (cmds_length cb)")
    case False
    with less.prems have "off = unat (cmds_length cb)" "s' = s" "out' = out"
      by (simp_all add: thread_5_loop.simps [of _ _ _ _ _ _ _ _ off])
    then have "store_step rput rdelete sok fd r (s, pre @ out) (At_command base cb off) = Inr ((s', pre @ out'), Waiting)" for r
      by (simp add: Let_def)
    then show ?thesis by (rule store_moves_step) simp
  next
    case True
    from thread_5_loop_turn [OF less.prems this] obtain k t s1 out1
      where c: "check_write (cb_data cb) off (unat (cmds_length cb) - off) = Inr ()"
          "kvs_command_len base (cb_data cb) off = Inr k" "store_write rput rdelete base (cb_data cb) off s = Inr (t, s1)"
        and answer: "(if st off = RAFT_STATE_LEADER
          then bindr (kvs_return_addr (cb_data cb) off) (\<lambda>addr.
               bindr (resp_to_client sok fd addr (write_response t)) (\<lambda>m. Inr (out @ [m])))
          else Inr out) = Inr out1"
        and run: "thread_5_loop rput rdelete (\<lambda>_. sok) st fd base (cb_data cb) (unat (cmds_length cb)) (off + unat k) s1 out1
          = Inr (unat (cmds_length cb), s', out')" .
    have "store_moves rput rdelete sok fd ((s1, pre @ out1), At_command base cb (off + unat k)) ((s', pre @ out'), Waiting)"
      using less.hyps [OF _ run] kvs_command_len_pos [OF c(2)] True by simp
    with store_moves_turn [OF True c answer, of pre] show ?thesis
      unfolding store_moves_def by (rule rtranclp_trans)
  qed
qed

lemma path_reaches_refl [simp]: "path_reaches rput rdelete sok fd T B W x x"
  by (simp add: path_reaches_def)

lemma path_reaches_step:
  "path_step rput rdelete sok fd T B W x y \<Longrightarrow> path_reaches rput rdelete sok fd T B W y z
    \<Longrightarrow> path_reaches rput rdelete sok fd T B W x z"
  unfolding path_reaches_def by (rule converse_rtranclp_into_rtranclp)

lemma path_reaches_trans [trans]:
  "path_reaches rput rdelete sok fd T B W x y \<Longrightarrow> path_reaches rput rdelete sok fd T B W y z
    \<Longrightarrow> path_reaches rput rdelete sok fd T B W x z"
  unfolding path_reaches_def by (rule rtranclp_trans)

text \<open>A producer with a batch at \<open>pc\<close>, the file at \<open>f\<close>.\<close>

definition put_append :: "producer \<Rightarrow> append_pc \<Rightarrow> open_file \<Rightarrow> 'db write_path \<Rightarrow> 'db write_path" where
  "put_append t pc f x = x\<lparr>wp_file := f, wp_append := (wp_append x)(t := pc)\<rparr>"

lemma put_append_fields [simp]:
  "wp_file (put_append t pc f x) = f" "wp_append (put_append t pc f x) = (wp_append x)(t := pc)"
  "wp_queue (put_append t pc f x) = wp_queue x" "wp_store (put_append t pc f x) = wp_store x"
  "wp_reader (put_append t pc f x) = wp_reader x" "wp_role (put_append t pc f x) = wp_role x"
  "wp_answers (put_append t pc f x) = wp_answers x"
  "put_append t pc' f' (put_append t pc f x) = put_append t pc' f' x"
  by (simp_all add: put_append_def)

lemma put_append_same [simp]: "put_append t (wp_append x t) (wp_file x) x = x"
  by (simp add: put_append_def)

lemma path_append:
  assumes "t \<in> T" "w \<in> W" "append_step w (wp_file x, wp_queue x) (wp_append x t) = Inr ((f', wp_queue x), pc')"
  shows "path_step rput rdelete sok fd T B W x (put_append t pc' f' x)"
  using path_step.append [OF assms] by (simp add: put_append_def)

text \<open>A producer runs up to its queue, then puts the batch there.\<close>

lemma path_logs:
  assumes "t \<in> T" "cb \<in> B" "w1 \<in> W" "w2 \<in> W" "w3 \<in> W" "wp_append x t = No_batch"
    and "logfile_append_data (w1, w2, w3) (of_log (wp_file x)) cb = Inr lf"
  shows "path_reaches rput rdelete sok fd T B W x (put_append t (At_enqueue cb) (at_end lf) x)"
proof -
  let ?h = "header_bytes (logfile_header cb)" and ?f = "of_log (wp_file x)"
  obtain r1 lf1 where h: "lf_write w1 ?h ?f = (r1, lf1)" by fastforce
  with assms(7) obtain payload r2 lf2 r3 where c: "0 \<le> to_int32 (length (lf_contents ?f))" "0 \<le> r1"
      "rd_bytes (cb_data cb) 0 (unat (kh_data_length (logfile_header cb))) = Inr payload"
      "lf_write w2 payload lf1 = (r2, lf2)" "0 \<le> r2" "lf_write w3 ?h lf2 = (r3, lf)" "0 \<le> r3"
    by (fastforce simp: logfile_append_data_def Let_def assert_c_def split: prod.splits if_splits)
  let ?S = "path_step rput rdelete sok fd T B W"
  have "?S x (put_append t (At_seek cb) (wp_file x) x)"
    using path_step.get_batch [OF assms(1,2,6)] by (simp add: put_append_def)
  moreover have "?S (put_append t (At_seek cb) (wp_file x) x) (put_append t (At_header cb) (at_end ?f) x)"
    using path_append [OF assms(1,3), of "put_append t (At_seek cb) (wp_file x) x"] c(1)
    by (simp add: seek_to_end assert_c_def)
  moreover have "?S (put_append t (At_header cb) (at_end ?f) x) (put_append t (At_payload cb) (at_end lf1) x)"
    using path_append [OF assms(1,3), of "put_append t (At_header cb) (at_end ?f) x"] h c(2)
    by (simp add: write_at_end assert_c_def)
  moreover have "?S (put_append t (At_payload cb) (at_end lf1) x) (put_append t (At_trailer cb) (at_end lf2) x)"
    using path_append [OF assms(1,4), of "put_append t (At_payload cb) (at_end lf1) x"] c(3-5)
    by (simp add: write_at_end assert_c_def)
  moreover have "?S (put_append t (At_trailer cb) (at_end lf2) x) (put_append t (At_enqueue cb) (at_end lf) x)"
    using path_append [OF assms(1,5), of "put_append t (At_trailer cb) (at_end lf2) x"] c(6,7)
    by (simp add: write_at_end assert_c_def)
  ultimately show ?thesis
    by (meson path_reaches_refl path_reaches_step)
qed

lemma path_enqueue:
  assumes "t \<in> T" "w \<in> W" "wp_append x t = At_enqueue cb"
  shows "path_step rput rdelete sok fd T B W x (x\<lparr>wp_queue := wp_queue x @ [cb], wp_append := (wp_append x)(t := No_batch)\<rparr>)"
  using path_step.append [OF assms(1,2), of x "wp_file x" "wp_queue x @ [cb]" No_batch] assms(3) by simp

text \<open>The consumer at \<open>pc\<close> with the store and the answers in \<open>so\<close>.\<close>

definition put_reader :: "('db kv_store_t \<times> (bytes \<times> bytes) list) \<times> store_pc \<Rightarrow> 'db write_path \<Rightarrow> 'db write_path" where
  "put_reader a x = x\<lparr>wp_store := fst (fst a), wp_answers := snd (fst a), wp_reader := snd a\<rparr>"

lemma path_store_moves:
  assumes "store_moves rput rdelete sok fd a b"
  shows "path_reaches rput rdelete sok fd T B W (put_reader a x) (put_reader b x)"
  using assms unfolding store_moves_def
proof (induction rule: rtranclp_induct)
  case base
  show ?case by simp
next
  case (step b c)
  then obtain r where "store_step rput rdelete sok fd r (fst b) (snd b) = Inr c" by blast
  then have "path_step rput rdelete sok fd T B W ((put_reader b x)\<lparr>wp_role := r\<rparr>) ((put_reader c x)\<lparr>wp_role := r\<rparr>)"
    using path_step.store [of rput rdelete sok fd "(put_reader b x)\<lparr>wp_role := r\<rparr>" "fst (fst c)" "snd (fst c)" "snd c"]
    by (cases x) (simp add: put_reader_def)
  moreover have "path_step rput rdelete sok fd T B W (put_reader b x) ((put_reader b x)\<lparr>wp_role := r\<rparr>)"
    by (rule path_step.role)
  moreover have "path_step rput rdelete sok fd T B W ((put_reader c x)\<lparr>wp_role := r\<rparr>) (put_reader c x)"
    using path_step.role [of rput rdelete sok fd T B W "(put_reader c x)\<lparr>wp_role := r\<rparr>" "wp_role x"]
    by (simp add: put_reader_def)
  ultimately show ?case
    using step.IH by (meson path_reaches_refl path_reaches_step path_reaches_trans)
qed

lemma path_applies:
  assumes "wp_reader x = Waiting" "wp_queue x = cb # cbs" "unat base mod 8 = 0" "unat base + length (cb_data cb) < 2 ^ 64"
    and "thread_5_pass rput rdelete (\<lambda>_. sok) st fd base cb (wp_store x) = Inr (s', out)"
  shows "path_reaches rput rdelete sok fd T B W x (x\<lparr>wp_queue := cbs, wp_store := s', wp_answers := wp_answers x @ out\<rparr>)"
proof -
  from assms(5) have len: "cmds_length cb \<le> CMDBUF_SIZE"
    and run: "thread_5_loop rput rdelete (\<lambda>_. sok) st fd base (cb_data cb) (unat (cmds_length cb)) 0 (wp_store x) []
      = Inr (unat (cmds_length cb), s', out)"
    by (auto simp: thread_5_pass_def assert_c_def split: if_splits)
  have "path_step rput rdelete sok fd T B W x
      (put_reader ((wp_store x, wp_answers x @ []), At_command base cb 0) (x\<lparr>wp_queue := cbs\<rparr>))"
    using path_step.dequeue [OF assms(1,2) len assms(3,4)] by (simp add: put_reader_def)
  moreover have "put_reader ((s', wp_answers x @ out), Waiting) (x\<lparr>wp_queue := cbs\<rparr>)
      = x\<lparr>wp_queue := cbs, wp_store := s', wp_answers := wp_answers x @ out\<rparr>"
    using assms(1) by (simp add: put_reader_def)
  ultimately show ?thesis
    using path_store_moves [OF thread_5_loop_moves [OF run], of _ _ _ "wp_answers x" "x\<lparr>wp_queue := cbs\<rparr>"]
    by (metis path_reaches_step)
qed

text \<open>The passes of the threads are among the interleavings. When nothing is under way, a
  producer that appends a batch to the log as \<open>logfile_append_data\<close> does, and the pass of
  \<open>thread_5\<close> on that batch, whatever states of the node it reads, are a path of single accesses
  to shared data that ends in the same log, store and answers.\<close>

theorem passes_are_paths:
  assumes "t \<in> T" "cb \<in> B" "{w1, w2, w3} \<subseteq> W" "path_quiet x" "unat base mod 8 = 0" "unat base + length (cb_data cb) < 2 ^ 64"
    and "logfile_append_data (w1, w2, w3) (of_log (wp_file x)) cb = Inr lf"
    and "thread_5_pass rput rdelete (\<lambda>_. sok) st fd base cb (wp_store x) = Inr (s', out)"
  shows "path_reaches rput rdelete sok fd T B W x
    (x\<lparr>wp_file := \<lparr>of_log = lf, of_offset = length (lf_contents lf)\<rparr>, wp_store := s', wp_answers := wp_answers x @ out\<rparr>)"
proof -
  have x: "wp_append x t = No_batch" "wp_queue x = []" "wp_reader x = Waiting"
    using assms(4) by (simp_all add: path_quiet_def)
  let ?x1 = "put_append t (At_enqueue cb) (at_end lf) x" and ?x2 = "x\<lparr>wp_file := at_end lf, wp_queue := [cb]\<rparr>"
  have "path_reaches rput rdelete sok fd T B W x ?x1"
    using path_logs [OF assms(1,2) _ _ _ x(1) assms(7)] assms(3) by simp
  moreover have "(wp_append x)(t := No_batch) = wp_append x" using x(1) by (simp add: fun_upd_idem)
  then have "path_step rput rdelete sok fd T B W ?x1 ?x2"
    using path_enqueue [OF assms(1), of w1 W ?x1 cb] assms(3) x(2) by (cases x) (simp add: put_append_def)
  moreover have "path_reaches rput rdelete sok fd T B W ?x2
      (?x2\<lparr>wp_queue := [], wp_store := s', wp_answers := wp_answers x @ out\<rparr>)"
    using path_applies [of ?x2 cb "[]" base rput rdelete sok st fd s' out] assms(5,6,8) x(3) by simp
  moreover have "?x2\<lparr>wp_queue := [], wp_store := s', wp_answers := wp_answers x @ out\<rparr>
      = x\<lparr>wp_file := at_end lf, wp_store := s', wp_answers := wp_answers x @ out\<rparr>"
    using x(2) by (cases x) simp
  ultimately show ?thesis by (metis path_reaches_step path_reaches_trans)
qed

section \<open>What holds at every moment\<close>

text \<open>The part of its record a producer has written.\<close>

fun written :: "append_pc \<Rightarrow> bytes" where
  "written (At_payload cb) = header_bytes (logfile_header cb)"
| "written (At_trailer cb) = header_bytes (logfile_header cb) @ take (unat (cmds_length cb)) (cb_data cb)"
| "written (At_enqueue cb) = log_record cb"
| "written _ = []"

fun holding :: "append_pc \<Rightarrow> cmd_buffer_t list" where
  "holding No_batch = []"
| "holding (At_seek cb) = [cb]"
| "holding (At_header cb) = [cb]"
| "holding (At_payload cb) = [cb]"
| "holding (At_trailer cb) = [cb]"
| "holding (At_enqueue cb) = [cb]"

fun reading :: "store_pc \<Rightarrow> cmd_buffer_t list" where
  "reading Waiting = []"
| "reading (At_command base cb off) = [cb]"
| "reading (At_answer base cb off k ty) = [cb]"

text \<open>From its \<open>lseek\<close> on a producer relies on the offset.\<close>

fun past_seek :: "append_pc \<Rightarrow> bool" where
  "past_seek No_batch = False"
| "past_seek (At_seek cb) = False"
| "past_seek _ = True"

lemma written_prefix: "written pc \<noteq> [] \<Longrightarrow> \<exists>cb \<in> set (holding pc). prefix (written pc) (log_record cb)"
  by (cases pc) (auto simp: log_record_def)

text \<open>The file and the queue when only \<open>t\<close> appends: the records of the batches \<open>gone\<close>
  through the store, of the one being applied and of the queued ones, then the part of a
  record that is being written.\<close>

definition log_inv :: "cmd_buffer_t set \<Rightarrow> producer \<Rightarrow> bytes \<Rightarrow> 'db write_path \<Rightarrow> cmd_buffer_t list \<Rightarrow> bool" where
  "log_inv B t old y gone \<longleftrightarrow>
     lf_contents (of_log (wp_file y))
       = old @ concat (map (log_record) (gone @ reading (wp_reader y) @ wp_queue y)) @ written (wp_append y t)
     \<and> (past_seek (wp_append y t) \<longrightarrow> of_offset (wp_file y) = length (lf_contents (of_log (wp_file y))))
     \<and> set (gone @ reading (wp_reader y) @ wp_queue y @ holding (wp_append y t)) \<subseteq> B
     \<and> (\<forall>u. u \<noteq> t \<longrightarrow> wp_append y u = No_batch)"

definition complete_write :: "write_outcome \<Rightarrow> bool" where
  "complete_write w \<longleftrightarrow> (\<exists>k \<ge> 2 ^ 64. w = Some k)"

lemma write_here_complete:
  assumes "complete_write w" "of_offset f = length (lf_contents (of_log f))" "length bs < 2 ^ 64"
  shows "write_here w bs f = (to_int32 (length bs), at_end ((of_log f)\<lparr>lf_contents := lf_contents (of_log f) @ bs\<rparr>))"
  using assms by (auto simp: write_here_def complete_write_def min_absorb2)

lemma header_data_length [simp]: "kh_data_length (logfile_header cb) = cmds_length cb"
  by (simp add: logfile_header_def calc_checksum_eq)

lemma append_step_log:
  assumes "append_step w (f, q) pc = Inr ((f', q'), pc')" "complete_write w"
    and "past_seek pc \<longrightarrow> of_offset f = length (lf_contents (of_log f))"
    and "lf_contents (of_log f) = old @ concat (map (log_record) (bs @ q)) @ written pc"
  shows "lf_contents (of_log f') = old @ concat (map (log_record) (bs @ q')) @ written pc'
    \<and> (past_seek pc' \<longrightarrow> of_offset f' = length (lf_contents (of_log f')))
    \<and> set (q' @ holding pc') \<subseteq> set (q @ holding pc)"
proof (cases pc)
  case (At_payload cb)
  let ?p = "take (unat (cmds_length cb)) (cb_data cb)"
  have "length ?p < 2 ^ 64" using unat_u64_bound [of "cmds_length cb"] by simp
  from write_here_complete [OF assms(2) _ this, of f] assms At_payload show ?thesis
    by (auto simp: rd_bytes_def assert_c_def split: if_splits)
next
  case (At_header cb)
  with write_here_complete [OF assms(2), of f "header_bytes (logfile_header cb)"] assms show ?thesis
    by (auto simp: assert_c_def split: if_splits)
next
  case (At_trailer cb)
  with write_here_complete [OF assms(2), of f "header_bytes (logfile_header cb)"] assms show ?thesis
    by (auto simp: assert_c_def log_record_def split: if_splits)
qed (use assms in \<open>auto simp: seek_to_end assert_c_def split: if_splits\<close>)

section \<open>The store and the answers\<close>

text \<open>Where \<open>thread_5\<close> is in the commands of its batch: it has applied \<open>ds\<close>.\<close>

fun reader_at :: "(cmd_buffer_t \<Rightarrow> kvs_cmd list) \<Rightarrow> store_pc \<Rightarrow> kvs_cmd list \<Rightarrow> bool" where
  "reader_at cmds Waiting ds \<longleftrightarrow> ds = []"
| "reader_at cmds (At_command base cb off) ds \<longleftrightarrow>
     (\<exists>es. cmds cb = ds @ es \<and> off = length (kvs_batch ds) \<and> starts_with base (cb_data cb) (cmds cb))"
| "reader_at cmds (At_answer base cb off k ty) ds \<longleftrightarrow>
     (\<exists>ps c es. ds = ps @ [c] \<and> cmds cb = ps @ c # es \<and> off = length (kvs_batch ps)
       \<and> k = of_nat (length (kvs_encode c)) \<and> ty = kc_op c \<and> starts_with base (cb_data cb) (cmds cb))"

fun answered :: "store_pc \<Rightarrow> kvs_cmd list \<Rightarrow> kvs_cmd list" where
  "answered (At_answer base cb off k ty) ds = butlast ds"
| "answered _ ds = ds"

definition store_inv ::
  "('db \<Rightarrow> bytes \<rightharpoonup> bytes) \<Rightarrow> (cmd_buffer_t \<Rightarrow> kvs_cmd list) \<Rightarrow> (bytes \<rightharpoonup> bytes)
    \<Rightarrow> 'db kv_store_t \<Rightarrow> (bytes \<times> bytes) list \<Rightarrow> store_pc \<Rightarrow> kvs_cmd list \<Rightarrow> kvs_cmd list \<Rightarrow> bool" where
  "store_inv content cmds m s out pc cs ds \<longleftrightarrow>
     kv_ready s \<and> kv_content content s = foldl map_step m (cs @ ds) \<and> reader_at cmds pc ds
     \<and> subseq out (map write_reply (cs @ answered pc ds))"

context reliable_rocksdb
begin

lemma store_step_command:
  assumes "store_step rput rdelete sok fd r (s, out) (At_command base cb off) = Inr ((s', out'), pc')"
    and "store_inv content cmds m s out (At_command base cb off) cs ds" "write_batch cb (cmds cb)"
  shows "(\<exists>ds'. reading pc' = [cb] \<and> store_inv content cmds m s' out' pc' cs ds')
    \<or> (pc' = Waiting \<and> store_inv content cmds m s' out' pc' (cs @ cmds cb) [])"
proof -
  from assms(2) obtain es where i: "kv_ready s" "kv_content content s = foldl map_step m (cs @ ds)"
      "subseq out (map write_reply (cs @ ds))" "cmds cb = ds @ es" "off = length (kvs_batch ds)"
      "starts_with base (cb_data cb) (ds @ es)"
    by (auto simp: store_inv_def)
  have b: "unat (cmds_length cb) = length (kvs_batch (ds @ es))" "\<forall>c \<in> set (ds @ es). write_ok c"
    using assms(3) i(4) by (auto simp: write_batch_def)
  show ?thesis
  proof (cases es)
    case Nil
    then show ?thesis using assms(1) i b(1) by (auto simp: store_inv_def assert_c_def)
  next
    case (Cons c es')
    note at = starts_with_at [OF i(6) [unfolded Cons]]
    obtain s1 where s1: "store_write rput rdelete base (cb_data cb) off s = Inr (kc_op c, s1)" "kv_ready s1"
        "kv_content content s1 = map_step (kv_content content s) c"
      using store_write_step [OF at(1) _ i(1)] b(2) Cons i(5) by auto
    have "check_write (cb_data cb) off (unat (cmds_length cb) - off) = Inr ()" "off < unat (cmds_length cb)"
      using check_write_ok [OF at(1) _ at(4)] b Cons i(5) at(2) by simp_all
    then have pc': "pc' = At_answer base cb off (of_nat (length (kvs_encode c))) (kc_op c)" "s' = s1" "out' = out"
      using assms(1) s1(1) kvs_at_command_len [OF at(1)] i(5) by simp_all
    then have "store_inv content cmds m s' out' pc' cs (ds @ [c])"
      using i s1(2,3) Cons by (simp add: store_inv_def)
    then show ?thesis using pc'(1) by auto
  qed
qed

end

lemma store_step_answer:
  assumes "store_step rput rdelete sok fd r (s, out) (At_answer base cb off k ty) = Inr ((s', out'), pc')"
    and "store_inv content cmds m s out (At_answer base cb off k ty) cs ds" "write_batch cb (cmds cb)" "0 < fd" "sok"
  shows "reading pc' = [cb] \<and> store_inv content cmds m s' out' pc' cs ds"
proof -
  from assms(2) obtain ps c es where i: "kv_ready s" "kv_content content s = foldl map_step m (cs @ ds)"
      "subseq out (map write_reply (cs @ ps))" "ds = ps @ [c]" "cmds cb = ps @ c # es" "off = length (kvs_batch ps)"
      "k = of_nat (length (kvs_encode c))" "ty = kc_op c" "starts_with base (cb_data cb) (ps @ c # es)"
    by (auto simp: store_inv_def)
  note at = starts_with_at [OF i(9)]
  have op: "kc_op c \<in> {CMD_SET, CMD_DELETE}"
    using assms(3) i(5) by (auto simp: write_batch_def write_ok_def)
  have "s' = s" "pc' = At_command base cb (length (kvs_batch ds))"
    "out' = (if r = RAFT_STATE_LEADER then out @ [write_reply c] else out)"
    using assms(1,5) resp_write [OF op assms(4)] kvs_at_fields(3) [OF at(1)] at(3) i(4,6-8)
    by (auto split: if_splits)
  moreover have "subseq (if r = RAFT_STATE_LEADER then out @ [write_reply c] else out) (map write_reply (cs @ ds))"
    using list_emb_append_mono [OF i(3) subseq_order.refl [of "[write_reply c]"]]
      list_emb_prefix [OF i(3), of "[write_reply c]"] i(4) by simp
  ultimately show ?thesis
    using i by (auto simp: store_inv_def)
qed

section \<open>The log leads the store and the store the answers\<close>

definition path_inv ::
  "('db \<Rightarrow> bytes \<rightharpoonup> bytes) \<Rightarrow> (cmd_buffer_t \<Rightarrow> kvs_cmd list) \<Rightarrow> cmd_buffer_t set \<Rightarrow> producer \<Rightarrow> 'db write_path
    \<Rightarrow> 'db write_path \<Rightarrow> bool" where
  "path_inv content cmds B t x y \<longleftrightarrow>
     (\<exists>gone ds. log_inv B t (lf_contents (of_log (wp_file x))) y gone
       \<and> store_inv content cmds (kv_content content (wp_store x)) (wp_store y) (wp_answers y) (wp_reader y)
           (concat (map cmds gone)) ds)"

lemma path_invI:
  assumes "log_inv B t (lf_contents (of_log (wp_file x))) y gone"
    and "store_inv content cmds (kv_content content (wp_store x)) (wp_store y) (wp_answers y) (wp_reader y)
      (concat (map cmds gone)) ds"
  shows "path_inv content cmds B t x y"
  using assms by (auto simp: path_inv_def)

lemma path_inv_append:
  assumes "path_inv content cmds B t x y" "complete_write w"
    and "append_step w (wp_file y, wp_queue y) (wp_append y t) = Inr ((f', q'), pc')"
  shows "path_inv content cmds B t x (y\<lparr>wp_file := f', wp_queue := q', wp_append := (wp_append y)(t := pc')\<rparr>)"
proof -
  from assms(1) obtain gone ds where i: "log_inv B t (lf_contents (of_log (wp_file x))) y gone"
      "store_inv content cmds (kv_content content (wp_store x)) (wp_store y) (wp_answers y) (wp_reader y)
        (concat (map cmds gone)) ds"
    by (auto simp: path_inv_def)
  then have "log_inv B t (lf_contents (of_log (wp_file x)))
      (y\<lparr>wp_file := f', wp_queue := q', wp_append := (wp_append y)(t := pc')\<rparr>) gone"
    using append_step_log [OF assms(3,2), of "lf_contents (of_log (wp_file x))" "gone @ reading (wp_reader y)"]
    by (auto simp: log_inv_def)
  then show ?thesis using i(2) by (intro path_invI) simp_all
qed

lemma path_inv_store:
  assumes "path_inv content cmds B t x y" "reliable_rocksdb rget rput rdelete content" "\<forall>cb \<in> B. write_batch cb (cmds cb)"
    and "0 < fd" "sok"
    and "store_step rput rdelete sok fd (wp_role y) (wp_store y, wp_answers y) (wp_reader y) = Inr ((s', out'), pc')"
  shows "path_inv content cmds B t x (y\<lparr>wp_store := s', wp_answers := out', wp_reader := pc'\<rparr>)"
proof -
  let ?y = "y\<lparr>wp_store := s', wp_answers := out', wp_reader := pc'\<rparr>"
  from assms(1) obtain gone ds where l: "log_inv B t (lf_contents (of_log (wp_file x))) y gone"
    and s: "store_inv content cmds (kv_content content (wp_store x)) (wp_store y) (wp_answers y) (wp_reader y)
        (concat (map cmds gone)) ds"
    by (auto simp: path_inv_def)
  have b: "write_batch cb (cmds cb)" if "reading (wp_reader y) = [cb]" for cb
    using l assms(3) that by (auto simp: log_inv_def)
  show ?thesis
  proof (cases "wp_reader y")
    case Waiting
    then show ?thesis using assms(1,6) by (cases y) (simp add: path_inv_def log_inv_def)
  next
    case (At_command base cb off)
    with reliable_rocksdb.store_step_command [OF assms(2) assms(6) [unfolded At_command] s [unfolded At_command] b]
    consider ds' where "reading pc' = [cb]" "store_inv content cmds (kv_content content (wp_store x)) s' out' pc' (concat (map cmds gone)) ds'"
      | "pc' = Waiting" "store_inv content cmds (kv_content content (wp_store x)) s' out' pc' (concat (map cmds (gone @ [cb]))) []"
      by auto
    then show ?thesis
    proof cases
      case 1
      with l At_command show ?thesis by (intro path_invI [of _ _ _ _ gone]) (simp_all add: log_inv_def)
    next
      case 2
      with l At_command show ?thesis by (intro path_invI [of _ _ _ _ "gone @ [cb]"]) (simp_all add: log_inv_def)
    qed
  next
    case (At_answer base cb off k ty)
    with store_step_answer [OF assms(6) [unfolded At_answer] s [unfolded At_answer] b assms(4,5)] l
    show ?thesis by (intro path_invI [of _ _ _ _ gone _ _ ds]) (simp_all add: log_inv_def)
  qed
qed

lemma path_inv_step:
  assumes "path_step rput rdelete sok fd {t} B W y z" "path_inv content cmds B t x y"
    and "reliable_rocksdb rget rput rdelete content" "\<forall>cb \<in> B. write_batch cb (cmds cb)" "\<forall>w \<in> W. complete_write w"
    and "0 < fd" "sok"
  shows "path_inv content cmds B t x z"
  using assms(1)
proof cases
  case (get_batch t' cb)
  with assms(2) show ?thesis by (auto simp: path_inv_def log_inv_def)
next
  case (append t' w f' q' pc')
  with path_inv_append [OF assms(2), of w f' q' pc'] assms(5) show ?thesis by simp
next
  case (dequeue cb cbs base)
  from assms(2) obtain gone ds where l: "log_inv B t (lf_contents (of_log (wp_file x))) y gone"
    and s: "store_inv content cmds (kv_content content (wp_store x)) (wp_store y) (wp_answers y) (wp_reader y)
        (concat (map cmds gone)) ds"
    by (auto simp: path_inv_def)
  have "starts_with base (cb_data cb) (cmds cb)"
    using l assms(4) dequeue by (auto simp: log_inv_def write_batch_def starts_with_def)
  then have "store_inv content cmds (kv_content content (wp_store x)) (wp_store y) (wp_answers y) (At_command base cb 0)
      (concat (map cmds gone)) []"
    using s dequeue by (auto simp: store_inv_def)
  with l dequeue show ?thesis by (intro path_invI [of _ _ _ _ gone]) (simp_all add: log_inv_def)
next
  case (store s' out' pc')
  with path_inv_store [OF assms(2-4,6,7)] show ?thesis by simp
next
  case (role r)
  with assms(2) show ?thesis by (simp add: path_inv_def log_inv_def)
qed

lemma path_inv_reaches:
  assumes "path_reaches rput rdelete sok fd {t} B W x y" "path_quiet x" "kv_ready (wp_store x)" "wp_answers x = []"
    and "reliable_rocksdb rget rput rdelete content" "\<forall>cb \<in> B. write_batch cb (cmds cb)" "\<forall>w \<in> W. complete_write w"
    and "0 < fd" "sok"
  shows "path_inv content cmds B t x y"
  using assms(1) unfolding path_reaches_def
proof (induction rule: rtranclp_induct)
  case base
  show ?case
    using assms(2-4) by (intro path_invI [of _ _ _ _ "[]" _ _ "[]"]) (simp_all add: log_inv_def store_inv_def path_quiet_def)
next
  case (step y z)
  then show ?case using path_inv_step assms(5-9) by blast
qed

text \<open>C3: at every moment, between any two accesses to shared data, the log leads the store and the
  store leads the answers, when one of \<open>thread_2\<close> and \<open>thread_3\<close> appends. The file has the
  complete records of some batches and then a part of one more; the store holds exactly the writes
  of a beginning of the commands logged, in the order of the log; and the answers sent are answers
  to some of the writes it holds, in their order. When nothing is under way the store holds
  every write of the log and no record is cut. Log writes are complete, the database
  reports no errors and responses can be sent.\<close>

theorem log_before_store_before_answer:
  assumes "path_reaches rput rdelete sok fd {t} B W x y" "path_quiet x" "kv_ready (wp_store x)" "wp_answers x = []"
    and "reliable_rocksdb rget rput rdelete content" "\<forall>cb \<in> B. write_batch cb (cmds cb)" "\<forall>w \<in> W. complete_write w"
    and "0 < fd" "sok"
  shows "\<exists>batches part cs rest.
      lf_contents (of_log (wp_file y)) = lf_contents (of_log (wp_file x)) @ concat (map (log_record) batches) @ part
    \<and> set batches \<subseteq> B \<and> (part \<noteq> [] \<longrightarrow> (\<exists>cb \<in> B. prefix part (log_record cb)))
    \<and> concat (map cmds batches) = cs @ rest
    \<and> kv_content content (wp_store y) = foldl map_step (kv_content content (wp_store x)) cs
    \<and> subseq (wp_answers y) (map write_reply cs)
    \<and> (path_quiet y \<longrightarrow> rest = [] \<and> part = [])"
proof -
  from path_inv_reaches [OF assms] obtain gone ds
    where l: "log_inv B t (lf_contents (of_log (wp_file x))) y gone"
      and s: "store_inv content cmds (kv_content content (wp_store x)) (wp_store y) (wp_answers y) (wp_reader y)
        (concat (map cmds gone)) ds"
    by (auto simp: path_inv_def)
  let ?part = "written (wp_append y t)" and ?all = "gone @ reading (wp_reader y) @ wp_queue y"
  let ?cs = "concat (map cmds gone) @ ds"
  obtain es where es: "concat (map cmds (reading (wp_reader y))) = ds @ es"
    using s by (cases "wp_reader y") (auto simp: store_inv_def)
  obtain r where "ds = answered (wp_reader y) ds @ r"
    using s by (cases "wp_reader y") (auto simp: store_inv_def)
  moreover have "subseq (wp_answers y) (map write_reply (concat (map cmds gone) @ answered (wp_reader y) ds))"
    using s by (simp add: store_inv_def)
  ultimately have sub: "subseq (wp_answers y) (map write_reply ?cs)"
    using list_emb_prefix [of "(=)" _ _ "map write_reply r"] by (metis append.assoc map_append)
  have part: "?part \<noteq> [] \<longrightarrow> (\<exists>cb \<in> B. prefix ?part (log_record cb))"
  proof -
    have "set (holding (wp_append y t)) \<subseteq> B" using l by (simp add: log_inv_def)
    then show ?thesis using written_prefix [of "wp_append y t"] by blast
  qed
  have quiet: "path_quiet y \<longrightarrow> es @ concat (map cmds (wp_queue y)) = [] \<and> ?part = []"
    using es by (auto simp: path_quiet_def)
  have "lf_contents (of_log (wp_file y)) = lf_contents (of_log (wp_file x)) @ concat (map (log_record) ?all) @ ?part"
    "set ?all \<subseteq> B"
    using l by (simp_all add: log_inv_def)
  moreover have "concat (map cmds ?all) = ?cs @ es @ concat (map cmds (wp_queue y))"
    using es by simp
  moreover have "kv_content content (wp_store y) = foldl map_step (kv_content content (wp_store x)) ?cs"
    using s by (simp add: store_inv_def)
  ultimately show ?thesis
    using sub part quiet by blast
qed

section \<open>Concrete runs\<close>

definition fresh_path :: "(bytes \<rightharpoonup> bytes) write_path" where
  "fresh_path = \<lparr>wp_file = \<lparr>of_log = \<lparr>lf_contents = []\<rparr>, of_offset = 0\<rparr>, wp_queue = [], wp_append = (\<lambda>_. No_batch),
     wp_store = empty_store, wp_reader = Waiting, wp_role = RAFT_STATE_FOLLOWER, wp_answers = []\<rparr>"

lemma fresh_path_quiet: "path_quiet fresh_path" "kv_ready (wp_store fresh_path)" "wp_answers fresh_path = []"
  by (simp_all add: path_quiet_def fresh_path_def)

lemma sample_batches:
  "cmd_buffer_ok set_buffer" "write_batch set_buffer [sample_set]" "command_buffer 4096 set_buffer [sample_set]"
  "\<forall>c \<in> set [sample_set]. write_ok c"
proof -
  have w: "write_ok sample_set" by (simp add: write_ok_def sample_set_def)
  then show "\<forall>c \<in> set [sample_set]. write_ok c" by simp
  show "cmd_buffer_ok set_buffer" "write_batch set_buffer [sample_set]" "command_buffer 4096 set_buffer [sample_set]"
    using w sample_set_length
    by (simp_all add: cmd_buffer_ok_def write_batch_def command_buffer_def starts_with_def word_le_nat_alt cmdbuf_numbers)
qed

lemma complete_sample: "complete_write (Some (2 ^ 64))"
  by (auto simp: complete_write_def)

lemma set_buffer_logged:
  "logfile_append_data (Some (2 ^ 64), Some (2 ^ 64), Some (2 ^ 64)) (of_log (wp_file fresh_path)) set_buffer
   = Inr \<lparr>lf_contents = log_record set_buffer\<rparr>"
  using logfile_append_full [OF _ sample_batches(1), of "(Some (2 ^ 64), Some (2 ^ 64), Some (2 ^ 64))" "\<lparr>lf_contents = []\<rparr>"]
  by (simp add: full_writes_def fresh_path_def)

theorem passes_are_paths_witness:
  "\<exists>s' out. path_reaches map_put map_delete True 5 {Thread_2} {set_buffer} {Some (2 ^ 64)} fresh_path
      (fresh_path\<lparr>wp_file := \<lparr>of_log = \<lparr>lf_contents = log_record set_buffer\<rparr>, of_offset = length (log_record set_buffer)\<rparr>,
         wp_store := s', wp_answers := out\<rparr>)
    \<and> kv_content (\<lambda>d. d) s' [107] = Some [1, 2, 3, 4]"
proof -
  note w = sample_batches(4)
  obtain s' where s: "thread_5_pass map_put map_delete (\<lambda>_. True) (\<lambda>_. RAFT_STATE_FOLLOWER) 5 4096 set_buffer (wp_store fresh_path)
      = Inr (s', [])" "kv_content (\<lambda>d. d) s' = foldl map_step (kv_content (\<lambda>d. d) (wp_store fresh_path)) [sample_set]"
    using map_store_reliable.thread_5_pass_refines [OF fresh_path_quiet(2) sample_batches(3) w,
        of 5 "\<lambda>_. True" RAFT_STATE_FOLLOWER] by auto
  have "kv_content (\<lambda>d. d) s' [107] = Some [1, 2, 3, 4]"
    by (simp add: s(2) map_step.simps sample_set_def)
  moreover have "path_reaches map_put map_delete True 5 {Thread_2} {set_buffer} {Some (2 ^ 64)} fresh_path
      (fresh_path\<lparr>wp_file := \<lparr>of_log = \<lparr>lf_contents = log_record set_buffer\<rparr>, of_offset = length (log_record set_buffer)\<rparr>,
         wp_store := s', wp_answers := []\<rparr>)"
    using passes_are_paths [OF _ _ _ fresh_path_quiet(1) _ _ set_buffer_logged s(1), of Thread_2 "{Thread_2}" "{set_buffer}" "{Some (2 ^ 64)}"]
    by (simp add: fresh_path_quiet(3) sample_set_length)
  ultimately show ?thesis by blast
qed

text \<open>\<open>thread_2\<close> has logged its batch and not yet queued it.\<close>

theorem log_before_store_before_answer_witness:
  "\<exists>y batches part cs rest. path_reaches map_put map_delete True 5 {Thread_2} {set_buffer} {Some (2 ^ 64)} fresh_path y
    \<and> wp_append y Thread_2 = At_enqueue set_buffer
    \<and> log_record set_buffer = concat (map (log_record) batches) @ part \<and> set batches \<subseteq> {set_buffer}
    \<and> concat (map (\<lambda>_. [sample_set]) batches) = cs @ rest
    \<and> kv_content (\<lambda>d. d) (wp_store y) = foldl map_step (kv_content (\<lambda>d. d) empty_store) cs"
proof -
  let ?lf = "\<lparr>lf_contents = log_record set_buffer\<rparr>"
  let ?y = "put_append Thread_2 (At_enqueue set_buffer) (at_end ?lf) fresh_path"
  have y: "path_reaches map_put map_delete True 5 {Thread_2} {set_buffer} {Some (2 ^ 64)} fresh_path ?y"
    using path_logs [OF _ _ _ _ _ _ set_buffer_logged, of Thread_2 "{Thread_2}" "{set_buffer}" "{Some (2 ^ 64)}"]
    by (simp add: fresh_path_def)
  have "\<forall>cb \<in> {set_buffer}. write_batch cb [sample_set]" "\<forall>w \<in> {Some (2 ^ 64)}. complete_write w"
    using sample_batches(2) complete_sample by auto
  from log_before_store_before_answer [OF y fresh_path_quiet map_store_reliable.reliable_rocksdb_axioms this]
  obtain batches part cs rest where c:
    "lf_contents (of_log (wp_file ?y)) = lf_contents (of_log (wp_file fresh_path)) @ concat (map (log_record) batches) @ part"
    "set batches \<subseteq> {set_buffer}" "concat (map (\<lambda>_. [sample_set]) batches) = cs @ rest"
    "kv_content (\<lambda>d. d) (wp_store ?y) = foldl map_step (kv_content (\<lambda>d. d) (wp_store fresh_path)) cs"
    by auto
  have "log_record set_buffer = concat (map (log_record) batches) @ part"
    using c(1) by (simp add: fresh_path_def)
  moreover have "kv_content (\<lambda>d. d) (wp_store ?y) = foldl map_step (kv_content (\<lambda>d. d) empty_store) cs"
    unfolding c(4) by (simp add: fresh_path_def)
  moreover have "wp_append ?y Thread_2 = At_enqueue set_buffer" by simp
  ultimately show ?thesis using y c(2,3) by blast
qed

end
