(* ===== verification/XXH3_Stream.thy ===== *)
theory XXH3_Stream
  imports XXH3_Long "HOL-Library.Monad_Syntax"
begin

text \<open>
  \<open>include/xxhash.h\<close>, third part: the streaming interface of XXH3. A state is fed with pieces of
  the input and gives at any time the hash of what it has seen. The state pointer and the pointers
  to input and secret are optional values, \<open>None\<close> the null pointer; the caller's secret stays
  unchanged while the state uses it. A result \<open>None\<close> of an update is the loop of
  \<open>XXH3_consumeStripes\<close> never ending, which a block of no stripes would make it. The theorem is
  that a stream gives the one-shot hash of all its input, however it is cut, in all four ways of
  giving a secret and a seed, in 64 and in 128 bits.
\<close>

section \<open>The state\<close>

definition XXH3_INTERNALBUFFER_SIZE :: nat where "XXH3_INTERNALBUFFER_SIZE = 256"

record XXH3_state_t =
  acc8 :: "u64 list"
  customSecret :: bytes
  stream_buffer :: bytes
  bufferedSize :: nat
  useSeed :: bool
  nbStripesSoFar :: nat
  totalLen :: u64
  nbStripesPerBlock :: nat
  secretLimit :: nat
  stream_seed :: u64
  extSecret :: "bytes option"

text \<open>\<open>XXH3_INITSTATE\<close>, which \<open>XXH3_createState\<close> calls on the allocated state \<open>junk\<close>.\<close>

definition XXH3_INITSTATE :: "XXH3_state_t \<Rightarrow> XXH3_state_t" where
  "XXH3_INITSTATE junk = junk\<lparr>stream_seed := 0, extSecret := None\<rparr>"

definition XXH3_createState :: "XXH3_state_t option \<Rightarrow> XXH3_state_t option" where
  "XXH3_createState junk = (case junk of None \<Rightarrow> None | Some st \<Rightarrow> Some (XXH3_INITSTATE st))"

definition XXH3_reset_internal :: "XXH3_state_t \<Rightarrow> u64 \<Rightarrow> bytes option \<Rightarrow> nat \<Rightarrow> XXH3_state_t" where
  "XXH3_reset_internal st seed secret secretSize =
     (let st1 = st\<lparr>bufferedSize := 0, useSeed := False, nbStripesSoFar := 0, totalLen := 0\<rparr>;
          limit = unat (of_nat secretSize - of_nat XXH_STRIPE_LEN :: u64)
      in st1\<lparr>acc8 := XXH3_INIT_ACC, stream_seed := seed, useSeed := (seed \<noteq> 0), extSecret := secret,
             secretLimit := limit, nbStripesPerBlock := limit div XXH_SECRET_CONSUME_RATE\<rparr>)"

definition XXH3_64bits_reset :: "XXH3_state_t option \<Rightarrow> XXH_errorcode \<times> XXH3_state_t option" where
  "XXH3_64bits_reset statePtr =
     (case statePtr of None \<Rightarrow> (XXH_ERROR, None)
      | Some st \<Rightarrow> (XXH_OK, Some (XXH3_reset_internal st 0 (Some XXH3_kSecret) XXH_SECRET_DEFAULT_SIZE)))"

text \<open>The state is reset before the secret is checked.\<close>

definition XXH3_64bits_reset_withSecret ::
  "XXH3_state_t option \<Rightarrow> bytes option \<Rightarrow> nat \<Rightarrow> XXH_errorcode \<times> XXH3_state_t option" where
  "XXH3_64bits_reset_withSecret statePtr secret secretSize =
     (case statePtr of None \<Rightarrow> (XXH_ERROR, None)
      | Some st \<Rightarrow>
          let st1 = XXH3_reset_internal st 0 secret secretSize
          in if secret = None then (XXH_ERROR, Some st1)
             else if secretSize < XXH3_SECRET_SIZE_MIN then (XXH_ERROR, Some st1)
             else (XXH_OK, Some st1))"

definition XXH3_64bits_reset_withSeed :: "XXH3_state_t option \<Rightarrow> u64 \<Rightarrow> XXH_errorcode \<times> XXH3_state_t option" where
  "XXH3_64bits_reset_withSeed statePtr seed =
     (case statePtr of None \<Rightarrow> (XXH_ERROR, None)
      | Some st \<Rightarrow>
          if seed = 0 then XXH3_64bits_reset statePtr
          else
            let st1 = (if seed \<noteq> stream_seed st \<or> extSecret st \<noteq> None
                       then st\<lparr>customSecret := XXH3_initCustomSecret seed\<rparr> else st)
            in (XXH_OK, Some (XXH3_reset_internal st1 seed None XXH_SECRET_DEFAULT_SIZE)))"

definition XXH3_64bits_reset_withSecretandSeed ::
  "XXH3_state_t option \<Rightarrow> bytes option \<Rightarrow> nat \<Rightarrow> u64 \<Rightarrow> XXH_errorcode \<times> XXH3_state_t option" where
  "XXH3_64bits_reset_withSecretandSeed statePtr secret secretSize seed64 =
     (case statePtr of None \<Rightarrow> (XXH_ERROR, None)
      | Some st \<Rightarrow>
          if secret = None then (XXH_ERROR, statePtr)
          else if secretSize < XXH3_SECRET_SIZE_MIN then (XXH_ERROR, statePtr)
          else (XXH_OK, Some ((XXH3_reset_internal st seed64 secret secretSize)\<lparr>useSeed := True\<rparr>)))"

section \<open>Updates\<close>

text \<open>The loop over full blocks of \<open>XXH3_consumeStripes\<close>; \<open>off\<close> is the input pointer.\<close>

partial_function (option) consume_blocks ::
  "u64 list \<Rightarrow> bytes \<Rightarrow> nat \<Rightarrow> nat \<Rightarrow> nat \<Rightarrow> bytes \<Rightarrow> nat \<Rightarrow> bytes \<Rightarrow> nat \<Rightarrow> accumulate_fn \<Rightarrow> scramble_fn
    \<Rightarrow> (u64 list \<times> nat \<times> nat) option" where
  "consume_blocks acc input off nbStripes thisIter initialSecret per secret limit f_acc f_scramble =
     (let acc1 = f_scramble (f_acc acc (drop off input) initialSecret thisIter) (drop limit secret);
          off1 = off + thisIter * XXH_STRIPE_LEN;
          nb1 = nbStripes - thisIter
      in if per \<le> nb1 then consume_blocks acc1 input off1 nb1 per secret per secret limit f_acc f_scramble
         else Some (acc1, off1, nb1))"

text \<open>The result is the accumulators, the stripes of the current block and the input pointer.\<close>

definition XXH3_consumeStripes ::
  "u64 list \<Rightarrow> nat \<Rightarrow> nat \<Rightarrow> bytes \<Rightarrow> nat \<Rightarrow> nat \<Rightarrow> bytes \<Rightarrow> nat \<Rightarrow> accumulate_fn \<Rightarrow> scramble_fn
    \<Rightarrow> (u64 list \<times> nat \<times> nat) option" where
  "XXH3_consumeStripes acc soFar per input off nbStripes secret limit f_acc f_scramble =
     (let initialSecret = drop (soFar * XXH_SECRET_CONSUME_RATE) secret;
          blocks = (if per - soFar \<le> nbStripes
            then Option.bind (consume_blocks acc input off nbStripes (per - soFar) initialSecret per secret limit f_acc f_scramble)
                   (\<lambda>(acc1, off1, nb1). Some (acc1, off1, nb1, secret, 0))
            else Some (acc, off, nbStripes, initialSecret, soFar))
      in Option.bind blocks (\<lambda>(acc1, off1, nb1, secret1, soFar1).
           if 0 < nb1
           then Some (f_acc acc1 (drop off1 input) secret1 nb1, soFar1 + nb1, off1 + nb1 * XXH_STRIPE_LEN)
           else Some (acc1, soFar1, off1)))"

definition stream_secret :: "XXH3_state_t \<Rightarrow> bytes" where
  "stream_secret st = (case extSecret st of None \<Rightarrow> customSecret st | Some s \<Rightarrow> s)"

text \<open>The two ways an update consumes: it completes and empties the buffer, and it takes whole
  stripes from the input, keeping the last one at the end of the buffer. The state here is the
  accumulators, the stripes of the current block, the input pointer and the buffer.\<close>

definition empty_buffer ::
  "XXH3_state_t \<Rightarrow> bytes \<Rightarrow> accumulate_fn \<Rightarrow> scramble_fn \<Rightarrow> (u64 list \<times> nat \<times> nat \<times> bytes) option" where
  "empty_buffer st input f_acc f_scramble =
     (if bufferedSize st = 0 then Some (acc8 st, nbStripesSoFar st, 0, stream_buffer st)
      else
        let loadSize = XXH3_INTERNALBUFFER_SIZE - bufferedSize st;
            buf = put (stream_buffer st) (bufferedSize st) (take loadSize input)
        in Option.bind (XXH3_consumeStripes (acc8 st) (nbStripesSoFar st) (nbStripesPerBlock st) buf 0
               (XXH3_INTERNALBUFFER_SIZE div XXH_STRIPE_LEN) (stream_secret st) (secretLimit st) f_acc f_scramble)
             (\<lambda>(acc1, soFar1, off1). Some (acc1, soFar1, loadSize, buf)))"

definition consume_input ::
  "XXH3_state_t \<Rightarrow> bytes \<Rightarrow> nat \<Rightarrow> accumulate_fn \<Rightarrow> scramble_fn \<Rightarrow> u64 list \<times> nat \<times> nat \<times> bytes
    \<Rightarrow> (u64 list \<times> nat \<times> nat \<times> bytes) option" where
  "consume_input st input len f_acc f_scramble = (\<lambda>(acc, soFar, off, buf).
     if XXH3_INTERNALBUFFER_SIZE < len - off then
       let nbStripes = (len - 1 - off) div XXH_STRIPE_LEN
       in Option.bind (XXH3_consumeStripes acc soFar (nbStripesPerBlock st) input off nbStripes
              (stream_secret st) (secretLimit st) f_acc f_scramble)
            (\<lambda>(acc1, soFar1, off1). Some (acc1, soFar1, off1,
               put buf (length buf - XXH_STRIPE_LEN) (take XXH_STRIPE_LEN (drop (off1 - XXH_STRIPE_LEN) input))))
     else Some (acc, soFar, off, buf))"

definition XXH3_update ::
  "XXH3_state_t \<Rightarrow> bytes option \<Rightarrow> nat \<Rightarrow> accumulate_fn \<Rightarrow> scramble_fn \<Rightarrow> XXH3_state_t option" where
  "XXH3_update st input len f_acc f_scramble =
     (case input of None \<Rightarrow> Some st
      | Some xs \<Rightarrow>
          let st1 = st\<lparr>totalLen := totalLen st + of_nat len\<rparr>
          in if len \<le> XXH3_INTERNALBUFFER_SIZE - bufferedSize st1
             then Some (st1\<lparr>stream_buffer := put (stream_buffer st1) (bufferedSize st1) (take len xs),
                            bufferedSize := bufferedSize st1 + len\<rparr>)
             else
               Option.bind (empty_buffer st1 xs f_acc f_scramble) (\<lambda>r.
               Option.bind (consume_input st1 xs len f_acc f_scramble r) (\<lambda>(acc, soFar, off, buf).
               Some (st1\<lparr>acc8 := acc, nbStripesSoFar := soFar,
                         stream_buffer := put buf 0 (take (len - off) (drop off xs)),
                         bufferedSize := len - off\<rparr>))))"

definition XXH3_update_regular :: "XXH3_state_t \<Rightarrow> bytes option \<Rightarrow> nat \<Rightarrow> XXH3_state_t option" where
  "XXH3_update_regular st input len = XXH3_update st input len XXH3_accumulate XXH3_scrambleAcc"

section \<open>Digests\<close>

definition XXH3_digest_long :: "XXH3_state_t \<Rightarrow> bytes \<Rightarrow> u64 list option" where
  "XXH3_digest_long st secret =
     Option.bind
       (if XXH_STRIPE_LEN \<le> bufferedSize st
        then
          let nbStripes = (bufferedSize st - 1) div XXH_STRIPE_LEN
          in Option.bind (XXH3_consumeStripes (acc8 st) (nbStripesSoFar st) (nbStripesPerBlock st)
                 (stream_buffer st) 0 nbStripes secret (secretLimit st) XXH3_accumulate XXH3_scrambleAcc)
               (\<lambda>(acc, soFar, off). Some (acc, drop (bufferedSize st - XXH_STRIPE_LEN) (stream_buffer st)))
        else
          let catchupSize = XXH_STRIPE_LEN - bufferedSize st
          in Some (acc8 st, take catchupSize (drop (length (stream_buffer st) - catchupSize) (stream_buffer st))
               @ take (bufferedSize st) (stream_buffer st)))
       (\<lambda>(acc, lastStripe).
          Some (XXH3_accumulate_512 acc lastStripe (drop (secretLimit st - XXH_SECRET_LASTACC_START) secret)))"

definition XXH3_64bits_digest :: "XXH3_state_t \<Rightarrow> u64 option" where
  "XXH3_64bits_digest st =
     (let secret = stream_secret st
      in if totalLen st > 240
         then Option.bind (XXH3_digest_long st secret) (\<lambda>acc. Some (XXH3_finalizeLong_64b acc secret (totalLen st)))
         else if useSeed st
         then Some (XXH3_64bits_withSeed (stream_buffer st) (unat (totalLen st)) (stream_seed st))
         else Some (XXH3_64bits_withSecret (stream_buffer st) (unat (totalLen st)) secret
                      (secretLimit st + XXH_STRIPE_LEN)))"

definition XXH3_128bits_digest :: "XXH3_state_t \<Rightarrow> XXH128_hash_t option" where
  "XXH3_128bits_digest st =
     (let secret = stream_secret st
      in if totalLen st > 240
         then Option.bind (XXH3_digest_long st secret)
                (\<lambda>acc. Some (XXH3_finalizeLong_128b acc secret (secretLimit st + XXH_STRIPE_LEN) (totalLen st)))
         else if useSeed st
         then Some (XXH3_128bits_withSeed (stream_buffer st) (unat (totalLen st)) (stream_seed st))
         else Some (XXH3_128bits_withSecret (stream_buffer st) (unat (totalLen st)) secret
                      (secretLimit st + XXH_STRIPE_LEN)))"

section \<open>The short hashes read only their input\<close>

lemma mix16B_take: "i + 16 \<le> n \<Longrightarrow> XXH3_mix16B (take n xs) i secret s seed = XXH3_mix16B xs i secret s seed"
  by (simp add: XXH3_mix16B_def readLE64_take)

lemma mix32B_take:
  "i + 16 \<le> n \<Longrightarrow> j + 16 \<le> n \<Longrightarrow> XXH128_mix32B acc (take n xs) i j secret s seed = XXH128_mix32B acc xs i j secret s seed"
  by (simp add: XXH128_mix32B_def mix16B_take readLE64_take)

lemmas take_reads = readLE32_take readLE64_take mix16B_take mix32B_take

lemma mid_loop_take:
  "32 \<le> i \<Longrightarrow> lim \<le> n + 1 \<Longrightarrow> XXH3_mid_loop i lim base (take n xs) secret soff seed acc
     = XXH3_mid_loop i lim base xs secret soff seed acc"
proof (induction "lim - i" arbitrary: i acc rule: less_induct)
  case less
  show ?case
    using less.hyps [of "i + 32"] less.prems
    by (simp add: XXH3_mid_loop.simps [of i] mix32B_take)
qed

lemma mid_loop_first_take:
  "128 < n \<Longrightarrow> XXH3_mid_loop 32 160 base (take n xs) secret soff seed acc
     = XXH3_mid_loop 32 160 base xs secret soff seed acc"
  by (simp add: XXH3_mid_loop.simps [of "numeral i" 160 for i] mix32B_take)

lemma short_128_take:
  assumes "n \<le> length xs" "n \<le> 240"
  shows "XXH3_128bits_internal (take n xs) n seed secret k f = XXH3_128bits_internal xs n seed secret l g"
proof -
  consider "n \<le> 16" | "16 < n" "n \<le> 128" | "128 < n" by linarith
  then show ?thesis
  proof cases
    case 1
    then show ?thesis
      by (simp add: XXH3_128bits_internal_def XXH3_len_0to16_128b_def XXH3_len_1to3_128b_def
          XXH3_len_4to8_128b_def XXH3_len_9to16_128b_def take_reads)
  next
    case 2
    then show ?thesis
      by (simp add: XXH3_128bits_internal_def XXH3_len_17to128_128b_def Let_def take_reads)
  next
    case 3
    then show ?thesis using assms(2)
      by (simp add: XXH3_128bits_internal_def XXH3_len_129to240_128b_def Let_def take_reads mid_loop_take mid_loop_first_take)
  qed
qed

lemma short_64_take:
  assumes "n \<le> length xs" "n \<le> 240"
  shows "XXH3_64bits_internal (take n xs) n seed secret k f = XXH3_64bits_internal xs n seed secret l g"
proof -
  have rounds: "foldl (\<lambda>acc i. acc + XXH3_mix16B (take n xs) (16 * i) secret (s i) seed) acc is
      = foldl (\<lambda>acc i. acc + XXH3_mix16B xs (16 * i) secret (s i) seed) acc is"
    if "\<forall>i \<in> set is. 16 * i + 16 \<le> n" for s acc "is"
    using that by (intro foldl_cong) (simp_all add: mix16B_take)
  consider "n \<le> 16" | "16 < n" "n \<le> 128" | "128 < n" by linarith
  then show ?thesis
  proof cases
    case 1
    then show ?thesis
      by (simp add: XXH3_64bits_internal_def XXH3_len_0to16_64b_def XXH3_len_1to3_64b_def
          XXH3_len_4to8_64b_def XXH3_len_9to16_64b_def take_reads)
  next
    case 2
    then show ?thesis
      by (simp add: XXH3_64bits_internal_def XXH3_len_17to128_64b_def Let_def take_reads)
  next
    case 3
    have "\<forall>i \<in> set [0..<8]. 16 * i + 16 \<le> n" "\<forall>i \<in> set [8..<n div 16]. 16 * i + 16 \<le> n" using 3 by auto
    with 3 assms(2) show ?thesis
      by (simp add: XXH3_64bits_internal_def XXH3_len_129to240_64b_def Let_def mix16B_take rounds del: set_upt)
  qed
qed

section \<open>Consuming stripes\<close>

lemma run_soFar: "s < per \<Longrightarrow> snd (stripes_run secret limit per (acc, s) input n) < per"
  by (induction n) (auto simp: stripes_run_Suc stripe_step_def Let_def)

lemma consume_blocks_run:
  assumes "s < per" "per - s \<le> nb"
  shows "\<exists>acc' q r. consume_blocks acc input off nb (per - s) (drop (s * 8) secret) per secret limit
        XXH3_accumulate XXH3_scrambleAcc = Some (acc', off + q * 64, r)
     \<and> nb = q + r \<and> r < per \<and> stripes_run secret limit per (acc, s) (drop off input) q = (acc', 0)"
  using assms
proof (induction nb arbitrary: acc off s rule: less_induct)
  case (less nb)
  let ?t = "per - s"
  define acc1 where "acc1 = XXH3_scrambleAcc (XXH3_accumulate acc (drop off input) (drop (s * 8) secret) ?t) (drop limit secret)"
  have run: "stripes_run secret limit per (acc, s) (drop off input) ?t = (acc1, 0)"
    by (simp add: run_to_block_end less.prems(1) acc1_def)
  show ?case
  proof (cases "per \<le> nb - ?t")
    case False
    then show ?thesis
      using run less.prems
      by (intro exI [of _ acc1] exI [of _ ?t] exI [of _ "nb - ?t"])
        (simp add: consume_blocks.simps Let_def xxh_sizes acc1_def)
  next
    case True
    with less.prems have "nb - ?t < nb" "0 < per" by auto
    have "\<exists>acc' q r. consume_blocks acc1 input (off + ?t * 64) (nb - ?t) per secret per secret limit
          XXH3_accumulate XXH3_scrambleAcc = Some (acc', off + ?t * 64 + q * 64, r)
      \<and> nb - ?t = q + r \<and> r < per \<and> stripes_run secret limit per (acc1, 0) (drop (off + ?t * 64) input) q = (acc', 0)"
      using less.IH [of "nb - ?t" 0 acc1 "off + ?t * 64"] \<open>nb - ?t < nb\<close> \<open>0 < per\<close> True
      by (simp only: diff_zero mult_0 drop_0)
    then obtain acc' q r where IH: "consume_blocks acc1 input (off + ?t * 64) (nb - ?t) per secret per secret limit
          XXH3_accumulate XXH3_scrambleAcc = Some (acc', off + ?t * 64 + q * 64, r)"
      "nb - ?t = q + r" "r < per" "stripes_run secret limit per (acc1, 0) (drop (off + ?t * 64) input) q = (acc', 0)"
      by blast
    have "stripes_run secret limit per (acc, s) (drop off input) (?t + q) = (acc', 0)"
      unfolding stripes_run_add run using IH(4) by (simp add: add.commute)
    moreover have "consume_blocks acc input off nb ?t (drop (s * 8) secret) per secret limit
        XXH3_accumulate XXH3_scrambleAcc = Some (acc', off + (?t + q) * 64, r)"
      using True IH(1) by (subst consume_blocks.simps) (simp add: Let_def xxh_sizes acc1_def add_mult_distrib add.assoc)
    ultimately show ?thesis using IH(2,3) less.prems(2) by (intro exI [of _ acc'] exI [of _ "?t + q"] exI [of _ r]) simp
  qed
qed

lemma consumeStripes_run:
  assumes "s < per"
  shows "XXH3_consumeStripes acc s per input off nb secret limit XXH3_accumulate XXH3_scrambleAcc
    = (let st = stripes_run secret limit per (acc, s) (drop off input) nb in Some (fst st, snd st, off + nb * 64))"
proof (cases "per - s \<le> nb")
  case False
  then have "s + nb < per" by simp
  with False show ?thesis
    by (auto simp: XXH3_consumeStripes_def Let_def xxh_sizes run_in_block XXH3_accumulate_def)
next
  case True
  obtain acc' q r where q: "consume_blocks acc input off nb (per - s) (drop (s * 8) secret) per secret limit
        XXH3_accumulate XXH3_scrambleAcc = Some (acc', off + q * 64, r)"
     "nb = q + r" "r < per" "stripes_run secret limit per (acc, s) (drop off input) q = (acc', 0)"
    using consume_blocks_run [OF assms True, of acc input off secret limit] by blast
  have "stripes_run secret limit per (acc, s) (drop off input) nb
      = (XXH3_accumulate acc' (drop (off + q * 64) input) secret r, r)"
    using run_in_block [of 0 r per secret limit acc'] q(3) by (simp add: q(2,4) stripes_run_add add.commute)
  then show ?thesis
    using True q(1,2) by (auto simp: XXH3_consumeStripes_def Let_def xxh_sizes XXH3_accumulate_def)
qed

section \<open>The invariant of a stream\<close>

definition stream_run :: "XXH3_state_t \<Rightarrow> bytes \<Rightarrow> nat \<Rightarrow> u64 list \<times> nat" where
  "stream_run st input n = stripes_run (stream_secret st) (secretLimit st) (nbStripesPerBlock st) (XXH3_INIT_ACC, 0) input n"

text \<open>\<open>m\<close> stripes of the input \<open>xs\<close> have been consumed. When fewer than 64 bytes are left, the last
  of these stripes is at the end of the buffer.\<close>

definition stream_at :: "nat \<Rightarrow> XXH3_state_t \<Rightarrow> bytes \<Rightarrow> bool" where
  "stream_at m st xs \<longleftrightarrow> length xs = 64 * m + bufferedSize st \<and> bufferedSize st \<le> 256
     \<and> length (stream_buffer st) = 256 \<and> totalLen st = of_nat (length xs) \<and> 0 < nbStripesPerBlock st
     \<and> take (bufferedSize st) (stream_buffer st) = drop (64 * m) xs
     \<and> (acc8 st, nbStripesSoFar st) = stream_run st xs m
     \<and> (0 < m \<longrightarrow> 256 < length xs \<and> 0 < bufferedSize st
          \<and> (bufferedSize st < 64 \<longrightarrow> drop 192 (stream_buffer st) = take 64 (drop (64 * m - 64) xs)))"

lemma stream_secret_update [simp]:
  "stream_secret (st\<lparr>totalLen := t\<rparr>) = stream_secret st" "stream_secret (st\<lparr>useSeed := b\<rparr>) = stream_secret st"
  by (cases "extSecret st"; simp add: stream_secret_def)+

text \<open>What stays as it was set by the reset.\<close>

definition same_setup :: "XXH3_state_t \<Rightarrow> XXH3_state_t \<Rightarrow> bool" where
  "same_setup st st' \<longleftrightarrow> stream_secret st' = stream_secret st \<and> secretLimit st' = secretLimit st
     \<and> nbStripesPerBlock st' = nbStripesPerBlock st \<and> useSeed st' = useSeed st \<and> stream_seed st' = stream_seed st
     \<and> extSecret st' = extSecret st \<and> customSecret st' = customSecret st"

lemma stream_run_append: "64 * n \<le> length xs \<Longrightarrow> stream_run st (xs @ ys) n = stream_run st xs n"
  by (simp add: stream_run_def stripes_run_append)

lemma stream_run_add: "stream_run st xs (m + n)
    = stripes_run (stream_secret st) (secretLimit st) (nbStripesPerBlock st) (stream_run st xs m) (drop (64 * m) xs) n"
  by (simp add: stream_run_def stripes_run_add mult.commute)

lemma stream_at_total: "stream_at m st xs \<Longrightarrow> totalLen st = of_nat (length xs)"
  unfolding stream_at_def by blast

lemma stream_run_soFar: "0 < nbStripesPerBlock st \<Longrightarrow> snd (stream_run st xs n) < nbStripesPerBlock st"
  by (simp add: stream_run_def run_soFar)

text \<open>A few bytes only go to the buffer.\<close>

lemma update_small:
  assumes "stream_at m st xs" "length ys \<le> 256 - bufferedSize st"
  shows "\<exists>st'. XXH3_update_regular st (Some ys) (length ys) = Some st' \<and> stream_at m st' (xs @ ys) \<and> same_setup st st'"
proof -
  let ?b = "bufferedSize st" and ?buf = "put (stream_buffer st) (bufferedSize st) ys"
  define st' where "st' = st\<lparr>totalLen := totalLen st + of_nat (length ys), stream_buffer := ?buf, bufferedSize := ?b + length ys\<rparr>"
  have b: "?b + length ys \<le> 256" using assms by (auto simp: stream_at_def)
  have upd: "XXH3_update_regular st (Some ys) (length ys) = Some st'"
    using assms(2) by (simp add: XXH3_update_regular_def XXH3_update_def XXH3_INTERNALBUFFER_SIZE_def Let_def st'_def)
  have at: "length xs = 64 * m + ?b" "length (stream_buffer st) = 256" "totalLen st = of_nat (length xs)"
    "take ?b (stream_buffer st) = drop (64 * m) xs" "(acc8 st, nbStripesSoFar st) = stream_run st xs m"
    "0 < nbStripesPerBlock st"
    "0 < m \<Longrightarrow> 256 < length xs \<and> 0 < ?b \<and> (?b < 64 \<longrightarrow> drop 192 (stream_buffer st) = take 64 (drop (64 * m - 64) xs))"
    using assms(1) by (auto simp: stream_at_def)
  have run: "stream_run st' zs n = stream_run st zs n" for zs n
    by (cases "extSecret st") (simp_all add: stream_run_def stream_secret_def st'_def)
  have "take (?b + length ys) ?buf = drop (64 * m) (xs @ ys)"
    using take_put [of ?b "stream_buffer st" ys] b at(1,2,4) by simp
  moreover have "drop 192 ?buf = take 64 (drop (64 * m - 64) (xs @ ys))" if "0 < m" "?b + length ys < 64"
    using that at(1,2) at(7) [OF that(1)] drop_put [of ?b ys 192 "stream_buffer st"] by (simp add: Suc_le_eq)
  ultimately have "stream_at m st' (xs @ ys)"
    using at b length_put [of ?b ys "stream_buffer st"]
    by (auto simp: stream_at_def run stream_run_append) (simp_all add: st'_def)
  moreover have "same_setup st st'" by (cases "extSecret st") (simp_all add: same_setup_def stream_secret_def st'_def)
  ultimately show ?thesis using upd by blast
qed

text \<open>\<open>consumed st xs ys r n\<close>: the intermediate state \<open>r\<close> of an update has consumed \<open>n\<close> stripes of the
  input, which ends with \<open>ys\<close>, and has its last stripe at the end of the buffer.\<close>

definition consumed :: "XXH3_state_t \<Rightarrow> bytes \<Rightarrow> bytes \<Rightarrow> u64 list \<times> nat \<times> nat \<times> bytes \<Rightarrow> nat \<Rightarrow> bool" where
  "consumed st xs ys r n \<longleftrightarrow> (case r of (acc, soFar, off, buf) \<Rightarrow>
     (acc, soFar) = stream_run st (xs @ ys) n \<and> 64 * n = length xs + off \<and> off < length ys \<and> length buf = 256
     \<and> (0 < n \<longrightarrow> drop 192 buf = take 64 (drop (64 * n - 64) (xs @ ys))))"

lemma empty_buffer_consumed:
  assumes "stream_at m st xs" "256 < bufferedSize st + length ys"
  shows "\<exists>r n. empty_buffer (st\<lparr>totalLen := t\<rparr>) ys XXH3_accumulate XXH3_scrambleAcc = Some r \<and> consumed st xs ys r n
    \<and> (n = 0 \<longrightarrow> 256 < length ys \<and> (case r of (acc, soFar, off, buf) \<Rightarrow> off = 0))"
proof (cases "bufferedSize st = 0")
  case True
  with assms have "m = 0" "xs = []" by (auto simp: stream_at_def)
  then have "consumed st xs ys (acc8 st, nbStripesSoFar st, 0, stream_buffer st) 0"
    using assms True stream_run_append [of 0 "[]" st ys] by (auto simp: consumed_def stream_at_def)
  with True assms(2) show ?thesis by (auto simp: empty_buffer_def)
next
  case False
  let ?b = "bufferedSize st" and ?l = "256 - bufferedSize st"
  let ?buf = "put (stream_buffer st) ?b (take ?l ys)"
  have at: "length xs = 64 * m + ?b" "?b \<le> 256" "length (stream_buffer st) = 256" "0 < nbStripesPerBlock st"
    "take ?b (stream_buffer st) = drop (64 * m) xs" "(acc8 st, nbStripesSoFar st) = stream_run st xs m"
    using assms(1) by (auto simp: stream_at_def)
  have len: "length (take ?l ys) = ?l" "length ?buf = 256" using assms(2) at(2,3) by (simp_all add: length_put)
  have "?buf = drop (64 * m) xs @ take ?l ys"
    using take_put [of ?b "stream_buffer st" "take ?l ys"] at(2,3,5) len by simp
  also have "\<dots> = take 256 (drop (64 * m) xs @ ys)"
  proof -
    have "length (drop (64 * m) xs) = ?b" by (simp add: at(1))
    then show ?thesis using at(2) by (simp only: take_append take_all)
  qed
  also have "drop (64 * m) xs @ ys = drop (64 * m) (xs @ ys)" by (simp add: at(1))
  finally have buf: "?buf = take 256 (drop (64 * m) (xs @ ys))" .
  define st4 where "st4 = stripes_run (stream_secret st) (secretLimit st) (nbStripesPerBlock st) (acc8 st, nbStripesSoFar st) ?buf 4"
  have soFar: "nbStripesSoFar st < nbStripesPerBlock st"
    using stream_run_soFar [OF at(4), of xs m] by (simp flip: at(6))
  have "take (64 * 4) ?buf = take (64 * 4) (drop (64 * m) (xs @ ys))"
    unfolding buf take_take by (rule arg_cong [of _ _ "\<lambda>k. take k _"]) simp
  moreover have "stream_run st xs m = stream_run st (xs @ ys) m" using at(1) by (simp add: stream_run_append)
  ultimately have "st4 = stripes_run (stream_secret st) (secretLimit st) (nbStripesPerBlock st) (stream_run st (xs @ ys) m)
      (drop (64 * m) (xs @ ys)) 4"
    unfolding st4_def at(6) by (simp only: stripes_run_cong [where xs = ?buf])
  then have run: "st4 = stream_run st (xs @ ys) (m + 4)" by (simp add: stream_run_add)
  have "empty_buffer (st\<lparr>totalLen := t\<rparr>) ys XXH3_accumulate XXH3_scrambleAcc = Some (fst st4, snd st4, ?l, ?buf)"
    using False consumeStripes_run [OF soFar, of "acc8 st" ?buf 0 4 "stream_secret st" "secretLimit st"]
    by (simp add: empty_buffer_def Let_def XXH3_INTERNALBUFFER_SIZE_def xxh_sizes st4_def)
  moreover have "consumed st xs ys (fst st4, snd st4, ?l, ?buf) (m + 4)"
  proof -
    have "256 - (?b + (192 - ?b)) = 64 - (?b - 192)" "?l < length ys" using at(2) assms(2) by arith+
    then show ?thesis using at(1,2) len(2) run by (simp add: consumed_def) (simp add: buf drop_take)
  qed
  ultimately show ?thesis by (intro exI [of _ "(fst st4, snd st4, ?l, ?buf)"] exI [of _ "m + 4"]) simp
qed

lemma consume_input_consumed:
  assumes "consumed st xs ys r n" "0 < nbStripesPerBlock st" "n = 0 \<longrightarrow> 256 < length ys \<and> (case r of (acc, soFar, off, buf) \<Rightarrow> off = 0)"
  shows "\<exists>r' n'. consume_input (st\<lparr>totalLen := t\<rparr>) ys (length ys) XXH3_accumulate XXH3_scrambleAcc r = Some r'
    \<and> consumed st xs ys r' n' \<and> 0 < n' \<and> (case r' of (acc, soFar, off, buf) \<Rightarrow> length ys - off \<le> 256)"
proof -
  obtain acc soFar off buf where r: "r = (acc, soFar, off, buf)" by (cases r) auto
  have c: "(acc, soFar) = stream_run st (xs @ ys) n" "64 * n = length xs + off" "off < length ys" "length buf = 256"
    "0 < n \<Longrightarrow> drop 192 buf = take 64 (drop (64 * n - 64) (xs @ ys))"
    using assms(1) by (simp_all add: consumed_def r)
  show ?thesis
  proof (cases "256 < length ys - off")
    case False
    with assms r have "0 < n" by (cases n) auto
    with False assms(1) r show ?thesis
      by (intro exI [of _ r] exI [of _ n]) (simp add: consume_input_def XXH3_INTERNALBUFFER_SIZE_def)
  next
    case True
    define k where "k = (length ys - 1 - off) div 64"
    have k_eq: "(length ys - Suc off) div 64 = k" by (simp add: k_def)
    have k: "0 < k" "off + 64 * k < length ys" "length ys - (off + 64 * k) \<le> 64"
      using True by (auto simp: k_def div_greater_zero_iff)
    define st' where "st' = stripes_run (stream_secret st) (secretLimit st) (nbStripesPerBlock st) (acc, soFar) (drop off ys) k"
    let ?off = "off + 64 * k"
    let ?buf = "put buf 192 (take 64 (drop (?off - 64) ys))"
    have "soFar < nbStripesPerBlock st" using stream_run_soFar [OF assms(2), of "xs @ ys" n] by (simp flip: c(1))
    then have "consume_input (st\<lparr>totalLen := t\<rparr>) ys (length ys) XXH3_accumulate XXH3_scrambleAcc r
        = Some (fst st', snd st', ?off, ?buf)"
      using True consumeStripes_run [of soFar "nbStripesPerBlock st" acc ys off k "stream_secret st" "secretLimit st"] c(4) k_eq
      by (simp add: consume_input_def r Let_def XXH3_INTERNALBUFFER_SIZE_def xxh_sizes st'_def mult.commute)
    moreover have "st' = stream_run st (xs @ ys) (n + k)"
      unfolding st'_def stream_run_add c(1) using c(2) by simp
    moreover have "drop 192 ?buf = take 64 (drop (64 * (n + k) - 64) (xs @ ys))"
      using k c(2,4) by (simp add: put_def algebra_simps)
    moreover have "length ?buf = 256" using k c(4) by (subst length_put) auto
    ultimately show ?thesis
      using k c(2) by (intro exI [of _ "(fst st', snd st', ?off, ?buf)"] exI [of _ "n + k"]) (simp add: consumed_def)
  qed
qed

lemma update_large:
  assumes "stream_at m st xs" "256 < bufferedSize st + length ys"
  shows "\<exists>st' m'. XXH3_update_regular st (Some ys) (length ys) = Some st' \<and> stream_at m' st' (xs @ ys) \<and> same_setup st st'"
proof -
  let ?t = "totalLen st + of_nat (length ys)"
  have at: "length xs = 64 * m + bufferedSize st" "totalLen st = of_nat (length xs)" "0 < nbStripesPerBlock st"
    using assms(1) by (auto simp: stream_at_def)
  obtain r n where r: "empty_buffer (st\<lparr>totalLen := ?t\<rparr>) ys XXH3_accumulate XXH3_scrambleAcc = Some r" "consumed st xs ys r n"
      "n = 0 \<longrightarrow> 256 < length ys \<and> (case r of (acc, soFar, off, buf) \<Rightarrow> off = 0)"
    using empty_buffer_consumed [OF assms] by blast
  obtain r' n' where r': "consume_input (st\<lparr>totalLen := ?t\<rparr>) ys (length ys) XXH3_accumulate XXH3_scrambleAcc r = Some r'"
      "consumed st xs ys r' n'" "0 < n'" "case r' of (acc, soFar, off, buf) \<Rightarrow> length ys - off \<le> 256"
    using consume_input_consumed [OF r(2) at(3) r(3)] by blast
  obtain acc soFar off buf where s: "r' = (acc, soFar, off, buf)" by (cases r') auto
  let ?buf = "put buf 0 (drop off ys)"
  define st' where "st' = st\<lparr>totalLen := ?t, acc8 := acc, nbStripesSoFar := soFar, stream_buffer := ?buf,
    bufferedSize := length ys - off\<rparr>"
  have c: "(acc, soFar) = stream_run st (xs @ ys) n'" "64 * n' = length xs + off" "off < length ys" "length buf = 256"
    "drop 192 buf = take 64 (drop (64 * n' - 64) (xs @ ys))" "length ys - off \<le> 256"
    using r'(2-4) by (simp_all add: consumed_def s)
  have "\<not> length ys \<le> 256 - bufferedSize st" using assms by (auto simp: stream_at_def)
  then have "XXH3_update_regular st (Some ys) (length ys) = Some st'"
    using r(1) r'(1) by (simp add: XXH3_update_regular_def XXH3_update_def Let_def XXH3_INTERNALBUFFER_SIZE_def s st'_def)
  moreover have same: "same_setup st st'" by (cases "extSecret st") (simp_all add: same_setup_def stream_secret_def st'_def)
  have run: "stream_run st' zs k = stream_run st zs k" for zs k
    using same by (simp add: stream_run_def same_setup_def)
  have "take (length ys - off) ?buf = drop (64 * n') (xs @ ys)"
    using take_put [of 0 buf "drop off ys"] c(2,3) by simp
  moreover have "drop 192 ?buf = take 64 (drop (64 * n' - 64) (xs @ ys))" if "length ys - off < 64"
    using drop_put [of 0 "drop off ys" 192 buf] that c(4,5) by simp
  moreover have "length ?buf = 256" using length_put [of 0 "drop off ys" buf] c(4,6) by simp
  moreover have "length (xs @ ys) = 64 * n' + (length ys - off)" "0 < length ys - off" "256 < length (xs @ ys)"
    using c(2,3) assms(2) at(1) by simp_all
  moreover have "totalLen st' = of_nat (length (xs @ ys))" by (simp add: st'_def at(2))
  moreover have "bufferedSize st' = length ys - off" "stream_buffer st' = ?buf" "acc8 st' = acc" "nbStripesSoFar st' = soFar"
    "nbStripesPerBlock st' = nbStripesPerBlock st" by (simp_all add: st'_def)
  ultimately have "stream_at n' st' (xs @ ys)"
    using at(3) c(1,6) by (simp only: stream_at_def run) blast
  with \<open>XXH3_update_regular st (Some ys) (length ys) = Some st'\<close> same show ?thesis by blast
qed

lemma update_stream:
  assumes "stream_at m st xs"
  shows "\<exists>st' m'. XXH3_update_regular st (Some ys) (length ys) = Some st' \<and> stream_at m' st' (xs @ ys) \<and> same_setup st st'"
proof (cases "length ys \<le> 256 - bufferedSize st")
  case True
  with update_small [OF assms True] show ?thesis by blast
next
  case False
  with update_large [OF assms, of ys] show ?thesis by simp
qed

section \<open>Digests of a stream\<close>

lemma take_split: "n \<le> length xs \<Longrightarrow> k \<le> n \<Longrightarrow> drop k (take n xs) @ drop n xs = drop k xs"
  by (metis append_take_drop_id drop_append length_take min_absorb2 diff_is_0_eq drop_0)

lemma digest_long_run:
  assumes "stream_at m st xs" "240 < length xs" "secret = stream_secret st"
  shows "XXH3_digest_long st secret
    = Some (XXH3_accumulate_512 (fst (stream_run st xs ((length xs - 1) div 64))) (drop (length xs - 64) xs)
        (drop (secretLimit st - 7) secret))"
proof -
  let ?b = "bufferedSize st" and ?l = "length xs" and ?buf = "stream_buffer st"
  have at: "?l = 64 * m + ?b" "?b \<le> 256" "length ?buf = 256" "0 < nbStripesPerBlock st"
    "take ?b ?buf = drop (64 * m) xs" "(acc8 st, nbStripesSoFar st) = stream_run st xs m"
    "0 < m \<Longrightarrow> 0 < ?b \<and> (?b < 64 \<longrightarrow> drop 192 ?buf = take 64 (drop (64 * m - 64) xs))"
    using assms(1) by (auto simp: stream_at_def)
  show ?thesis
  proof (cases "64 \<le> ?b")
    case True
    define k where "k = (?b - 1) div 64"
    have k_eq: "(?b - Suc 0) div 64 = k" by (simp add: k_def)
    have k: "64 * k \<le> ?b" "(?l - 1) div 64 = m + k" using True at(1) by (auto simp: k_def)
    have soFar: "nbStripesSoFar st < nbStripesPerBlock st"
      using stream_run_soFar [OF at(4), of xs m] by (simp flip: at(6))
    have "take (64 * k) ?buf = take (64 * k) (take ?b ?buf)" using k(1) by (simp add: min_absorb1)
    then have "take (64 * k) ?buf = take (64 * k) (drop (64 * m) xs)" by (simp only: at(5))
    then have "stripes_run secret (secretLimit st) (nbStripesPerBlock st) (acc8 st, nbStripesSoFar st) ?buf k
        = stream_run st xs (m + k)"
      unfolding stream_run_add at(6) assms(3) by (rule stripes_run_cong)
    moreover have "take 64 (drop (?b - 64) ?buf) = take 64 (drop (?l - 64) xs)"
    proof -
      have "take 64 (drop (?b - 64) ?buf) = drop (?b - 64) (take ?b ?buf)" using True by (simp add: drop_take)
      also have "\<dots> = drop (?l - 64) xs" unfolding at(5) using True at(1) by (simp add: algebra_simps)
      finally show ?thesis using assms(2) by simp
    qed
    ultimately show ?thesis
      using True consumeStripes_run [OF soFar, of "acc8 st" ?buf 0 k secret "secretLimit st"] k(2)
        accumulate_512_cong [of "drop (?b - 64) ?buf" "drop (?l - 64) xs"]
      by (simp add: XXH3_digest_long_def xxh_sizes Let_def k_eq)
  next
    case False
    with at(1) assms(2) have m: "0 < m" by (cases m) auto
    have b: "0 < ?b" "?b < 64" "drop 192 ?buf = take 64 (drop (64 * m - 64) xs)" using at(7) [OF m] False by auto
    have n: "(?l - Suc 0) div 64 = m" using b(1,2) at(1) by (auto simp: div_nat_eqI)
    have "drop (256 - (64 - ?b)) ?buf = drop ?b (drop 192 ?buf)" using b(2) by (simp add: algebra_simps)
    also have "\<dots> = drop (?l - 64) (take (64 * m) xs)"
      unfolding b(3) using m at(1) b(2) by (simp add: drop_take algebra_simps)
    finally have "take (64 - ?b) (drop (256 - (64 - ?b)) ?buf) @ take ?b ?buf = drop (?l - 64) xs"
      unfolding at(5) using take_split [of "64 * m" xs "?l - 64"] at(1,3) b(2) by simp
    then show ?thesis
      using False at(3) by (simp add: XXH3_digest_long_def xxh_sizes Let_def n flip: at(6))
  qed
qed

text \<open>So the accumulators are those of the one-shot hash of the input.\<close>

lemma digest_long_hash:
  assumes "stream_at m st xs" "240 < length xs" "nbStripesPerBlock st = secretLimit st div 8"
  shows "XXH3_digest_long st (stream_secret st)
    = Some (XXH3_hashLong_internal_loop XXH3_INIT_ACC xs (length xs) (stream_secret st) (secretLimit st + 64)
        XXH3_accumulate XXH3_scrambleAcc)"
proof -
  have "8 \<le> secretLimit st" "xs \<noteq> []" using assms by (auto simp: stream_at_def div_greater_zero_iff)
  with digest_long_run [OF assms(1,2) refl] hashLong_loop_run [of "secretLimit st + 64" "length xs"] assms(2,3)
  show ?thesis by (simp add: stream_run_def)
qed

lemma short_buffer:
  assumes "stream_at m st xs" "length xs \<le> 240"
  shows "take (length xs) (stream_buffer st) = xs" "length xs \<le> length (stream_buffer st)"
  using assms by (cases m; auto simp: stream_at_def)+

lemma short_128_buffer:
  assumes "stream_at m st xs" "length xs \<le> 240"
  shows "XXH3_128bits_internal (stream_buffer st) (length xs) seed secret k f = XXH3_128bits_internal xs (length xs) seed secret l g"
  using short_128_take [of "length xs" "stream_buffer st" seed secret l g k f] short_buffer [OF assms] assms(2) by simp

lemma short_64_buffer:
  assumes "stream_at m st xs" "length xs \<le> 240"
  shows "XXH3_64bits_internal (stream_buffer st) (length xs) seed secret k f = XXH3_64bits_internal xs (length xs) seed secret l g"
  using short_64_take [of "length xs" "stream_buffer st" seed secret l g k f] short_buffer [OF assms] assms(2) by simp

section \<open>A stream gives the one-shot hash\<close>

datatype hash_mode = Default_secret | With_secret bytes | With_seed u64 | With_secret_and_seed bytes u64

fun stream_reset :: "hash_mode \<Rightarrow> XXH3_state_t option \<Rightarrow> XXH_errorcode \<times> XXH3_state_t option" where
  "stream_reset Default_secret p = XXH3_64bits_reset p"
| "stream_reset (With_secret s) p = XXH3_64bits_reset_withSecret p (Some s) (length s)"
| "stream_reset (With_seed seed) p = XXH3_64bits_reset_withSeed p seed"
| "stream_reset (With_secret_and_seed s seed) p = XXH3_64bits_reset_withSecretandSeed p (Some s) (length s) seed"

fun one_shot_64 :: "hash_mode \<Rightarrow> bytes \<Rightarrow> u64" where
  "one_shot_64 Default_secret xs = XXH3_64bits xs (length xs)"
| "one_shot_64 (With_secret s) xs = XXH3_64bits_withSecret xs (length xs) s (length s)"
| "one_shot_64 (With_seed seed) xs = XXH3_64bits_withSeed xs (length xs) seed"
| "one_shot_64 (With_secret_and_seed s seed) xs = XXH3_64bits_withSecretandSeed xs (length xs) s (length s) seed"

fun one_shot_128 :: "hash_mode \<Rightarrow> bytes \<Rightarrow> XXH128_hash_t" where
  "one_shot_128 Default_secret xs = XXH3_128bits xs (length xs)"
| "one_shot_128 (With_secret s) xs = XXH3_128bits_withSecret xs (length xs) s (length s)"
| "one_shot_128 (With_seed seed) xs = XXH3_128bits_withSeed xs (length xs) seed"
| "one_shot_128 (With_secret_and_seed s seed) xs = XXH3_128bits_withSecretandSeed xs (length xs) s (length s) seed"

fun secret_ok :: "hash_mode \<Rightarrow> bool" where
  "secret_ok (With_secret s) \<longleftrightarrow> 136 \<le> length s \<and> length s < 2 ^ 64"
| "secret_ok (With_secret_and_seed s seed) \<longleftrightarrow> 136 \<le> length s \<and> length s < 2 ^ 64"
| "secret_ok _ \<longleftrightarrow> True"

text \<open>A state a reset can be called on: a secret derived from a seed is the one the state remembers.\<close>

definition resettable :: "XXH3_state_t \<Rightarrow> bool" where
  "resettable st \<longleftrightarrow> length (stream_buffer st) = 256
     \<and> (extSecret st = None \<and> stream_seed st \<noteq> 0 \<longrightarrow> customSecret st = XXH3_initCustomSecret (stream_seed st))"

fun set_up :: "hash_mode \<Rightarrow> XXH3_state_t \<Rightarrow> bool" where
  "set_up Default_secret st \<longleftrightarrow> stream_secret st = XXH3_kSecret \<and> secretLimit st = 128 \<and> \<not> useSeed st"
| "set_up (With_secret s) st \<longleftrightarrow> stream_secret st = s \<and> secretLimit st = length s - 64 \<and> \<not> useSeed st"
| "set_up (With_seed seed) st \<longleftrightarrow> secretLimit st = 128
     \<and> (if seed = 0 then stream_secret st = XXH3_kSecret \<and> \<not> useSeed st
        else stream_secret st = XXH3_initCustomSecret seed \<and> useSeed st \<and> stream_seed st = seed)"
| "set_up (With_secret_and_seed s seed) st \<longleftrightarrow> stream_secret st = s \<and> secretLimit st = length s - 64
     \<and> useSeed st \<and> stream_seed st = seed"

lemma secret_limit: "64 \<le> n \<Longrightarrow> n < 2 ^ 64 \<Longrightarrow> unat (of_nat n - of_nat 64 :: u64) = n - 64"
proof -
  assume n: "64 \<le> n" "n < 2 ^ 64"
  then have "of_nat n - of_nat 64 = (of_nat (n - 64) :: u64)" by (simp add: of_nat_diff)
  also have "unat \<dots> = n - 64" using n by (simp add: unat_of_nat del: of_nat_diff)
  finally show ?thesis .
qed

lemma reset_internal_fields [simp]:
  "bufferedSize (XXH3_reset_internal st seed secret n) = 0" "totalLen (XXH3_reset_internal st seed secret n) = 0"
  "acc8 (XXH3_reset_internal st seed secret n) = XXH3_INIT_ACC" "nbStripesSoFar (XXH3_reset_internal st seed secret n) = 0"
  "stream_buffer (XXH3_reset_internal st seed secret n) = stream_buffer st"
  "customSecret (XXH3_reset_internal st seed secret n) = customSecret st"
  "extSecret (XXH3_reset_internal st seed secret n) = secret" "stream_seed (XXH3_reset_internal st seed secret n) = seed"
  "useSeed (XXH3_reset_internal st seed secret n) = (seed \<noteq> 0)"
  "secretLimit (XXH3_reset_internal st seed secret n) = unat (of_nat n - of_nat 64 :: u64)"
  "nbStripesPerBlock (XXH3_reset_internal st seed secret n) = unat (of_nat n - of_nat 64 :: u64) div 8"
  by (simp_all add: XXH3_reset_internal_def Let_def xxh_sizes)

lemma stream_secret_extSecret:
  "extSecret st = Some s \<Longrightarrow> stream_secret st = s" "extSecret st = None \<Longrightarrow> stream_secret st = customSecret st"
  by (simp_all add: stream_secret_def)

lemma reset_stream:
  assumes "resettable st" "secret_ok mode"
  shows "\<exists>st'. stream_reset mode (Some st) = (XXH_OK, Some st') \<and> stream_at 0 st' [] \<and> set_up mode st'
    \<and> nbStripesPerBlock st' = secretLimit st' div 8 \<and> resettable st'"
proof (cases mode)
  case Default_secret
  then show ?thesis using assms secret_limit [of 192]
    by (simp add: XXH3_64bits_reset_def xxh_sizes stream_at_def stream_run_def stream_secret_extSecret resettable_def)
next
  case (With_secret s)
  moreover have "8 \<le> length s - 64" using With_secret assms(2) by (simp, arith)
  ultimately show ?thesis using assms secret_limit [of "length s"]
    by (simp add: XXH3_64bits_reset_withSecret_def xxh_sizes stream_at_def stream_run_def stream_secret_extSecret
        resettable_def XXH3_SECRET_SIZE_MIN_def Let_def div_greater_zero_iff)
next
  case (With_seed seed)
  then show ?thesis using assms secret_limit [of 192]
    by (auto simp: XXH3_64bits_reset_withSeed_def XXH3_64bits_reset_def xxh_sizes stream_at_def stream_run_def
        stream_secret_extSecret resettable_def Let_def)
next
  case (With_secret_and_seed s seed)
  moreover have "8 \<le> length s - 64" using With_secret_and_seed assms(2) by (simp, arith)
  ultimately show ?thesis using assms secret_limit [of "length s"]
    by (simp add: XXH3_64bits_reset_withSecretandSeed_def xxh_sizes stream_at_def stream_run_def stream_secret_extSecret
        resettable_def XXH3_SECRET_SIZE_MIN_def div_greater_zero_iff)
qed

lemma set_up_same: "same_setup st st' \<Longrightarrow> set_up mode st \<Longrightarrow> set_up mode st'"
  by (cases mode) (auto simp: same_setup_def)

text \<open>Feeding a stream piece by piece.\<close>

fun feed :: "XXH3_state_t \<Rightarrow> bytes list \<Rightarrow> XXH3_state_t option" where
  "feed st [] = Some st"
| "feed st (p # ps) = Option.bind (XXH3_update_regular st (Some p) (length p)) (\<lambda>st'. feed st' ps)"

lemma feed_stream:
  "stream_at m st xs \<Longrightarrow> \<exists>st' m'. feed st ps = Some st' \<and> stream_at m' st' (xs @ concat ps) \<and> same_setup st st'"
proof (induction ps arbitrary: m st xs)
  case Nil
  then show ?case by (auto simp: same_setup_def)
next
  case (Cons p ps)
  obtain st1 m1 where s1: "XXH3_update_regular st (Some p) (length p) = Some st1" "stream_at m1 st1 (xs @ p)" "same_setup st st1"
    using update_stream [OF Cons.prems] by blast
  obtain st2 m2 where s2: "feed st1 ps = Some st2" "stream_at m2 st2 ((xs @ p) @ concat ps)" "same_setup st1 st2"
    using Cons.IH [OF s1(2)] by blast
  from s1(3) s2(3) have "same_setup st st2" by (simp add: same_setup_def)
  with s1(1) s2(1,2) show ?case by simp blast
qed

lemma digest_short:
  assumes "stream_at m st xs" "length xs \<le> 240" "set_up mode st"
  shows "XXH3_128bits_digest st = Some (one_shot_128 mode xs) \<and> XXH3_64bits_digest st = Some (one_shot_64 mode xs)"
proof -
  have total: "unat (totalLen st) = length xs" "\<not> totalLen st > 240"
    using stream_at_total [OF assms(1)] assms(2) by (simp_all add: unat_of_nat word_less_nat_alt)
  note buf = short_128_buffer [OF assms(1,2)] short_64_buffer [OF assms(1,2)]
  show ?thesis
    using total assms(2,3)
    by (cases mode) (auto simp: XXH3_128bits_digest_def XXH3_64bits_digest_def Let_def XXH3_128bits_def XXH3_64bits_def
        XXH3_128bits_withSecret_def XXH3_64bits_withSecret_def XXH3_128bits_withSeed_def XXH3_64bits_withSeed_def
        XXH3_128bits_withSecretandSeed_def XXH3_64bits_withSecretandSeed_def intro: buf split: if_splits)
qed

lemma kSecret_length: "length XXH3_kSecret = 192"
  by (simp add: XXH3_kSecret_def)

lemma digest_long:
  assumes "stream_at m st xs" "240 < length xs" "length xs < 2 ^ 64" "set_up mode st" "secret_ok mode"
    and "nbStripesPerBlock st = secretLimit st div 8"
  shows "XXH3_128bits_digest st = Some (one_shot_128 mode xs) \<and> XXH3_64bits_digest st = Some (one_shot_64 mode xs)"
proof -
  have total: "totalLen st = of_nat (length xs)" "totalLen st > 240"
    using stream_at_total [OF assms(1)] assms(2,3) by (simp_all add: unat_of_nat word_less_nat_alt)
  have "XXH3_128bits_digest st = Some (XXH3_hashLong_128b_internal xs (length xs) (stream_secret st) (secretLimit st + 64)
      XXH3_accumulate XXH3_scrambleAcc)"
    and "XXH3_64bits_digest st = Some (XXH3_hashLong_64b_internal xs (length xs) (stream_secret st) (secretLimit st + 64)
      XXH3_accumulate XXH3_scrambleAcc)"
    using total digest_long_hash [OF assms(1,2,6)]
    by (simp_all add: XXH3_128bits_digest_def XXH3_64bits_digest_def XXH3_hashLong_128b_internal_def
        XXH3_hashLong_64b_internal_def xxh_sizes Let_def)
  moreover have "XXH3_hashLong_128b_internal xs (length xs) (stream_secret st) (secretLimit st + 64)
      XXH3_accumulate XXH3_scrambleAcc = one_shot_128 mode xs
    \<and> XXH3_hashLong_64b_internal xs (length xs) (stream_secret st) (secretLimit st + 64)
      XXH3_accumulate XXH3_scrambleAcc = one_shot_64 mode xs"
    using assms(2,4,5)
    by (cases mode) (auto simp: XXH3_128bits_def XXH3_64bits_def XXH3_128bits_withSecret_def XXH3_64bits_withSecret_def
        XXH3_128bits_withSeed_def XXH3_64bits_withSeed_def XXH3_128bits_withSecretandSeed_def
        XXH3_64bits_withSecretandSeed_def XXH3_128bits_internal_def XXH3_64bits_internal_def
        XXH3_hashLong_128b_default_def XXH3_hashLong_64b_default_def XXH3_hashLong_128b_withSecret_def
        XXH3_hashLong_64b_withSecret_def XXH3_hashLong_128b_withSeed_def XXH3_hashLong_64b_withSeed_def
        XXH3_hashLong_128b_withSeed_internal_def XXH3_hashLong_64b_withSeed_internal_def kSecret_length
        XXH_SECRET_DEFAULT_SIZE_def split: if_splits)
  ultimately show ?thesis by simp
qed

text \<open>C14: the streaming interface of XXH3 computes the one-shot hash. A state that can be reset is
  reset in any of the four ways, with a secret of at least 136 bytes where one is given, and is
  fed with any pieces of fewer than 2^64 bytes in all; the updates return, and the digests of 128
  and of 64 bits are those the one-shot functions give for all the bytes together, however
  they were cut. The state can be reset again afterwards.\<close>

theorem XXH3_stream_is_one_shot:
  assumes "resettable st" "secret_ok mode" "length (concat ps) < 2 ^ 64"
  shows "\<exists>st0 st1. stream_reset mode (Some st) = (XXH_OK, Some st0) \<and> feed st0 ps = Some st1
    \<and> XXH3_128bits_digest st1 = Some (one_shot_128 mode (concat ps))
    \<and> XXH3_64bits_digest st1 = Some (one_shot_64 mode (concat ps)) \<and> resettable st1"
proof -
  obtain st0 where st0: "stream_reset mode (Some st) = (XXH_OK, Some st0)" "stream_at 0 st0 []" "set_up mode st0"
    "nbStripesPerBlock st0 = secretLimit st0 div 8" "resettable st0"
    using reset_stream [OF assms(1,2)] by blast
  obtain st1 m where st1: "feed st0 ps = Some st1" "stream_at m st1 (concat ps)" "same_setup st0 st1"
    using feed_stream [OF st0(2), of ps] by auto
  have ok: "set_up mode st1" "nbStripesPerBlock st1 = secretLimit st1 div 8" "resettable st1"
    using set_up_same [OF st1(3) st0(3)] st0(4,5) st1(2,3) by (simp_all add: same_setup_def resettable_def stream_at_def)
  have "XXH3_128bits_digest st1 = Some (one_shot_128 mode (concat ps)) \<and> XXH3_64bits_digest st1 = Some (one_shot_64 mode (concat ps))"
    using digest_short [OF st1(2) _ ok(1)] digest_long [OF st1(2) _ assms(3) ok(1) assms(2) ok(2)]
    by (cases "length (concat ps) \<le> 240") simp_all
  with st0(1) st1(1) ok(3) show ?thesis by blast
qed

text \<open>A state fresh from \<open>XXH3_createState\<close> can be reset.\<close>

definition fresh_state :: XXH3_state_t where
  "fresh_state = XXH3_INITSTATE \<lparr>acc8 = [], customSecret = replicate 192 7, stream_buffer = replicate 256 7,
     bufferedSize = 7, useSeed = True, nbStripesSoFar = 7, totalLen = 7, nbStripesPerBlock = 7, secretLimit = 7,
     stream_seed = 7, extSecret = Some [7]\<rparr>"

theorem XXH3_stream_is_one_shot_witness:
  "\<exists>st0 st1. stream_reset (With_seed 5) (Some fresh_state) = (XXH_OK, Some st0)
    \<and> feed st0 [replicate 100 1, replicate 300 2] = Some st1
    \<and> XXH3_128bits_digest st1 = Some (XXH3_128bits_withSeed (replicate 100 1 @ replicate 300 2) 400 5)"
proof -
  have "resettable fresh_state" by (simp add: resettable_def fresh_state_def XXH3_INITSTATE_def)
  from XXH3_stream_is_one_shot [OF this, of "With_seed 5" "[replicate 100 1, replicate 300 2]"] show ?thesis by auto
qed

end
