(* ===== verification/XXH_Classic.thy ===== *)
theory XXH_Classic
  imports XXH3
begin

text \<open>
  \<open>include/xxhash.h\<close>, the older hashes \<open>XXH32\<close> and \<open>XXH64\<close>: one-shot functions, streaming
  states and canonical forms. Both consume blocks of 16 and 32 bytes and keep the rest of a
  block in a buffer with the same code, which is modelled once. The reference is \<open>absorb\<close>, which
  cuts a list into blocks; the locale \<open>block_consumer\<close> is what the loop over the blocks promises
  about it, and both hashes give an interpretation. The theorems are that a stream gives the
  one-shot hash of its input however it is cut, and that the switch of \<open>XXH32_finalize\<close> computes
  what its loops do. A null pointer is \<open>None\<close>.
\<close>

section \<open>Blocks and their buffer\<close>

function absorb :: "nat \<Rightarrow> ('a \<Rightarrow> bytes \<Rightarrow> 'a) \<Rightarrow> 'a \<Rightarrow> bytes \<Rightarrow> 'a \<times> bytes" where
  "absorb b f acc xs =
     (if 0 < b \<and> b \<le> length xs then absorb b f (f acc (take b xs)) (drop b xs) else (acc, xs))"
  by pat_completeness auto
termination by (relation "measure (\<lambda>(b, f, acc, xs). length xs)") auto

declare absorb.simps [simp del]

text \<open>The common part of \<open>XXH32_update\<close> and \<open>XXH64_update\<close> on the accumulators, the buffer of \<open>b\<close>
  bytes and its fill, behind their assertions on the fill: a short input goes to the buffer;
  otherwise the buffer is completed and consumed, then the whole blocks of the input, and the
  rest is kept.\<close>

definition block_update ::
  "nat \<Rightarrow> ('a \<Rightarrow> bytes \<Rightarrow> nat \<Rightarrow> nat \<Rightarrow> 'a \<times> nat) \<Rightarrow> 'a \<times> bytes \<times> nat \<Rightarrow> bytes \<Rightarrow> nat \<Rightarrow> 'a \<times> bytes \<times> nat" where
  "block_update b consumeLong st input len =
     (let (acc, buffer, size) = st
      in if len < b - size then (acc, put buffer size (take len input), size + len)
         else
           let (acc1, buffer1, xinput1) =
                 (if size \<noteq> 0 then
                    let load = b - size; buffer1 = put buffer size (take load input)
                    in (fst (consumeLong acc buffer1 0 b), buffer1, load)
                  else (acc, buffer, 0));
               (acc2, xinput2) =
                 (if b \<le> len - xinput1 then consumeLong acc1 input xinput1 (len - xinput1) else (acc1, xinput1))
           in if xinput2 < len
              then (acc2, put buffer1 0 (take (len - xinput2) (drop xinput2 input)), len - xinput2)
              else (acc2, buffer1, 0))"

lemma absorb_append:
  "absorb b f acc (xs @ ys) = (let r = absorb b f acc xs in absorb b f (fst r) (snd r @ ys))"
proof (induction "length xs" arbitrary: xs acc rule: less_induct)
  case less
  show ?case
  proof (cases "0 < b \<and> b \<le> length xs")
    case True
    then have "absorb b f acc (xs @ ys) = absorb b f (f acc (take b xs)) (drop b xs @ ys)"
      by (subst absorb.simps) simp
    moreover have "length (drop b xs) < length xs" using True by auto
    ultimately show ?thesis
      using True less.hyps [of "drop b xs" "f acc (take b xs)"]
      by (subst (2) absorb.simps) (simp add: Let_def)
  next
    case False
    then have "absorb b f acc xs = (acc, xs)" by (subst absorb.simps) auto
    then show ?thesis by (simp add: Let_def)
  qed
qed

lemma absorb_short: "length xs < b \<Longrightarrow> absorb b f acc xs = (acc, xs)"
  by (subst absorb.simps) simp

lemma absorb_block: "0 < b \<Longrightarrow> length xs = b \<Longrightarrow> absorb b f acc xs = (f acc xs, [])"
  by (subst absorb.simps) (simp add: absorb_short)

lemma absorb_rest: "0 < b \<Longrightarrow> snd (absorb b f acc xs) = drop (b * (length xs div b)) xs"
proof (induction "length xs" arbitrary: xs acc rule: less_induct)
  case less
  show ?case
  proof (cases "b \<le> length xs")
    case True
    then have "length xs div b = Suc ((length xs - b) div b)" using less.prems by (simp add: le_div_geq)
    moreover have "length (drop b xs) < length xs" using True less.prems by auto
    ultimately show ?thesis
      using True less.prems less.hyps [of "drop b xs" "f acc (take b xs)"]
      by (subst absorb.simps) (simp add: add.commute)
  next
    case False
    then show ?thesis by (simp add: absorb_short)
  qed
qed

lemma absorb_rest_short: "0 < b \<Longrightarrow> length (snd (absorb b f acc xs)) < b"
  by (simp add: absorb_rest minus_mult_div_eq_mod)

locale block_consumer =
  fixes b :: nat and f :: "'a \<Rightarrow> bytes \<Rightarrow> 'a" and consume :: "'a \<Rightarrow> bytes \<Rightarrow> nat \<Rightarrow> nat \<Rightarrow> 'a \<times> nat"
  assumes block_pos: "0 < b"
    and consumes: "\<And>acc input off len. b \<le> len \<Longrightarrow> off + len \<le> length input \<Longrightarrow>
      consume acc input off len = (fst (absorb b f acc (take len (drop off input))), off + b * (len div b))"
begin

definition represents :: "'a \<times> bytes \<times> nat \<Rightarrow> 'a \<times> bytes \<Rightarrow> bool" where
  "represents st r \<longleftrightarrow> (case st of (acc, buffer, n) \<Rightarrow> length buffer = b \<and> n < b \<and> r = (acc, take n buffer))"

lemma update_fits:
  assumes "represents (acc, buffer, n) (acc, p)" "length xs < b - n"
  shows "represents (block_update b consume (acc, buffer, n) xs (length xs)) (absorb b f acc (p @ xs))"
  using assms take_put [of n buffer xs] length_put [of n xs buffer]
  by (simp add: represents_def block_update_def absorb_short less_diff_conv add.commute)

lemma rest_represented:
  assumes "length buffer = b" "off \<le> length xs"
  shows "represents
     (let (acc2, off2) = (if b \<le> length xs - off then consume acc xs off (length xs - off) else (acc, off))
      in if off2 < length xs then (acc2, put buffer 0 (take (length xs - off2) (drop off2 xs)), length xs - off2)
         else (acc2, buffer, 0))
     (absorb b f acc (drop off xs))"
proof -
  define off2 where "off2 = off + b * ((length xs - off) div b)"
  have o: "off2 \<le> length xs" "length xs - off2 < b"
  proof -
    have "b * ((length xs - off) div b) + (length xs - off) mod b = length xs - off" by simp
    moreover have "(length xs - off) mod b < b" using block_pos by simp
    ultimately show "off2 \<le> length xs" "length xs - off2 < b" using assms(2) unfolding off2_def by linarith+
  qed
  obtain acc2 where rest: "absorb b f acc (drop off xs) = (acc2, drop off2 xs)"
    using absorb_rest [OF block_pos, of f acc "drop off xs"]
    by (cases "absorb b f acc (drop off xs)") (simp add: off2_def add.commute)
  have both: "(if b \<le> length xs - off then consume acc xs off (length xs - off) else (acc, off))
      = (acc2, off2)"
    using consumes [of "length xs - off" off xs acc] assms(2) rest
    by (auto simp: off2_def absorb_short)
  show ?thesis
    unfolding both rest using o assms(1) take_put [of 0 buffer "drop off2 xs"] length_put [of 0 "drop off2 xs" buffer]
    by (auto simp: represents_def)
qed

lemma update_represents:
  assumes "represents st (acc, p)"
  shows "represents (block_update b consume st xs (length xs)) (absorb b f acc (p @ xs))"
proof -
  obtain buffer n where st: "st = (acc, buffer, n)" using assms by (auto simp: represents_def split: prod.splits)
  have p: "length buffer = b" "n < b" "p = take n buffer" using assms by (auto simp: represents_def st)
  show ?thesis
  proof (cases "length xs < b - n")
    case True
    with assms update_fits show ?thesis by (simp add: st)
  next
    case False
    show ?thesis
    proof (cases "n = 0")
      case True
      with False p rest_represented [of buffer 0 xs acc] show ?thesis
        by (simp add: st block_update_def Let_def)
    next
      case fill: False
      let ?l = "b - n"
      let ?buffer = "put buffer n (take ?l xs)"
      have len: "length (take ?l xs) = ?l" "length ?buffer = b" using False p by (simp_all add: length_put)
      have full: "?buffer = p @ take ?l xs" using take_put [of n buffer "take ?l xs"] p len by simp
      have "fst (consume acc ?buffer 0 b) = f acc ?buffer"
        using consumes [of b 0 ?buffer acc] len(2) block_pos by (simp add: absorb_block)
      moreover have "absorb b f acc (p @ xs) = absorb b f (f acc ?buffer) (drop ?l xs)"
      proof -
        have "p @ xs = ?buffer @ drop ?l xs" by (simp add: full)
        then show ?thesis by (simp only: absorb_append [of b f acc ?buffer]) (simp add: absorb_block block_pos len(2))
      qed
      ultimately show ?thesis
        using False fill rest_represented [OF len(2), of ?l xs "f acc ?buffer"] p
        by (simp add: st block_update_def Let_def)
    qed
  qed
qed

lemma updates_represent:
  assumes "represents st (acc, p)"
  shows "represents (foldl (\<lambda>st xs. block_update b consume st xs (length xs)) st ps) (absorb b f acc (p @ concat ps))"
  using assms
proof (induction ps arbitrary: st acc p)
  case Nil
  then have "absorb b f acc p = (acc, p)" by (auto simp: represents_def absorb_short)
  with Nil show ?case by simp
next
  case (Cons xs ps)
  let ?r = "absorb b f acc (p @ xs)"
  from Cons.IH [of _ "fst ?r" "snd ?r"] update_represents [OF Cons.prems, of xs]
  show ?case using absorb_append [of b f acc "p @ xs" "concat ps"] by (simp add: Let_def)
qed

end

section \<open>XXH32\<close>

definition XXH32_round :: "u32 \<Rightarrow> u32 \<Rightarrow> u32" where
  "XXH32_round acc input = XXH_rotl32 (acc + input * XXH_PRIME32_2) 13 * XXH_PRIME32_1"

definition XXH32_avalanche :: "u32 \<Rightarrow> u32" where
  "XXH32_avalanche hash0 =
     (let hash1 = hash0 XOR drop_bit 15 hash0;
          hash2 = hash1 * XXH_PRIME32_2;
          hash3 = hash2 XOR drop_bit 13 hash2;
          hash4 = hash3 * XXH_PRIME32_3;
          hash5 = hash4 XOR drop_bit 16 hash4
      in hash5)"

definition XXH32_initAccs :: "u32 \<Rightarrow> u32 list" where
  "XXH32_initAccs seed = [seed + XXH_PRIME32_1 + XXH_PRIME32_2, seed + XXH_PRIME32_2, seed + 0, seed - XXH_PRIME32_1]"

text \<open>The body of the loop: one stripe of 16 bytes.\<close>

definition XXH32_stripe :: "u32 list \<Rightarrow> bytes \<Rightarrow> nat \<Rightarrow> u32 list" where
  "XXH32_stripe acc input off =
     (let a = acc[0 := XXH32_round (acc ! 0) (XXH_readLE32 input off)];
          b = a[1 := XXH32_round (a ! 1) (XXH_readLE32 input (off + 4))];
          c = b[2 := XXH32_round (b ! 2) (XXH_readLE32 input (off + 8))]
      in c[3 := XXH32_round (c ! 3) (XXH_readLE32 input (off + 12))])"

function XXH32_consume_loop :: "u32 list \<Rightarrow> bytes \<Rightarrow> nat \<Rightarrow> nat \<Rightarrow> u32 list \<times> nat" where
  "XXH32_consume_loop acc input off limit =
     (let acc1 = XXH32_stripe acc input off; off1 = off + 16
      in if off1 < limit then XXH32_consume_loop acc1 input off1 limit else (acc1, off1))"
  by pat_completeness auto
termination by (relation "measure (\<lambda>(acc, input, off, limit). limit - off)") auto

declare XXH32_consume_loop.simps [simp del]

definition XXH32_consumeLong :: "u32 list \<Rightarrow> bytes \<Rightarrow> nat \<Rightarrow> nat \<Rightarrow> u32 list \<times> nat" where
  "XXH32_consumeLong acc input off len = XXH32_consume_loop acc input off (off + len - 15)"

definition XXH32_mergeAccs :: "u32 list \<Rightarrow> u32" where
  "XXH32_mergeAccs acc = XXH_rotl32 (acc ! 0) 1 + XXH_rotl32 (acc ! 1) 7 + XXH_rotl32 (acc ! 2) 12 + XXH_rotl32 (acc ! 3) 18"

text \<open>\<open>XXH_PROCESS1\<close> and \<open>XXH_PROCESS4\<close> on the hash and the pointer.\<close>

definition XXH32_process1 :: "u32 \<times> bytes \<Rightarrow> u32 \<times> bytes" where
  "XXH32_process1 s =
     (XXH_rotl32 (fst s + ucast (snd s ! 0) * XXH_PRIME32_5) 11 * XXH_PRIME32_1, drop 1 (snd s))"

definition XXH32_process4 :: "u32 \<times> bytes \<Rightarrow> u32 \<times> bytes" where
  "XXH32_process4 s =
     (XXH_rotl32 (fst s + XXH_readLE32 (snd s) 0 * XXH_PRIME32_3) 17 * XXH_PRIME32_4, drop 4 (snd s))"

function XXH32_finalize_loop4 :: "u32 \<times> bytes \<Rightarrow> nat \<Rightarrow> (u32 \<times> bytes) \<times> nat" where
  "XXH32_finalize_loop4 s len = (if 4 \<le> len then XXH32_finalize_loop4 (XXH32_process4 s) (len - 4) else (s, len))"
  by pat_completeness auto
termination by (relation "measure snd") auto

function XXH32_finalize_loop1 :: "u32 \<times> bytes \<Rightarrow> nat \<Rightarrow> u32 \<times> bytes" where
  "XXH32_finalize_loop1 s len = (if 0 < len then XXH32_finalize_loop1 (XXH32_process1 s) (len - 1) else s)"
  by pat_completeness auto
termination by (relation "measure snd") auto

declare XXH32_finalize_loop4.simps [simp del] XXH32_finalize_loop1.simps [simp del]

definition XXH32_finalize :: "u32 \<Rightarrow> bytes \<Rightarrow> nat \<Rightarrow> u32" where
  "XXH32_finalize hash ptr len =
     (let (s, n) = XXH32_finalize_loop4 (hash, ptr) (len mod 16)
      in XXH32_avalanche (fst (XXH32_finalize_loop1 s n)))"

text \<open>The switch of builds with \<open>XXH32_ENDJMP\<close>; a label falls through to the one after it.\<close>

definition XXH32_finalize_jmp :: "u32 \<Rightarrow> bytes \<Rightarrow> nat \<Rightarrow> u32" where
  "XXH32_finalize_jmp hash ptr len =
     (let ret = (\<lambda>s. XXH32_avalanche (fst s)); p4 = XXH32_process4; p1 = XXH32_process1;
          case4 = (\<lambda>s. ret (p4 s)); case8 = (\<lambda>s. case4 (p4 s)); case12 = (\<lambda>s. case8 (p4 s));
          case5 = (\<lambda>s. ret (p1 (p4 s))); case9 = (\<lambda>s. case5 (p4 s)); case13 = (\<lambda>s. case9 (p4 s));
          case6 = (\<lambda>s. ret (p1 (p1 (p4 s)))); case10 = (\<lambda>s. case6 (p4 s)); case14 = (\<lambda>s. case10 (p4 s));
          case0 = ret; case1 = (\<lambda>s. case0 (p1 s)); case2 = (\<lambda>s. case1 (p1 s)); case3 = (\<lambda>s. case2 (p1 s));
          case7 = (\<lambda>s. case3 (p4 s)); case11 = (\<lambda>s. case7 (p4 s)); case15 = (\<lambda>s. case11 (p4 s));
          n = len mod 16; s = (hash, ptr)
      in if n = 12 then case12 s else if n = 8 then case8 s else if n = 4 then case4 s
         else if n = 13 then case13 s else if n = 9 then case9 s else if n = 5 then case5 s
         else if n = 14 then case14 s else if n = 10 then case10 s else if n = 6 then case6 s
         else if n = 15 then case15 s else if n = 11 then case11 s else if n = 7 then case7 s
         else if n = 3 then case3 s else if n = 2 then case2 s else if n = 1 then case1 s
         else case0 s)"

definition XXH32_endian_align :: "bytes \<Rightarrow> nat \<Rightarrow> u32 \<Rightarrow> u32" where
  "XXH32_endian_align input len seed =
     (let (h32, rest) =
            (if 16 \<le> len then
               let (acc, off) = XXH32_consumeLong (XXH32_initAccs seed) input 0 len
               in (XXH32_mergeAccs acc, drop off input)
             else (seed + XXH_PRIME32_5, input))
      in XXH32_finalize (h32 + of_nat len) rest (len mod 16))"

definition XXH32 :: "bytes \<Rightarrow> nat \<Rightarrow> u32 \<Rightarrow> u32" where
  "XXH32 input len seed = XXH32_endian_align input len seed"

record XXH32_state_t =
  total_len_32 :: u32
  large_len :: u32
  acc32 :: "u32 list"
  buffer32 :: bytes
  bufferedSize32 :: nat

definition XXH32_reset :: "u32 \<Rightarrow> XXH32_state_t" where
  "XXH32_reset seed =
     \<lparr>total_len_32 = 0, large_len = 0, acc32 = XXH32_initAccs seed, buffer32 = replicate 16 0, bufferedSize32 = 0\<rparr>"

text \<open>\<open>XXH32_update\<close>: the fill is asserted to be less than the size of the buffer, which a
  state that was never reset need not satisfy.\<close>

definition XXH32_update :: "XXH32_state_t \<Rightarrow> bytes option \<Rightarrow> nat \<Rightarrow> XXH32_state_t res" where
  "XXH32_update st input len =
     (case input of None \<Rightarrow> bindr (assert_c (len = 0)) (\<lambda>_. Inr st)
      | Some xs \<Rightarrow>
          let total = total_len_32 st + of_nat len;
              large = large_len st OR of_bool (16 \<le> len \<or> 16 \<le> total)
          in bindr (assert_c (bufferedSize32 st < 16)) (\<lambda>_.
             let (acc, buffer, size) = block_update 16 XXH32_consumeLong (acc32 st, buffer32 st, bufferedSize32 st) xs len
             in Inr (st\<lparr>total_len_32 := total, large_len := large, acc32 := acc, buffer32 := buffer, bufferedSize32 := size\<rparr>)))"

definition XXH32_digest :: "XXH32_state_t \<Rightarrow> u32" where
  "XXH32_digest st =
     (let h32 = (if large_len st \<noteq> 0 then XXH32_mergeAccs (acc32 st) else acc32 st ! 2 + XXH_PRIME32_5)
      in XXH32_finalize (h32 + total_len_32 st) (buffer32 st) (bufferedSize32 st))"

section \<open>XXH64\<close>

definition XXH64_round :: "u64 \<Rightarrow> u64 \<Rightarrow> u64" where
  "XXH64_round acc input = XXH_rotl64 (acc + input * XXH_PRIME64_2) 31 * XXH_PRIME64_1"

definition XXH64_mergeRound :: "u64 \<Rightarrow> u64 \<Rightarrow> u64" where
  "XXH64_mergeRound acc val0 = (let val1 = XXH64_round 0 val0 in (acc XOR val1) * XXH_PRIME64_1 + XXH_PRIME64_4)"

definition XXH64_initAccs :: "u64 \<Rightarrow> u64 list" where
  "XXH64_initAccs seed = [seed + XXH_PRIME64_1 + XXH_PRIME64_2, seed + XXH_PRIME64_2, seed + 0, seed - XXH_PRIME64_1]"

definition XXH64_stripe :: "u64 list \<Rightarrow> bytes \<Rightarrow> nat \<Rightarrow> u64 list" where
  "XXH64_stripe acc input off =
     (let a = acc[0 := XXH64_round (acc ! 0) (XXH_readLE64 input off)];
          b = a[1 := XXH64_round (a ! 1) (XXH_readLE64 input (off + 8))];
          c = b[2 := XXH64_round (b ! 2) (XXH_readLE64 input (off + 16))]
      in c[3 := XXH64_round (c ! 3) (XXH_readLE64 input (off + 24))])"

function XXH64_consume_loop :: "u64 list \<Rightarrow> bytes \<Rightarrow> nat \<Rightarrow> nat \<Rightarrow> u64 list \<times> nat" where
  "XXH64_consume_loop acc input off limit =
     (let acc1 = XXH64_stripe acc input off; off1 = off + 32
      in if off1 < limit then XXH64_consume_loop acc1 input off1 limit else (acc1, off1))"
  by pat_completeness auto
termination by (relation "measure (\<lambda>(acc, input, off, limit). limit - off)") auto

declare XXH64_consume_loop.simps [simp del]

definition XXH64_consumeLong :: "u64 list \<Rightarrow> bytes \<Rightarrow> nat \<Rightarrow> nat \<Rightarrow> u64 list \<times> nat" where
  "XXH64_consumeLong acc input off len = XXH64_consume_loop acc input off (off + len - 31)"

definition XXH64_mergeAccs :: "u64 list \<Rightarrow> u64" where
  "XXH64_mergeAccs acc =
     (let h0 = XXH_rotl64 (acc ! 0) 1 + XXH_rotl64 (acc ! 1) 7 + XXH_rotl64 (acc ! 2) 12 + XXH_rotl64 (acc ! 3) 18;
          h1 = XXH64_mergeRound h0 (acc ! 0);
          h2 = XXH64_mergeRound h1 (acc ! 1);
          h3 = XXH64_mergeRound h2 (acc ! 2)
      in XXH64_mergeRound h3 (acc ! 3))"

function XXH64_finalize_loop8 :: "u64 \<Rightarrow> bytes \<Rightarrow> nat \<Rightarrow> u64 \<times> bytes \<times> nat" where
  "XXH64_finalize_loop8 hash ptr len =
     (if 8 \<le> len then
        let k1 = XXH64_round 0 (XXH_readLE64 ptr 0)
        in XXH64_finalize_loop8 (XXH_rotl64 (hash XOR k1) 27 * XXH_PRIME64_1 + XXH_PRIME64_4) (drop 8 ptr) (len - 8)
      else (hash, ptr, len))"
  by pat_completeness auto
termination by (relation "measure (\<lambda>(hash, ptr, len). len)") auto

definition XXH64_finalize_4 :: "u64 \<Rightarrow> bytes \<Rightarrow> nat \<Rightarrow> u64 \<times> bytes \<times> nat" where
  "XXH64_finalize_4 hash ptr len =
     (if 4 \<le> len then
        (XXH_rotl64 (hash XOR ucast (XXH_readLE32 ptr 0) * XXH_PRIME64_1) 23 * XXH_PRIME64_2 + XXH_PRIME64_3,
         drop 4 ptr, len - 4)
      else (hash, ptr, len))"

function XXH64_finalize_loop1 :: "u64 \<Rightarrow> bytes \<Rightarrow> nat \<Rightarrow> u64" where
  "XXH64_finalize_loop1 hash ptr len =
     (if 0 < len then
        XXH64_finalize_loop1 (XXH_rotl64 (hash XOR ucast (ptr ! 0) * XXH_PRIME64_5) 11 * XXH_PRIME64_1) (drop 1 ptr) (len - 1)
      else hash)"
  by pat_completeness auto
termination by (relation "measure (\<lambda>(hash, ptr, len). len)") auto

declare XXH64_finalize_loop8.simps [simp del] XXH64_finalize_loop1.simps [simp del]

definition XXH64_finalize :: "u64 \<Rightarrow> bytes \<Rightarrow> nat \<Rightarrow> u64" where
  "XXH64_finalize hash ptr len =
     (let (h1, p1, n1) = XXH64_finalize_loop8 hash ptr (len mod 32);
          (h2, p2, n2) = XXH64_finalize_4 h1 p1 n1
      in XXH64_avalanche (XXH64_finalize_loop1 h2 p2 n2))"

definition XXH64_endian_align :: "bytes \<Rightarrow> nat \<Rightarrow> u64 \<Rightarrow> u64" where
  "XXH64_endian_align input len seed =
     (let (h64, rest) =
            (if 32 \<le> len then
               let (acc, off) = XXH64_consumeLong (XXH64_initAccs seed) input 0 len
               in (XXH64_mergeAccs acc, drop off input)
             else (seed + XXH_PRIME64_5, input))
      in XXH64_finalize (h64 + of_nat len) rest len)"

definition XXH64 :: "bytes \<Rightarrow> nat \<Rightarrow> u64 \<Rightarrow> u64" where
  "XXH64 input len seed = XXH64_endian_align input len seed"

record XXH64_state_t =
  total_len :: u64
  acc64 :: "u64 list"
  buffer64 :: bytes
  bufferedSize64 :: nat

definition XXH64_reset :: "u64 \<Rightarrow> XXH64_state_t" where
  "XXH64_reset seed =
     \<lparr>total_len = 0, acc64 = XXH64_initAccs seed, buffer64 = replicate 32 0, bufferedSize64 = 0\<rparr>"

definition XXH64_update :: "XXH64_state_t \<Rightarrow> bytes option \<Rightarrow> nat \<Rightarrow> XXH64_state_t res" where
  "XXH64_update st input len =
     (case input of None \<Rightarrow> bindr (assert_c (len = 0)) (\<lambda>_. Inr st)
      | Some xs \<Rightarrow>
          bindr (assert_c (bufferedSize64 st \<le> 32)) (\<lambda>_.
          let (acc, buffer, size) = block_update 32 XXH64_consumeLong (acc64 st, buffer64 st, bufferedSize64 st) xs len
          in Inr (st\<lparr>total_len := total_len st + of_nat len, acc64 := acc, buffer64 := buffer, bufferedSize64 := size\<rparr>)))"

definition XXH64_digest :: "XXH64_state_t \<Rightarrow> u64" where
  "XXH64_digest st =
     (let h64 = (if 32 \<le> total_len st then XXH64_mergeAccs (acc64 st) else acc64 st ! 2 + XXH_PRIME64_5)
      in XXH64_finalize (h64 + total_len st) (buffer64 st) (unat (total_len st)))"

section \<open>Both hashes consume blocks\<close>

lemma XXH32_stripe_block:
  "16 \<le> n \<Longrightarrow> XXH32_stripe acc (take n (drop off xs)) 0 = XXH32_stripe acc xs off"
  by (simp add: XXH32_stripe_def readLE32_take readLE32_drop)

lemma XXH64_stripe_block:
  "32 \<le> n \<Longrightarrow> XXH64_stripe acc (take n (drop off xs)) 0 = XXH64_stripe acc xs off"
  by (simp add: XXH64_stripe_def readLE64_take readLE64_drop)

lemma XXH32_consumeLong_absorb:
  assumes "16 \<le> len" "off + len \<le> length xs"
  shows "XXH32_consumeLong acc xs off len
    = (fst (absorb 16 (\<lambda>acc blk. XXH32_stripe acc blk 0) acc (take len (drop off xs))), off + 16 * (len div 16))"
  using assms
proof (induction len arbitrary: acc off rule: less_induct)
  case (less len)
  let ?acc1 = "XXH32_stripe acc xs off"
  have first: "absorb 16 (\<lambda>acc blk. XXH32_stripe acc blk 0) acc (take len (drop off xs))
      = absorb 16 (\<lambda>acc blk. XXH32_stripe acc blk 0) ?acc1 (take (len - 16) (drop (off + 16) xs))"
    using less.prems by (subst absorb.simps) (simp add: XXH32_stripe_block drop_take min_absorb1 add.commute)
  have d: "len div 16 = Suc ((len - 16) div 16)" using less.prems(1) by (simp add: le_div_geq)
  show ?case
  proof (cases "16 \<le> len - 16")
    case True
    then have "off + 16 < off + len - 15" "off + 16 + (len - 16) - 15 = off + len - 15" by arith+
    then have "XXH32_consumeLong acc xs off len = XXH32_consumeLong ?acc1 xs (off + 16) (len - 16)"
      unfolding XXH32_consumeLong_def by (subst XXH32_consume_loop.simps) (simp only: Let_def if_True)
    with True less.IH [of "len - 16" "off + 16" ?acc1] less.prems first d show ?thesis by simp
  next
    case False
    then have "(len - 16) div 16 = 0" by simp
    moreover from False have "absorb 16 (\<lambda>acc blk. XXH32_stripe acc blk 0) ?acc1 (take (len - 16) (drop (off + 16) xs))
        = (?acc1, take (len - 16) (drop (off + 16) xs))"
      by (intro absorb_short) simp
    moreover have "\<not> off + 16 < off + len - 15" using False less.prems(1) by arith
    then have "XXH32_consumeLong acc xs off len = (?acc1, off + 16)"
      unfolding XXH32_consumeLong_def by (subst XXH32_consume_loop.simps) (simp only: Let_def if_False)
    ultimately show ?thesis using first d by simp
  qed
qed

lemma XXH64_consumeLong_absorb:
  assumes "32 \<le> len" "off + len \<le> length xs"
  shows "XXH64_consumeLong acc xs off len
    = (fst (absorb 32 (\<lambda>acc blk. XXH64_stripe acc blk 0) acc (take len (drop off xs))), off + 32 * (len div 32))"
  using assms
proof (induction len arbitrary: acc off rule: less_induct)
  case (less len)
  let ?acc1 = "XXH64_stripe acc xs off"
  have first: "absorb 32 (\<lambda>acc blk. XXH64_stripe acc blk 0) acc (take len (drop off xs))
      = absorb 32 (\<lambda>acc blk. XXH64_stripe acc blk 0) ?acc1 (take (len - 32) (drop (off + 32) xs))"
    using less.prems by (subst absorb.simps) (simp add: XXH64_stripe_block drop_take min_absorb1 add.commute)
  have d: "len div 32 = Suc ((len - 32) div 32)" using less.prems(1) by (simp add: le_div_geq)
  show ?case
  proof (cases "32 \<le> len - 32")
    case True
    then have "off + 32 < off + len - 31" "off + 32 + (len - 32) - 31 = off + len - 31" by arith+
    then have "XXH64_consumeLong acc xs off len = XXH64_consumeLong ?acc1 xs (off + 32) (len - 32)"
      unfolding XXH64_consumeLong_def by (subst XXH64_consume_loop.simps) (simp only: Let_def if_True)
    with True less.IH [of "len - 32" "off + 32" ?acc1] less.prems first d show ?thesis by simp
  next
    case False
    then have "(len - 32) div 32 = 0" by simp
    moreover from False have "absorb 32 (\<lambda>acc blk. XXH64_stripe acc blk 0) ?acc1 (take (len - 32) (drop (off + 32) xs))
        = (?acc1, take (len - 32) (drop (off + 32) xs))"
      by (intro absorb_short) simp
    moreover have "\<not> off + 32 < off + len - 31" using False less.prems(1) by arith
    then have "XXH64_consumeLong acc xs off len = (?acc1, off + 32)"
      unfolding XXH64_consumeLong_def by (subst XXH64_consume_loop.simps) (simp only: Let_def if_False)
    ultimately show ?thesis using first d by simp
  qed
qed

interpretation b32: block_consumer 16 "\<lambda>acc blk. XXH32_stripe acc blk 0" XXH32_consumeLong
  by unfold_locales (simp_all add: XXH32_consumeLong_absorb)

interpretation b64: block_consumer 32 "\<lambda>acc blk. XXH64_stripe acc blk 0" XXH64_consumeLong
  by unfold_locales (simp_all add: XXH64_consumeLong_absorb)

section \<open>The last bytes\<close>

lemma loop1_32_take: "n \<le> length xs \<Longrightarrow> fst (XXH32_finalize_loop1 (h, take n xs) n) = fst (XXH32_finalize_loop1 (h, xs) n)"
proof (induction n arbitrary: h xs)
  case (Suc n)
  then show ?case
    by (simp add: XXH32_finalize_loop1.simps [of _ "Suc n"] XXH32_process1_def drop_take flip: drop_Suc)
qed (simp add: XXH32_finalize_loop1.simps [of _ 0])

lemma loops_32_take:
  "n \<le> length xs \<Longrightarrow>
    (let (s, k) = XXH32_finalize_loop4 (h, take n xs) n in fst (XXH32_finalize_loop1 s k))
    = (let (s, k) = XXH32_finalize_loop4 (h, xs) n in fst (XXH32_finalize_loop1 s k))"
proof (induction n arbitrary: h xs rule: less_induct)
  case (less n)
  show ?case
  proof (cases "4 \<le> n")
    case True
    with less.prems less.IH [of "n - 4" "drop 4 xs"] show ?thesis
      by (subst (1 2) XXH32_finalize_loop4.simps) (simp add: XXH32_process4_def readLE32_take drop_take)
  next
    case False
    with less.prems show ?thesis
      by (subst (1 2) XXH32_finalize_loop4.simps) (simp add: loop1_32_take)
  qed
qed

lemma XXH32_finalize_take:
  "n < 16 \<Longrightarrow> n \<le> length xs \<Longrightarrow> XXH32_finalize h (take n xs) n = XXH32_finalize h xs n"
  using loops_32_take [of n xs h] by (auto simp: XXH32_finalize_def split: prod.splits)

lemma loop1_64_take: "n \<le> length xs \<Longrightarrow> XXH64_finalize_loop1 h (take n xs) n = XXH64_finalize_loop1 h xs n"
proof (induction n arbitrary: h xs)
  case (Suc n)
  then show ?case
    by (simp add: XXH64_finalize_loop1.simps [of _ _ "Suc n"] drop_take flip: drop_Suc)
qed (simp add: XXH64_finalize_loop1.simps [of _ _ 0])

lemma finalize_4_64_take:
  "n \<le> length xs \<Longrightarrow>
    (let (h2, p2, n2) = XXH64_finalize_4 h (take n xs) n in XXH64_finalize_loop1 h2 p2 n2)
    = (let (h2, p2, n2) = XXH64_finalize_4 h xs n in XXH64_finalize_loop1 h2 p2 n2)"
  using loop1_64_take [of "n - 4" "drop 4 xs"] loop1_64_take [of n xs]
  by (simp add: XXH64_finalize_4_def readLE32_take drop_take)

lemma loops_64_take:
  "n \<le> length xs \<Longrightarrow>
    (let (h1, p1, n1) = XXH64_finalize_loop8 h (take n xs) n; (h2, p2, n2) = XXH64_finalize_4 h1 p1 n1
     in XXH64_finalize_loop1 h2 p2 n2)
    = (let (h1, p1, n1) = XXH64_finalize_loop8 h xs n; (h2, p2, n2) = XXH64_finalize_4 h1 p1 n1
       in XXH64_finalize_loop1 h2 p2 n2)"
proof (induction n arbitrary: h xs rule: less_induct)
  case (less n)
  show ?case
  proof (cases "8 \<le> n")
    case True
    with less.prems less.IH [of "n - 8" "drop 8 xs"] show ?thesis
      by (subst (1 2) XXH64_finalize_loop8.simps) (simp add: readLE64_take drop_take)
  next
    case False
    with less.prems show ?thesis
      using finalize_4_64_take [of n xs h] by (subst (1 2) XXH64_finalize_loop8.simps) simp
  qed
qed

lemma XXH64_finalize_take:
  "k mod 32 = n \<Longrightarrow> l mod 32 = n \<Longrightarrow> n \<le> length xs \<Longrightarrow> XXH64_finalize h (take n xs) k = XXH64_finalize h xs l"
  using loops_64_take [of n xs h] by (auto simp: XXH64_finalize_def split: prod.splits)

text \<open>The switch and the loops agree on every length.\<close>

lemma XXH32_finalize_jmp_eq: "XXH32_finalize_jmp hash ptr len = XXH32_finalize hash ptr len"
proof -
  have small: "k = 0 \<or> k = 1 \<or> k = 2 \<or> k = 3" if "k < 4" for k :: nat using that by presburger
  define q where "q = len mod 16 div 4"
  define r where "r = len mod 4"
  have q: "q = 0 \<or> q = 1 \<or> q = 2 \<or> q = 3" and r: "r = 0 \<or> r = 1 \<or> r = 2 \<or> r = 3"
    by (rule small, simp add: q_def r_def)+
  have len: "len mod 16 = 4 * q + r" using mod_mult2_eq [of len 4 4] by (simp add: q_def r_def mod_mult2_eq)
  show ?thesis
    using q r unfolding XXH32_finalize_jmp_def XXH32_finalize_def Let_def len
    by (elim disjE)
      (simp_all add: XXH32_finalize_loop4.simps [of _ "numeral k" for k] XXH32_finalize_loop1.simps [of _ "numeral k" for k]
        XXH32_finalize_loop4.simps [of _ 0] XXH32_finalize_loop1.simps [of _ 0]
        XXH32_finalize_loop4.simps [of _ "Suc 0"] XXH32_finalize_loop1.simps [of _ "Suc 0"] del: add_2_eq_Suc add_2_eq_Suc')
qed

section \<open>A stream gives the one-shot hash\<close>

text \<open>Updates one after the other, and the state behind the assertion of an update.\<close>

fun updates :: "('st \<Rightarrow> bytes option \<Rightarrow> nat \<Rightarrow> 'st res) \<Rightarrow> 'st \<Rightarrow> bytes list \<Rightarrow> 'st res" where
  "updates update st [] = Inr st"
| "updates update st (p # ps) = bindr (update st (Some p) (length p)) (\<lambda>st'. updates update st' ps)"

lemma updates_append: "updates update st (ps @ qs) = bindr (updates update st ps) (\<lambda>st'. updates update st' qs)"
  by (induction ps arbitrary: st) (simp_all add: bindr_assoc)

definition XXH32_feed :: "XXH32_state_t \<Rightarrow> bytes \<Rightarrow> XXH32_state_t" where
  "XXH32_feed st xs =
     (let total = total_len_32 st + of_nat (length xs);
          (acc, buffer, size) = block_update 16 XXH32_consumeLong (acc32 st, buffer32 st, bufferedSize32 st) xs (length xs)
      in st\<lparr>total_len_32 := total, large_len := large_len st OR of_bool (16 \<le> length xs \<or> 16 \<le> total),
            acc32 := acc, buffer32 := buffer, bufferedSize32 := size\<rparr>)"

definition XXH64_feed :: "XXH64_state_t \<Rightarrow> bytes \<Rightarrow> XXH64_state_t" where
  "XXH64_feed st xs =
     (let (acc, buffer, size) = block_update 32 XXH64_consumeLong (acc64 st, buffer64 st, bufferedSize64 st) xs (length xs)
      in st\<lparr>total_len := total_len st + of_nat (length xs), acc64 := acc, buffer64 := buffer, bufferedSize64 := size\<rparr>)"

lemma XXH32_update_feed:
  "XXH32_update st (Some xs) (length xs) = (if bufferedSize32 st < 16 then Inr (XXH32_feed st xs) else Inl Assert_failed)"
  by (simp add: XXH32_update_def XXH32_feed_def assert_c_def Let_def split: prod.splits)

lemma XXH64_update_feed:
  "XXH64_update st (Some xs) (length xs) = (if bufferedSize64 st \<le> 32 then Inr (XXH64_feed st xs) else Inl Assert_failed)"
  by (simp add: XXH64_update_def XXH64_feed_def assert_c_def Let_def split: prod.splits)

lemma XXH32_updates:
  "(\<lambda>st. (acc32 st, buffer32 st, bufferedSize32 st)) (foldl XXH32_feed st ps)
    = foldl (\<lambda>st p. block_update 16 XXH32_consumeLong st p (length p)) (acc32 st, buffer32 st, bufferedSize32 st) ps"
  by (induction ps arbitrary: st) (simp_all add: XXH32_feed_def Let_def split: prod.splits)

lemma XXH32_update_total:
  assumes "total_len_32 st = of_nat n" "large_len st \<noteq> 0 \<longleftrightarrow> 16 \<le> n"
  shows "total_len_32 (XXH32_feed st p) = of_nat (n + length p)
    \<and> (large_len (XXH32_feed st p) \<noteq> 0 \<longleftrightarrow> 16 \<le> n + length p)"
proof -
  have big: "16 \<le> (of_nat (n + length p) :: u32) \<longleftrightarrow> 16 \<le> n + length p" if "n + length p < 2 ^ 32"
    using that by (simp add: word_le_nat_alt unat_of_nat del: of_nat_add)
  have "large_len st OR of_bool (16 \<le> length p \<or> 16 \<le> (of_nat (n + length p) :: u32)) \<noteq> 0 \<longleftrightarrow> 16 \<le> n + length p"
  proof (cases "16 \<le> n \<or> 16 \<le> length p")
    case True
    then show ?thesis using assms(2) by (auto simp: or_eq_0_iff)
  next
    case False
    with big assms(2) show ?thesis by (auto simp: or_eq_0_iff)
  qed
  moreover have "large_len (XXH32_feed st p)
      = (large_len st OR of_bool (16 \<le> length p \<or> 16 \<le> (of_nat (n + length p) :: u32)))"
    "total_len_32 (XXH32_feed st p) = of_nat (n + length p)"
    using assms(1) by (auto simp: XXH32_feed_def Let_def split: prod.splits)
  ultimately show ?thesis by (simp only: simp_thms)
qed

lemma XXH32_updates_total:
  assumes "total_len_32 st = of_nat n" "large_len st \<noteq> 0 \<longleftrightarrow> 16 \<le> n"
  shows "total_len_32 (foldl XXH32_feed st ps) = of_nat (n + length (concat ps))
    \<and> (large_len (foldl XXH32_feed st ps) \<noteq> 0 \<longleftrightarrow> 16 \<le> n + length (concat ps))"
  using assms
proof (induction ps arbitrary: st n)
  case (Cons p ps)
  from Cons.IH XXH32_update_total [OF Cons.prems] show ?case by (fastforce simp: add.assoc)
qed simp

text \<open>The one-shot hash in terms of \<open>absorb\<close>.\<close>

lemma XXH32_absorb:
  "XXH32 xs (length xs) seed =
     (let (acc, rest) = absorb 16 (\<lambda>acc blk. XXH32_stripe acc blk 0) (XXH32_initAccs seed) xs
      in XXH32_finalize ((if 16 \<le> length xs then XXH32_mergeAccs acc else acc ! 2 + XXH_PRIME32_5) + of_nat (length xs))
           rest (length rest))"
proof -
  let ?a = "absorb 16 (\<lambda>acc blk. XXH32_stripe acc blk 0) (XXH32_initAccs seed) xs"
  have rest: "snd ?a = drop (16 * (length xs div 16)) xs" by (simp add: absorb_rest)
  then have "length (snd ?a) = length xs mod 16" by (simp add: minus_mult_div_eq_mod)
  then show ?thesis
    using rest XXH32_consumeLong_absorb [of "length xs" 0 xs "XXH32_initAccs seed"]
    by (auto simp: XXH32_def XXH32_endian_align_def Let_def absorb_short XXH32_initAccs_def XXH32_finalize_def split: prod.splits)
qed

lemma XXH32_feeds:
  "bufferedSize32 (foldl XXH32_feed (XXH32_reset seed) ps) < 16"
  "XXH32_digest (foldl XXH32_feed (XXH32_reset seed) ps) = XXH32 (concat ps) (length (concat ps)) seed"
proof -
  let ?init = "XXH32_reset seed" and ?xs = "concat ps"
  let ?st = "foldl XXH32_feed ?init ps"
  let ?a = "absorb 16 (\<lambda>acc blk. XXH32_stripe acc blk 0) (XXH32_initAccs seed) ?xs"
  have "b32.represents (acc32 ?init, buffer32 ?init, bufferedSize32 ?init) (XXH32_initAccs seed, [])"
    by (simp add: b32.represents_def XXH32_reset_def)
  from b32.updates_represent [OF this, of ps]
  have "b32.represents (acc32 ?st, buffer32 ?st, bufferedSize32 ?st) ?a"
    by (simp flip: XXH32_updates)
  then have r: "bufferedSize32 ?st < 16" "bufferedSize32 ?st \<le> length (buffer32 ?st)" "acc32 ?st = fst ?a"
    "snd ?a = take (bufferedSize32 ?st) (buffer32 ?st)"
    by (auto simp: b32.represents_def)
  have t: "total_len_32 ?st = of_nat (length ?xs)" "large_len ?st \<noteq> 0 \<longleftrightarrow> 16 \<le> length ?xs"
    using XXH32_updates_total [of ?init 0 ps] by (simp_all add: XXH32_reset_def)
  have "length (snd ?a) = bufferedSize32 ?st" using r(2,4) by simp
  with r t show "XXH32_digest ?st = XXH32 ?xs (length ?xs) seed" "bufferedSize32 ?st < 16"
    by (simp_all add: XXH32_absorb XXH32_digest_def Let_def XXH32_finalize_take case_prod_beta)
qed

lemma XXH32_updates_feed: "updates XXH32_update (XXH32_reset seed) ps = Inr (foldl XXH32_feed (XXH32_reset seed) ps)"
proof (induction ps rule: rev_induct)
  case (snoc p ps)
  then show ?case using XXH32_feeds(1) [of seed ps] by (simp add: updates_append XXH32_update_feed)
qed simp

text \<open>\<open>XXH32\<close> in a stream: after a reset any updates
  succeed, and \<open>XXH32_digest\<close> gives the hash of
  all the bytes together, however they were cut, also when there are so many that the counter of
  32 bits has wrapped.\<close>

theorem XXH32_stream_is_one_shot:
  "\<exists>st. updates XXH32_update (XXH32_reset seed) ps = Inr st
    \<and> XXH32_digest st = XXH32 (concat ps) (length (concat ps)) seed"
  using XXH32_updates_feed XXH32_feeds(2) by blast

lemma XXH64_updates:
  "(\<lambda>st. (acc64 st, buffer64 st, bufferedSize64 st)) (foldl XXH64_feed st ps)
    = foldl (\<lambda>st p. block_update 32 XXH64_consumeLong st p (length p)) (acc64 st, buffer64 st, bufferedSize64 st) ps"
  by (induction ps arbitrary: st) (simp_all add: XXH64_feed_def Let_def split: prod.splits)

lemma XXH64_updates_total:
  "total_len (foldl XXH64_feed st ps) = total_len st + of_nat (length (concat ps))"
  by (induction ps arbitrary: st) (simp_all add: XXH64_feed_def Let_def split: prod.splits)

lemma XXH64_absorb:
  "XXH64 xs (length xs) seed =
     (let (acc, rest) = absorb 32 (\<lambda>acc blk. XXH64_stripe acc blk 0) (XXH64_initAccs seed) xs
      in XXH64_finalize ((if 32 \<le> length xs then XXH64_mergeAccs acc else acc ! 2 + XXH_PRIME64_5) + of_nat (length xs))
           rest (length xs))"
proof -
  let ?a = "absorb 32 (\<lambda>acc blk. XXH64_stripe acc blk 0) (XXH64_initAccs seed) xs"
  have rest: "snd ?a = drop (32 * (length xs div 32)) xs" by (simp add: absorb_rest)
  then show ?thesis
    using XXH64_consumeLong_absorb [of "length xs" 0 xs "XXH64_initAccs seed"]
    by (auto simp: XXH64_def XXH64_endian_align_def Let_def absorb_short XXH64_initAccs_def split: prod.splits)
qed

lemma XXH64_feeds:
  "bufferedSize64 (foldl XXH64_feed (XXH64_reset seed) ps) < 32"
  "length (concat ps) < 2 ^ 64 \<Longrightarrow>
    XXH64_digest (foldl XXH64_feed (XXH64_reset seed) ps) = XXH64 (concat ps) (length (concat ps)) seed"
proof -
  let ?init = "XXH64_reset seed" and ?xs = "concat ps"
  let ?st = "foldl XXH64_feed ?init ps"
  let ?a = "absorb 32 (\<lambda>acc blk. XXH64_stripe acc blk 0) (XXH64_initAccs seed) ?xs"
  have "b64.represents (acc64 ?init, buffer64 ?init, bufferedSize64 ?init) (XXH64_initAccs seed, [])"
    by (simp add: b64.represents_def XXH64_reset_def)
  from b64.updates_represent [OF this, of ps]
  have "b64.represents (acc64 ?st, buffer64 ?st, bufferedSize64 ?st) ?a"
    by (simp flip: XXH64_updates)
  then have r: "bufferedSize64 ?st \<le> length (buffer64 ?st)" "acc64 ?st = fst ?a"
    "snd ?a = take (bufferedSize64 ?st) (buffer64 ?st)" and size: "bufferedSize64 ?st < 32"
    by (auto simp: b64.represents_def)
  from size show "bufferedSize64 ?st < 32" .
  assume fits: "length ?xs < 2 ^ 64"
  have "length (snd ?a) = length ?xs mod 32" by (simp add: absorb_rest minus_mult_div_eq_mod)
  then have n: "length ?xs mod 32 = bufferedSize64 ?st" using r(1,3) by simp
  have t: "total_len ?st = of_nat (length ?xs)" using XXH64_updates_total [of ?init ps] by (simp add: XXH64_reset_def)
  then have u: "unat (total_len ?st) = length ?xs" "32 \<le> total_len ?st \<longleftrightarrow> 32 \<le> length ?xs"
    using fits by (simp_all add: unat_of_nat word_le_nat_alt)
  show "XXH64_digest ?st = XXH64 ?xs (length ?xs) seed"
    using XXH64_finalize_take [OF n n r(1)] r(2,3) t u
    by (simp add: XXH64_absorb XXH64_digest_def Let_def case_prod_beta)
qed

lemma XXH64_updates_feed: "updates XXH64_update (XXH64_reset seed) ps = Inr (foldl XXH64_feed (XXH64_reset seed) ps)"
proof (induction ps rule: rev_induct)
  case (snoc p ps)
  then show ?case using XXH64_feeds(1) [of seed ps] by (simp add: updates_append XXH64_update_feed)
qed simp

text \<open>\<open>XXH64\<close> in a stream: after a reset any updates succeed, and if they are of fewer
  than 2^64 bytes in all,
  \<open>XXH64_digest\<close> gives the hash of all the bytes together, however they were cut.\<close>

theorem XXH64_stream_is_one_shot:
  assumes "length (concat ps) < 2 ^ 64"
  shows "\<exists>st. updates XXH64_update (XXH64_reset seed) ps = Inr st
    \<and> XXH64_digest st = XXH64 (concat ps) (length (concat ps)) seed"
  using XXH64_updates_feed XXH64_feeds(2) [OF assms] by blast

theorem XXH64_stream_is_one_shot_witness:
  "\<exists>st. updates XXH64_update (XXH64_reset 9) [[1, 2], replicate 40 3] = Inr st
    \<and> XXH64_digest st = XXH64 ([1, 2] @ replicate 40 3) 42 9"
  using XXH64_stream_is_one_shot [of "[[1, 2], replicate 40 3]" 9] by (simp del: updates.simps)

end
