(* ===== verification/XXH_Canonical.thy ===== *)
theory XXH_Canonical
  imports XXH3_Long "HOL-Library.Monad_Syntax"
begin

text \<open>
  \<open>include/xxhash.h\<close>, the utilities: canonical (big-endian) forms of hashes, comparison, aligned
  allocation, and the generators of secrets. The lemmas show that canonical forms are the bytes
  of a hash in big-endian order and are read back, that the pointer of an aligned block leads to the
  block to be freed, that the generator of secrets returns and stays inside its buffer, and
  that hashing with a secret derived from a seed is hashing with the seed.
\<close>

section \<open>Canonical forms\<close>

definition XXH_readBE32 :: "bytes \<Rightarrow> nat \<Rightarrow> u32" where
  "XXH_readBE32 p off = XXH_swap32 (XXH_readLE32 p off)"

definition XXH_readBE64 :: "bytes \<Rightarrow> nat \<Rightarrow> u64" where
  "XXH_readBE64 p off = XXH_swap64 (XXH_readLE64 p off)"

definition XXH32_canonicalFromHash :: "u32 \<Rightarrow> bytes" where
  "XXH32_canonicalFromHash hash = le_enc 4 (XXH_swap32 hash)"

definition XXH32_hashFromCanonical :: "bytes \<Rightarrow> u32" where
  "XXH32_hashFromCanonical src = XXH_readBE32 src 0"

definition XXH64_canonicalFromHash :: "u64 \<Rightarrow> bytes" where
  "XXH64_canonicalFromHash hash = le_enc 8 (XXH_swap64 hash)"

definition XXH64_hashFromCanonical :: "bytes \<Rightarrow> u64" where
  "XXH64_hashFromCanonical src = XXH_readBE64 src 0"

definition XXH128_canonicalFromHash :: "XXH128_hash_t \<Rightarrow> bytes" where
  "XXH128_canonicalFromHash hash =
     le_enc 8 (XXH_swap64 (high64 hash)) @ le_enc 8 (XXH_swap64 (low64 hash))"

definition XXH128_hashFromCanonical :: "bytes \<Rightarrow> XXH128_hash_t" where
  "XXH128_hashFromCanonical src = \<lparr>low64 = XXH_readBE64 src 8, high64 = XXH_readBE64 src 0\<rparr>"

text \<open>The comparison of the bytes in memory.\<close>

definition XXH128_isEqual :: "XXH128_hash_t \<Rightarrow> XXH128_hash_t \<Rightarrow> bool" where
  "XXH128_isEqual h1 h2 \<longleftrightarrow> le_enc 8 (low64 h1) @ le_enc 8 (high64 h1) = le_enc 8 (low64 h2) @ le_enc 8 (high64 h2)"

section \<open>Aligned allocation\<close>

text \<open>Memory as bytes at addresses; \<open>base\<close> is what \<open>malloc\<close> of \<open>s + align\<close> bytes returned.\<close>

definition XXH_alignedMalloc :: "nat option \<Rightarrow> nat \<Rightarrow> nat \<Rightarrow> (nat \<Rightarrow> u8) \<Rightarrow> nat option \<times> (nat \<Rightarrow> u8)" where
  "XXH_alignedMalloc base s align mem =
     (case base of None \<Rightarrow> (None, mem)
      | Some b \<Rightarrow>
          let offset = align - (b AND (align - 1));
              ptr = b + offset
          in (Some ptr, mem(ptr - 1 := of_nat offset)))"

text \<open>The address handed to \<open>free\<close>.\<close>

definition XXH_alignedFree :: "nat option \<Rightarrow> (nat \<Rightarrow> u8) \<Rightarrow> nat option" where
  "XXH_alignedFree p mem =
     (case p of None \<Rightarrow> None
      | Some ptr \<Rightarrow> let offset = mem (ptr - 1) in Some (ptr - unat offset))"

section \<open>Secrets\<close>

definition XXH3_combine16 :: "bytes \<Rightarrow> nat \<Rightarrow> XXH128_hash_t \<Rightarrow> bytes" where
  "XXH3_combine16 dst off h128 =
     (let d1 = put dst off (le_enc 8 (XXH_readLE64 dst off XOR low64 h128))
      in put d1 (off + 8) (le_enc 8 (XXH_readLE64 d1 (off + 8) XOR high64 h128)))"

text \<open>Filling the buffer with copies of the seed: a loop that ends unless the seed is empty.\<close>

partial_function (option) fill_secret :: "bytes \<Rightarrow> nat \<Rightarrow> nat \<Rightarrow> bytes \<Rightarrow> nat \<Rightarrow> bytes option" where
  "fill_secret buf pos secretSize customSeed customSeedSize =
     (if pos < secretSize then
        let toCopy = min (secretSize - pos) customSeedSize
        in fill_secret (put buf pos (take toCopy customSeed)) (pos + toCopy) secretSize customSeed customSeedSize
      else Some buf)"

definition mix_secret :: "bytes \<Rightarrow> nat \<Rightarrow> bytes \<Rightarrow> bytes" where
  "mix_secret buf secretSize scrambler =
     (let nbSeg16 = secretSize div 16;
          buf1 = foldl (\<lambda>buf n. XXH3_combine16 buf (n * 16) (XXH128 scrambler 16 (of_nat n))) buf [0..<nbSeg16]
      in XXH3_combine16 buf1 (secretSize - 16) (XXH128_hashFromCanonical scrambler))"

text \<open>The build without \<open>XXH_DEBUGLEVEL\<close>. Buffer and seed are optional values, \<open>None\<close> the null pointer.\<close>

definition XXH3_generateSecret ::
  "bytes option \<Rightarrow> nat \<Rightarrow> bytes option \<Rightarrow> nat \<Rightarrow> (XXH_errorcode \<times> bytes option) option" where
  "XXH3_generateSecret secretBuffer secretSize customSeed0 customSeedSize0 =
     (case secretBuffer of None \<Rightarrow> Some (XXH_ERROR, None)
      | Some buf \<Rightarrow>
          if secretSize < XXH3_SECRET_SIZE_MIN then Some (XXH_ERROR, Some buf)
          else
            let (customSeed, customSeedSize) =
                  (if customSeedSize0 = 0 then (Some XXH3_kSecret, XXH_SECRET_DEFAULT_SIZE) else (customSeed0, customSeedSize0))
            in if customSeed = None then Some (XXH_ERROR, Some buf)
               else
                 Option.bind (fill_secret buf 0 secretSize (the customSeed) customSeedSize) (\<lambda>buf1.
                   let scrambler = XXH128_canonicalFromHash (XXH128 (the customSeed) customSeedSize 0)
                   in Some (XXH_OK, Some (mix_secret buf1 secretSize scrambler))))"

definition XXH3_generateSecret_fromSeed :: "u64 \<Rightarrow> bytes" where
  "XXH3_generateSecret_fromSeed seed = XXH3_initCustomSecret seed"

section \<open>Correctness\<close>

lemma byte_masks_32:
  "(0xff000000 :: u32) = push_bit 24 (mask 8)" "(0x00ff0000 :: u32) = push_bit 16 (mask 8)"
  "(0x0000ff00 :: u32) = push_bit 8 (mask 8)" "(0x000000ff :: u32) = mask 8"
  by (simp_all add: mask_eq_exp_minus_1)

lemma byte_masks_64:
  "(0xff00000000000000 :: u64) = push_bit 56 (mask 8)" "(0x00ff000000000000 :: u64) = push_bit 48 (mask 8)"
  "(0x0000ff0000000000 :: u64) = push_bit 40 (mask 8)" "(0x000000ff00000000 :: u64) = push_bit 32 (mask 8)"
  "(0x00000000ff000000 :: u64) = push_bit 24 (mask 8)" "(0x0000000000ff0000 :: u64) = push_bit 16 (mask 8)"
  "(0x000000000000ff00 :: u64) = push_bit 8 (mask 8)" "(0x00000000000000ff :: u64) = mask 8"
  by (simp_all add: mask_eq_exp_minus_1)

lemma swap32_bytes:
  "ucast (XXH_swap32 x) = (ucast (drop_bit 24 x) :: u8)" "ucast (drop_bit 8 (XXH_swap32 x)) = (ucast (drop_bit 16 x) :: u8)"
  "ucast (drop_bit 16 (XXH_swap32 x)) = (ucast (drop_bit 8 x) :: u8)" "ucast (drop_bit 24 (XXH_swap32 x)) = (ucast x :: u8)"
  unfolding XXH_swap32_def byte_masks_32
  by (rule bit_eqI; force simp: bit_simps)+

lemma swap64_bytes:
  "ucast (XXH_swap64 x) = (ucast (drop_bit 56 x) :: u8)" "ucast (drop_bit 8 (XXH_swap64 x)) = (ucast (drop_bit 48 x) :: u8)"
  "ucast (drop_bit 16 (XXH_swap64 x)) = (ucast (drop_bit 40 x) :: u8)" "ucast (drop_bit 24 (XXH_swap64 x)) = (ucast (drop_bit 32 x) :: u8)"
  "ucast (drop_bit 32 (XXH_swap64 x)) = (ucast (drop_bit 24 x) :: u8)" "ucast (drop_bit 40 (XXH_swap64 x)) = (ucast (drop_bit 16 x) :: u8)"
  "ucast (drop_bit 48 (XXH_swap64 x)) = (ucast (drop_bit 8 x) :: u8)" "ucast (drop_bit 56 (XXH_swap64 x)) = (ucast x :: u8)"
  unfolding XXH_swap64_def byte_masks_64
  by (rule bit_eqI; force simp: bit_simps)+

lemma le_enc_4: "le_enc 4 w = [ucast w, ucast (drop_bit 8 w), ucast (drop_bit 16 w), ucast (drop_bit 24 w)]"
proof -
  have "le_enc (Suc (Suc (Suc (Suc 0)))) w = [ucast w, ucast (drop_bit 8 w), ucast (drop_bit 16 w), ucast (drop_bit 24 w)]"
    by (simp only: le_enc.simps drop_bit_drop_bit) simp
  moreover have "Suc (Suc (Suc (Suc 0))) = 4" by simp
  ultimately show ?thesis by (simp only:)
qed

lemma le_enc_8: "le_enc 8 w = [ucast w, ucast (drop_bit 8 w), ucast (drop_bit 16 w), ucast (drop_bit 24 w),
    ucast (drop_bit 32 w), ucast (drop_bit 40 w), ucast (drop_bit 48 w), ucast (drop_bit 56 w)]"
proof -
  have "le_enc (Suc (Suc (Suc (Suc (Suc (Suc (Suc (Suc 0)))))))) w = [ucast w, ucast (drop_bit 8 w), ucast (drop_bit 16 w),
      ucast (drop_bit 24 w), ucast (drop_bit 32 w), ucast (drop_bit 40 w), ucast (drop_bit 48 w), ucast (drop_bit 56 w)]"
    by (simp only: le_enc.simps drop_bit_drop_bit) simp
  moreover have "Suc (Suc (Suc (Suc (Suc (Suc (Suc (Suc 0))))))) = 8" by simp
  ultimately show ?thesis by (simp only:)
qed

lemma le_enc_swap32: "le_enc 4 (XXH_swap32 x) = rev (le_enc 4 x)"
  by (simp add: le_enc_4 swap32_bytes)

lemma le_enc_swap64: "le_enc 8 (XXH_swap64 x) = rev (le_enc 8 x)"
  by (simp add: le_enc_8 swap64_bytes)

lemma XXH_swap32_swap32 [simp]: "XXH_swap32 (XXH_swap32 x) = x"
  by (rule le_enc_inj [of 4]) (simp_all add: le_enc_swap32)

lemma XXH_swap64_swap64 [simp]: "XXH_swap64 (XXH_swap64 x) = x"
  by (rule le_enc_inj [of 8]) (simp_all add: le_enc_swap64)

text \<open>Canonical forms are big-endian.\<close>

lemma canonical_big_endian:
  "XXH32_canonicalFromHash h32 = rev (le_enc 4 h32)" "XXH64_canonicalFromHash h64 = rev (le_enc 8 h64)"
  "XXH128_canonicalFromHash h = rev (le_enc 8 (high64 h)) @ rev (le_enc 8 (low64 h))"
  by (simp_all add: XXH32_canonicalFromHash_def XXH64_canonicalFromHash_def XXH128_canonicalFromHash_def
      le_enc_swap32 le_enc_swap64)

text \<open>A hash written in its canonical form is read back, for all three sizes, and the canonical
  forms of 128-bit hashes, compared as strings of bytes, are equal exactly when
  \<open>XXH128_isEqual\<close> and \<open>XXH128_cmp\<close> say that the hashes are.\<close>

theorem canonical_roundtrip:
  "XXH32_hashFromCanonical (XXH32_canonicalFromHash h32) = h32
   \<and> XXH64_hashFromCanonical (XXH64_canonicalFromHash h64) = h64
   \<and> XXH128_hashFromCanonical (XXH128_canonicalFromHash g) = g
   \<and> (XXH128_canonicalFromHash g = XXH128_canonicalFromHash h \<longleftrightarrow> XXH128_isEqual g h)
   \<and> (XXH128_isEqual g h \<longleftrightarrow> XXH128_cmp g h = 0)"
proof -
  have eq: "XXH128_isEqual g h \<longleftrightarrow> g = h"
    using le_enc_inj [of 8 "low64 g" "low64 h"] le_enc_inj [of 8 "high64 g" "high64 h"]
    by (auto simp: XXH128_isEqual_def intro: XXH128_hash_t_eqI)
  have rt: "XXH128_hashFromCanonical (XXH128_canonicalFromHash k) = k" for k
    by (simp add: XXH128_hashFromCanonical_def XXH128_canonicalFromHash_def XXH_readBE64_def XXH_readLE64_def)
  then have "XXH128_canonicalFromHash g = XXH128_canonicalFromHash h \<longleftrightarrow> g = h" by metis
  with eq rt show ?thesis
    by (simp add: XXH32_hashFromCanonical_def XXH32_canonicalFromHash_def XXH_readBE32_def XXH_readLE32_def
        XXH64_hashFromCanonical_def XXH64_canonicalFromHash_def XXH_readBE64_def XXH_readLE64_def XXH128_cmp_eq_0)
qed

text \<open>A block of \<open>s\<close> bytes at an address that is a multiple of \<open>align\<close>, inside the allocated block, and
  freed by its address as long as the byte before it is left alone.\<close>

lemma alignedMalloc_free:
  assumes "3 \<le> k" "k \<le> 7" "XXH_alignedMalloc (Some base) s (2 ^ k) mem = (Some p, mem')" "mem2 (p - 1) = mem' (p - 1)"
  shows "p mod 2 ^ k = 0 \<and> base < p \<and> p + s \<le> base + (s + 2 ^ k) \<and> XXH_alignedFree (Some p) mem2 = Some base"
proof -
  let ?r = "base mod 2 ^ k"
  have r: "base AND (2 ^ k - 1) = ?r" using take_bit_eq_mask [of k base] by (simp add: take_bit_eq_mod mask_eq_exp_minus_1)
  have lt: "?r < 2 ^ k" by simp
  have "(2 :: nat) ^ k \<le> 2 ^ 7" using assms(2) by (intro power_increasing) auto
  then have k: "(2 :: nat) ^ k \<le> 128" by simp
  have p: "p = base + (2 ^ k - ?r)" "mem' (p - 1) = of_nat (2 ^ k - ?r)"
    using assms(3) r by (auto simp: XXH_alignedMalloc_def Let_def simp del: of_nat_diff)
  have "base = base div 2 ^ k * 2 ^ k + ?r" by (rule div_mult_mod_eq [symmetric])
  moreover have "(base div 2 ^ k + 1) * 2 ^ k = base div 2 ^ k * 2 ^ k + 2 ^ k" by (simp only: distrib_right mult_1)
  ultimately have "p = (base div 2 ^ k + 1) * 2 ^ k" using lt p(1) by linarith
  then have "p mod 2 ^ k = 0" by simp
  moreover have "unat (of_nat (2 ^ k - ?r) :: u8) = 2 ^ k - ?r" using k by (simp only: unat_of_nat) simp
  moreover have "base < p" "p + s \<le> base + (s + 2 ^ k)" "p - (2 ^ k - ?r) = base" using lt p(1) by linarith+
  ultimately show ?thesis using p(2) assms(4) by (simp add: XXH_alignedFree_def Let_def del: of_nat_diff)
qed

lemma length_kSecret: "length XXH3_kSecret = 192"
  by (simp add: XXH3_kSecret_def)

lemma fill_secret_returns:
  assumes "0 < n" "n \<le> length cs" "length buf = k" "pos \<le> k"
  shows "\<exists>buf'. fill_secret buf pos k cs n = Some buf' \<and> length buf' = k"
  using assms(3,4)
proof (induction "k - pos" arbitrary: buf pos rule: less_induct)
  case less
  show ?case
  proof (cases "pos < k")
    case True
    let ?c = "min (k - pos) n"
    have "length (put buf pos (take ?c cs)) = k" using less.prems True assms(2) by (subst length_put) auto
    moreover have "k - (pos + ?c) < k - pos" "pos + ?c \<le> k" using True assms(1) by auto
    ultimately show ?thesis
      using less.hyps [of "pos + ?c" "put buf pos (take ?c cs)"] True by (subst fill_secret.simps) (simp add: Let_def)
  next
    case False
    with less.prems show ?thesis by (subst fill_secret.simps) simp
  qed
qed

lemma length_combine16: "off + 16 \<le> length dst \<Longrightarrow> length (XXH3_combine16 dst off h) = length dst"
  by (simp add: XXH3_combine16_def Let_def length_put)

lemma length_mix_secret:
  assumes "16 \<le> length buf"
  shows "length (mix_secret buf (length buf) scrambler) = length buf"
proof -
  have "length (foldl (\<lambda>buf n. XXH3_combine16 buf (n * 16) (XXH128 scrambler 16 (of_nat n))) buf is) = length buf"
    if "\<forall>n \<in> set is. n * 16 + 16 \<le> length buf" for "is"
    using that by (induction "is" arbitrary: buf) (simp_all add: length_combine16)
  moreover have "\<forall>n \<in> set [0..<length buf div 16]. n * 16 + 16 \<le> length buf"
  proof
    fix n assume "n \<in> set [0..<length buf div 16]"
    then have "Suc n * 16 \<le> length buf div 16 * 16" by (intro mult_le_mono1) simp
    also have "\<dots> \<le> length buf" by simp
    finally show "n * 16 + 16 \<le> length buf" by simp
  qed
  ultimately have "length (foldl (\<lambda>buf n. XXH3_combine16 buf (n * 16) (XXH128 scrambler 16 (of_nat n))) buf
      [0..<length buf div 16]) = length buf" by blast
  with assms show ?thesis
    by (simp add: mix_secret_def Let_def length_combine16)
qed

text \<open>The generator returns for every seed, also an empty one, with a secret that fills the
  buffer.\<close>

lemma generateSecret_returns:
  assumes "136 \<le> length buf" "n = 0 \<or> n = length cs"
  shows "\<exists>buf'. XXH3_generateSecret (Some buf) (length buf) (Some cs) n = Some (XXH_OK, Some buf') \<and> length buf' = length buf"
proof -
  let ?cs = "if n = 0 then XXH3_kSecret else cs" and ?n = "if n = 0 then 192 else n"
  have "0 < ?n" "?n \<le> length ?cs" using assms(2) by (auto simp: length_kSecret)
  from fill_secret_returns [OF this refl, of 0 buf] obtain buf1
    where "fill_secret buf 0 (length buf) ?cs ?n = Some buf1" "length buf1 = length buf" by auto
  moreover from this have "length (mix_secret buf1 (length buf) s) = length buf" for s
    using length_mix_secret [of buf1 s] assms(1) by simp
  ultimately show ?thesis
    using assms(1) by (auto simp: XXH3_generateSecret_def XXH3_SECRET_SIZE_MIN_def XXH_SECRET_DEFAULT_SIZE_def Let_def)
qed

text \<open>The secret of the seed 0 is the default one.\<close>

lemma concat_chunks: "16 * n \<le> length xs \<Longrightarrow> concat (map (\<lambda>i. take 16 (drop (16 * i) xs)) [0..<n]) = take (16 * n) xs"
proof (induction n)
  case (Suc n)
  then show ?case using take_add [of "16 * n" 16 xs] by (simp add: add.commute)
qed simp

lemma initCustomSecret_0: "XXH3_initCustomSecret 0 = XXH3_kSecret"
proof -
  have chunk: "le_enc 8 (XXH_readLE64 XXH3_kSecret (16 * i)) @ le_enc 8 (XXH_readLE64 XXH3_kSecret (16 * i + 8))
      = take 16 (drop (16 * i) XXH3_kSecret)" if "i < 12" for i
  proof -
    have "le_enc 8 (XXH_readLE64 XXH3_kSecret j) = take 8 (drop j XXH3_kSecret)" if "j + 8 \<le> 192" for j
      using that by (simp add: XXH_readLE64_def le_enc_le_dec length_kSecret)
    moreover have "take 16 (drop (16 * i) XXH3_kSecret) = take 8 (drop (16 * i) XXH3_kSecret) @ take 8 (drop (16 * i + 8) XXH3_kSecret)"
      using take_add [of 8 8 "drop (16 * i) XXH3_kSecret"] by (simp add: add.commute)
    ultimately show ?thesis using that by simp
  qed
  have "XXH3_initCustomSecret 0 = concat (map (\<lambda>i. take 16 (drop (16 * i) XXH3_kSecret)) [0..<12])"
    unfolding XXH3_initCustomSecret_def XXH_SECRET_DEFAULT_SIZE_def
    by (rule arg_cong [of _ _ concat], rule map_cong) (simp_all add: chunk)
  also have "\<dots> = XXH3_kSecret" using concat_chunks [of 12 XXH3_kSecret] by (simp add: length_kSecret)
  finally show ?thesis .
qed

text \<open>What the header documents of \<open>XXH3_generateSecret_fromSeed\<close>: with the secret it makes of
  a seed, the variants that take secret and seed give, for every input, the hashes of the variants
  that take only the seed.\<close>

theorem secret_from_seed:
  "XXH3_128bits_withSecretandSeed input len (XXH3_generateSecret_fromSeed seed) XXH_SECRET_DEFAULT_SIZE seed
     = XXH3_128bits_withSeed input len seed
   \<and> XXH3_64bits_withSecretandSeed input len (XXH3_generateSecret_fromSeed seed) XXH_SECRET_DEFAULT_SIZE seed
     = XXH3_64bits_withSeed input len seed"
  by (simp add: XXH3_128bits_withSecretandSeed_def XXH3_128bits_withSeed_def XXH3_128bits_internal_def
      XXH3_64bits_withSecretandSeed_def XXH3_64bits_withSeed_def XXH3_64bits_internal_def
      XXH3_hashLong_128b_withSecret_def XXH3_hashLong_128b_withSeed_def XXH3_hashLong_128b_withSeed_internal_def
      XXH3_hashLong_64b_withSecret_def XXH3_hashLong_64b_withSeed_def XXH3_hashLong_64b_withSeed_internal_def
      XXH3_generateSecret_fromSeed_def initCustomSecret_0 length_kSecret XXH_SECRET_DEFAULT_SIZE_def)

end
