(* ===== verification/XXH3_Vector.thy ===== *)
theory XXH3_Vector
  imports XXH3_Long
begin

text \<open>
  \<open>include/xxhash.h\<close>: the vector code of XXH3 for SSE2, AVX2, AVX-512, LSX and LASX, and the mixed
  code for NEON. A build chooses one of them in the place of the scalar \<open>XXH3_accumulate_512\<close>,
  \<open>XXH3_scrambleAcc\<close> and \<open>XXH3_initCustomSecret\<close> of \<open>XXH3_Long\<close>. The intrinsics are a parameter:
  vectors of some type and a record of functions on them. What the manuals of the processors say
  of them are the locales \<open>simd\<close>, \<open>avx512\<close> and \<open>neon\<close>, in terms of the lanes of a vector, lowest first. The
  theorem says that all variants compute what the scalar code computes.
\<close>

section \<open>Intrinsics\<close>

text \<open>The fields are named after the intrinsics of SSE2; those of the wider x86 instruction sets
  and of LoongArch differ in prefix and width: \<open>_mm512_xor_si512\<close> and \<open>__lsx_vxor_v\<close> are
  \<open>xor_si\<close>, \<open>__lsx_vmulwev_d_wu\<close> is \<open>mul_epu32\<close>, \<open>__lsx_vshuf4i_w\<close> is \<open>shuffle_epi32\<close>,
  \<open>__lsx_vreplgr2vr_d\<close> is \<open>set1_epi64\<close>, \<open>__lsx_vmul_d\<close> is \<open>mul_d\<close>. \<open>of_lanes\<close> and
  \<open>lanes\<close> are the reads and writes of vectors in memory that the C code makes through a pointer.\<close>

record 'v simd_ops =
  lanes :: "'v \<Rightarrow> u64 list"
  of_lanes :: "u64 list \<Rightarrow> 'v"
  loadu_si :: "bytes \<Rightarrow> 'v"
  load_si :: "bytes \<Rightarrow> 'v"
  xor_si :: "'v \<Rightarrow> 'v \<Rightarrow> 'v"
  srli_epi64 :: "'v \<Rightarrow> nat \<Rightarrow> 'v"
  slli_epi64 :: "'v \<Rightarrow> nat \<Rightarrow> 'v"
  add_epi64 :: "'v \<Rightarrow> 'v \<Rightarrow> 'v"
  mul_epu32 :: "'v \<Rightarrow> 'v \<Rightarrow> 'v"
  mul_d :: "'v \<Rightarrow> 'v \<Rightarrow> 'v"
  shuffle_epi32 :: "'v \<Rightarrow> nat \<Rightarrow> 'v"
  set1_epi32 :: "u32 \<Rightarrow> 'v"
  set1_epi64 :: "u64 \<Rightarrow> 'v"
  set_epi64x :: "u64 list \<Rightarrow> 'v"

record 'v avx512_ops = "'v simd_ops" +
  set1_epi8 :: "u8 \<Rightarrow> 'v"
  mask_sub_epi64 :: "'v \<Rightarrow> nat \<Rightarrow> 'v \<Rightarrow> 'v \<Rightarrow> 'v"
  ternarylogic_epi32 :: "'v \<Rightarrow> 'v \<Rightarrow> 'v \<Rightarrow> nat \<Rightarrow> 'v"

text \<open>The \<open>q\<close>-th 32-bit word of a list of lanes, and the shuffle of the four words of each pair of
  lanes: word \<open>p\<close> of the result is the one that bits \<open>2 * p\<close> and up of the control select.\<close>

definition dword :: "u64 list \<Rightarrow> nat \<Rightarrow> u32" where
  "dword xs q = ucast (drop_bit (32 * (q mod 2)) (xs ! (q div 2)))"

definition shuffle_lanes :: "u64 list \<Rightarrow> nat \<Rightarrow> u64 list" where
  "shuffle_lanes xs imm =
     (let sel = (\<lambda>j p. dword xs (4 * (j div 2) + imm div 4 ^ p mod 4))
      in map (\<lambda>j. ucast (sel j (2 * (j mod 2))) + push_bit 32 (ucast (sel j (2 * (j mod 2) + 1)))) [0..<length xs])"

definition MM_SHUFFLE :: "nat \<Rightarrow> nat \<Rightarrow> nat \<Rightarrow> nat \<Rightarrow> nat" where
  "MM_SHUFFLE z y x w = 64 * z + 16 * y + 4 * x + w"

definition mul_low32 :: "u64 \<Rightarrow> u64 \<Rightarrow> u64" where
  "mul_low32 x y = ucast (ucast x :: u32) * ucast (ucast y :: u32)"

locale simd =
  fixes ops :: "('v, 'z) simd_ops_scheme" and m :: nat
  assumes len: "length (lanes ops v) = m"
    and of_lanes: "length xs = m \<Longrightarrow> lanes ops (of_lanes ops xs) = xs"
    and loadu: "8 * m \<le> length p \<Longrightarrow> lanes ops (loadu_si ops p) = map (\<lambda>j. XXH_readLE64 p (8 * j)) [0..<m]"
    and load: "8 * m \<le> length p \<Longrightarrow> lanes ops (load_si ops p) = map (\<lambda>j. XXH_readLE64 p (8 * j)) [0..<m]"
    and "xor": "lanes ops (xor_si ops a b) = map2 (XOR) (lanes ops a) (lanes ops b)"
    and srli: "lanes ops (srli_epi64 ops a k) = map (drop_bit k) (lanes ops a)"
    and slli: "lanes ops (slli_epi64 ops a k) = map (push_bit k) (lanes ops a)"
    and add: "lanes ops (add_epi64 ops a b) = map2 (+) (lanes ops a) (lanes ops b)"
    and mul_epu32: "lanes ops (mul_epu32 ops a b) = map2 mul_low32 (lanes ops a) (lanes ops b)"
    and mul_d: "lanes ops (mul_d ops a b) = map2 (*) (lanes ops a) (lanes ops b)"
    and shuffle: "lanes ops (shuffle_epi32 ops a imm) = shuffle_lanes (lanes ops a) imm"
    and set1_epi32: "lanes ops (set1_epi32 ops w) = replicate m (ucast w + push_bit 32 (ucast w))"
    and set1_epi64: "lanes ops (set1_epi64 ops x) = replicate m x"
    and set_epi64x: "length xs = m \<Longrightarrow> lanes ops (set_epi64x ops xs) = rev xs"
begin

lemma lane:
  assumes "j < m"
  shows "lanes ops (xor_si ops a b) ! j = lanes ops a ! j XOR lanes ops b ! j"
    and "lanes ops (srli_epi64 ops a k) ! j = drop_bit k (lanes ops a ! j)"
    and "lanes ops (slli_epi64 ops a k) ! j = push_bit k (lanes ops a ! j)"
    and "lanes ops (add_epi64 ops a b) ! j = lanes ops a ! j + lanes ops b ! j"
    and "lanes ops (mul_epu32 ops a b) ! j = mul_low32 (lanes ops a ! j) (lanes ops b ! j)"
    and "lanes ops (mul_d ops a b) ! j = lanes ops a ! j * lanes ops b ! j"
    and "lanes ops (set1_epi32 ops w) ! j = ucast w + push_bit 32 (ucast w)"
    and "lanes ops (set1_epi64 ops x) ! j = x"
  using assms by (simp_all add: "xor" srli slli add mul_epu32 mul_d set1_epi32 set1_epi64 len)

lemma lane_loadu: "8 * m \<le> length p \<Longrightarrow> j < m \<Longrightarrow> lanes ops (loadu_si ops p) ! j = XXH_readLE64 p (8 * j)"
  by (simp add: loadu)

end

section \<open>The x86 variants\<close>

text \<open>The accumulators as an array of vectors of \<open>m\<close> lanes: \<open>xacc[i]\<close> read and written.\<close>

definition vec_at :: "('v, 'z) simd_ops_scheme \<Rightarrow> nat \<Rightarrow> u64 list \<Rightarrow> nat \<Rightarrow> 'v" where
  "vec_at ops m xacc i = of_lanes ops (take m (drop (i * m) xacc))"

definition put_vec :: "('v, 'z) simd_ops_scheme \<Rightarrow> nat \<Rightarrow> u64 list \<Rightarrow> nat \<Rightarrow> 'v \<Rightarrow> u64 list" where
  "put_vec ops m xacc i v = take (i * m) xacc @ lanes ops v @ drop (i * m + m) xacc"

definition vec_bytes :: "('v, 'z) simd_ops_scheme \<Rightarrow> 'v \<Rightarrow> bytes" where
  "vec_bytes ops v = concat (map (le_enc 8) (lanes ops v))"

text \<open>The macro that makes \<open>XXH3_accumulate\<close> of a stripe function.\<close>

definition XXH3_ACCUMULATE_TEMPLATE :: "(u64 list \<Rightarrow> bytes \<Rightarrow> bytes \<Rightarrow> u64 list) \<Rightarrow> accumulate_fn" where
  "XXH3_ACCUMULATE_TEMPLATE f acc input secret nbStripes =
     foldl (\<lambda>a n. f a (drop (n * XXH_STRIPE_LEN) input) (drop (n * XXH_SECRET_CONSUME_RATE) secret)) acc [0..<nbStripes]"

definition XXH3_accumulate_512_sse2 :: "('v, 'z) simd_ops_scheme \<Rightarrow> u64 list \<Rightarrow> bytes \<Rightarrow> bytes \<Rightarrow> u64 list" where
  "XXH3_accumulate_512_sse2 ops acc input secret =
     foldl (\<lambda>xacc i.
       let data_vec = loadu_si ops (drop (16 * i) input);
           key_vec = loadu_si ops (drop (16 * i) secret);
           data_key = xor_si ops data_vec key_vec;
           data_key_lo = shuffle_epi32 ops data_key (MM_SHUFFLE 0 3 0 1);
           product = mul_epu32 ops data_key data_key_lo;
           data_swap = shuffle_epi32 ops data_vec (MM_SHUFFLE 1 0 3 2);
           sum = add_epi64 ops (vec_at ops 2 xacc i) data_swap
       in put_vec ops 2 xacc i (add_epi64 ops product sum)) acc [0..<XXH_STRIPE_LEN div 16]"

definition XXH3_accumulate_512_avx2 :: "('v, 'z) simd_ops_scheme \<Rightarrow> u64 list \<Rightarrow> bytes \<Rightarrow> bytes \<Rightarrow> u64 list" where
  "XXH3_accumulate_512_avx2 ops acc input secret =
     foldl (\<lambda>xacc i.
       let data_vec = loadu_si ops (drop (32 * i) input);
           key_vec = loadu_si ops (drop (32 * i) secret);
           data_key = xor_si ops data_vec key_vec;
           data_key_lo = srli_epi64 ops data_key 32;
           product = mul_epu32 ops data_key data_key_lo;
           data_swap = shuffle_epi32 ops data_vec (MM_SHUFFLE 1 0 3 2);
           sum = add_epi64 ops (vec_at ops 4 xacc i) data_swap
       in put_vec ops 4 xacc i (add_epi64 ops product sum)) acc [0..<XXH_STRIPE_LEN div 32]"

definition XXH3_accumulate_512_avx512 :: "('v, 'z) simd_ops_scheme \<Rightarrow> u64 list \<Rightarrow> bytes \<Rightarrow> bytes \<Rightarrow> u64 list" where
  "XXH3_accumulate_512_avx512 ops xacc input secret =
     (let data_vec = loadu_si ops input;
          key_vec = loadu_si ops secret;
          data_key = xor_si ops data_vec key_vec;
          data_key_lo = srli_epi64 ops data_key 32;
          product = mul_epu32 ops data_key data_key_lo;
          data_swap = shuffle_epi32 ops data_vec (MM_SHUFFLE 1 0 3 2);
          sum = add_epi64 ops (vec_at ops 8 xacc 0) data_swap
      in put_vec ops 8 xacc 0 (add_epi64 ops product sum))"

definition XXH3_scrambleAcc_sse2 :: "('v, 'z) simd_ops_scheme \<Rightarrow> scramble_fn" where
  "XXH3_scrambleAcc_sse2 ops acc secret =
     (let prime32 = set1_epi32 ops XXH_PRIME32_1
      in foldl (\<lambda>xacc i.
           let acc_vec = vec_at ops 2 xacc i;
               shifted = srli_epi64 ops acc_vec 47;
               data_vec = xor_si ops acc_vec shifted;
               key_vec = loadu_si ops (drop (16 * i) secret);
               data_key = xor_si ops data_vec key_vec;
               data_key_hi = shuffle_epi32 ops data_key (MM_SHUFFLE 0 3 0 1);
               prod_lo = mul_epu32 ops data_key prime32;
               prod_hi = mul_epu32 ops data_key_hi prime32
           in put_vec ops 2 xacc i (add_epi64 ops prod_lo (slli_epi64 ops prod_hi 32))) acc [0..<XXH_STRIPE_LEN div 16])"

definition XXH3_scrambleAcc_avx2 :: "('v, 'z) simd_ops_scheme \<Rightarrow> scramble_fn" where
  "XXH3_scrambleAcc_avx2 ops acc secret =
     (let prime32 = set1_epi32 ops XXH_PRIME32_1
      in foldl (\<lambda>xacc i.
           let acc_vec = vec_at ops 4 xacc i;
               shifted = srli_epi64 ops acc_vec 47;
               data_vec = xor_si ops acc_vec shifted;
               key_vec = loadu_si ops (drop (32 * i) secret);
               data_key = xor_si ops data_vec key_vec;
               data_key_hi = srli_epi64 ops data_key 32;
               prod_lo = mul_epu32 ops data_key prime32;
               prod_hi = mul_epu32 ops data_key_hi prime32
           in put_vec ops 4 xacc i (add_epi64 ops prod_lo (slli_epi64 ops prod_hi 32))) acc [0..<XXH_STRIPE_LEN div 32])"

definition XXH3_scrambleAcc_avx512 :: "('v, 'z) avx512_ops_scheme \<Rightarrow> scramble_fn" where
  "XXH3_scrambleAcc_avx512 ops xacc secret =
     (let prime32 = set1_epi32 ops XXH_PRIME32_1;
          acc_vec = vec_at ops 8 xacc 0;
          shifted = srli_epi64 ops acc_vec 47;
          key_vec = loadu_si ops secret;
          data_key = ternarylogic_epi32 ops key_vec acc_vec shifted 0x96;
          data_key_hi = srli_epi64 ops data_key 32;
          prod_lo = mul_epu32 ops data_key prime32;
          prod_hi = mul_epu32 ops data_key_hi prime32
      in put_vec ops 8 xacc 0 (add_epi64 ops prod_lo (slli_epi64 ops prod_hi 32)))"

text \<open>The secret of a seed: the seed is added to the even lanes of the default secret and
  subtracted from the odd ones.\<close>

definition XXH3_initCustomSecret_sse2 :: "('v, 'z) simd_ops_scheme \<Rightarrow> u64 \<Rightarrow> bytes" where
  "XXH3_initCustomSecret_sse2 ops seed64 =
     (let seed = set_epi64x ops [0 - seed64, seed64]
      in concat (map (\<lambda>i. vec_bytes ops (add_epi64 ops (load_si ops (drop (16 * i) XXH3_kSecret)) seed))
           [0..<XXH_SECRET_DEFAULT_SIZE div 16]))"

definition XXH3_initCustomSecret_avx2 :: "('v, 'z) simd_ops_scheme \<Rightarrow> u64 \<Rightarrow> bytes" where
  "XXH3_initCustomSecret_avx2 ops seed64 =
     (let seed = set_epi64x ops [0 - seed64, seed64, 0 - seed64, seed64];
          dest = (\<lambda>i. vec_bytes ops (add_epi64 ops (load_si ops (drop (32 * i) XXH3_kSecret)) seed))
      in dest 0 @ dest 1 @ dest 2 @ dest 3 @ dest 4 @ dest 5)"

definition XXH3_initCustomSecret_avx512 :: "('v, 'z) avx512_ops_scheme \<Rightarrow> u64 \<Rightarrow> bytes" where
  "XXH3_initCustomSecret_avx512 ops seed64 =
     (let seed_pos = set1_epi64 ops seed64;
          seed = mask_sub_epi64 ops seed_pos 0xAA (set1_epi8 ops 0) seed_pos
      in concat (map (\<lambda>i. vec_bytes ops (add_epi64 ops (load_si ops (drop (64 * i) XXH3_kSecret)) seed))
           [0..<XXH_SECRET_DEFAULT_SIZE div 64]))"

section \<open>The LoongArch variants\<close>

definition XXH3_accumulate_512_lsx :: "('v, 'z) simd_ops_scheme \<Rightarrow> u64 list \<Rightarrow> bytes \<Rightarrow> bytes \<Rightarrow> u64 list" where
  "XXH3_accumulate_512_lsx ops acc input secret =
     foldl (\<lambda>xacc i.
       let data_vec = loadu_si ops (drop (16 * i) input);
           key_vec = loadu_si ops (drop (16 * i) secret);
           data_key = xor_si ops data_vec key_vec;
           data_key_lo = srli_epi64 ops data_key 32;
           product = mul_epu32 ops data_key data_key_lo;
           data_swap = shuffle_epi32 ops data_vec (MM_SHUFFLE 1 0 3 2);
           sum = add_epi64 ops (vec_at ops 2 xacc i) data_swap
       in put_vec ops 2 xacc i (add_epi64 ops product sum)) acc [0..<XXH_STRIPE_LEN div 16]"

definition XXH3_scrambleAcc_lsx :: "('v, 'z) simd_ops_scheme \<Rightarrow> scramble_fn" where
  "XXH3_scrambleAcc_lsx ops acc secret =
     (let prime32 = set1_epi64 ops (ucast XXH_PRIME32_1)
      in foldl (\<lambda>xacc i.
           let acc_vec = vec_at ops 2 xacc i;
               shifted = srli_epi64 ops acc_vec 47;
               data_vec = xor_si ops acc_vec shifted;
               key_vec = loadu_si ops (drop (16 * i) secret);
               data_key = xor_si ops data_vec key_vec
           in put_vec ops 2 xacc i (mul_d ops data_key prime32)) acc [0..<XXH_STRIPE_LEN div 16])"

text \<open>LASX has twice the width; its stripe function is that of AVX2 with other names.\<close>

definition XXH3_accumulate_512_lasx :: "('v, 'z) simd_ops_scheme \<Rightarrow> u64 list \<Rightarrow> bytes \<Rightarrow> bytes \<Rightarrow> u64 list" where
  "XXH3_accumulate_512_lasx ops acc input secret =
     foldl (\<lambda>xacc i.
       let data_vec = loadu_si ops (drop (32 * i) input);
           key_vec = loadu_si ops (drop (32 * i) secret);
           data_key = xor_si ops data_vec key_vec;
           data_key_lo = srli_epi64 ops data_key 32;
           product = mul_epu32 ops data_key data_key_lo;
           data_swap = shuffle_epi32 ops data_vec (MM_SHUFFLE 1 0 3 2);
           sum = add_epi64 ops (vec_at ops 4 xacc i) data_swap
       in put_vec ops 4 xacc i (add_epi64 ops product sum)) acc [0..<XXH_STRIPE_LEN div 32]"

definition XXH3_scrambleAcc_lasx :: "('v, 'z) simd_ops_scheme \<Rightarrow> scramble_fn" where
  "XXH3_scrambleAcc_lasx ops acc secret =
     (let prime32 = set1_epi64 ops (ucast XXH_PRIME32_1)
      in foldl (\<lambda>xacc i.
           let acc_vec = vec_at ops 4 xacc i;
               shifted = srli_epi64 ops acc_vec 47;
               data_vec = xor_si ops acc_vec shifted;
               key_vec = loadu_si ops (drop (32 * i) secret);
               data_key = xor_si ops data_vec key_vec
           in put_vec ops 4 xacc i (mul_d ops data_key prime32)) acc [0..<XXH_STRIPE_LEN div 32])"

section \<open>Lane by lane\<close>

text \<open>A loop over the vectors that rewrites each lane by a function of the lane and its number
  rewrites all lanes.\<close>

lemma vector_loop:
  assumes "length acc = c * m"
    and "\<And>xacc i. length xacc = c * m \<Longrightarrow> i < c \<Longrightarrow>
      \<exists>ys. step xacc i = take (i * m) xacc @ ys @ drop (i * m + m) xacc
        \<and> ys = map (\<lambda>j. g (xacc ! (i * m + j)) (i * m + j)) [0..<m]"
  shows "foldl step acc [0..<c] = map (\<lambda>k. g (acc ! k) k) [0..<c * m]"
proof -
  have "n \<le> c \<Longrightarrow> foldl step acc [0..<n] = map (\<lambda>k. g (acc ! k) k) [0..<n * m] @ drop (n * m) acc" for n
  proof (induction n)
    case (Suc n)
    let ?x = "map (\<lambda>k. g (acc ! k) k) [0..<n * m] @ drop (n * m) acc"
    have le: "n * m + m \<le> c * m" using Suc.prems by (metis add.commute mult_Suc mult_le_mono1)
    have lx: "length ?x = c * m" using assms(1) le by simp
    have in_acc: "n * m \<le> length acc" using assms(1) le by linarith
    have "map (\<lambda>j. g (?x ! (n * m + j)) (n * m + j)) [0..<m] = map (\<lambda>j. g (acc ! (n * m + j)) (n * m + j)) [0..<m]"
      using in_acc by (auto simp: nth_append)
    also have "\<dots> = map (\<lambda>k. g (acc ! k) k) [n * m..<n * m + m]"
      by (rule nth_equalityI) simp_all
    finally have "foldl step acc [0..<Suc n] = take (n * m) ?x @ map (\<lambda>k. g (acc ! k) k) [n * m..<n * m + m] @ drop (n * m + m) ?x"
      using assms(2) [OF lx, of n] Suc by simp
    moreover have "drop (n * m + m) ?x = drop (Suc n * m) acc" by (simp add: add.commute)
    moreover have "[0..<Suc n * m] = [0..<n * m] @ [n * m..<n * m + m]"
      using upt_add_eq_append [of 0 "n * m" m] by (simp add: add.commute)
    ultimately show ?case by simp
  qed simp
  from this [of c] assms(1) show ?thesis by simp
qed

lemma scrambleAcc_lanes:
  assumes "length acc = 8"
  shows "XXH3_scrambleAcc acc secret
    = map (\<lambda>k. (XXH_xorshift64 (acc ! k) 47 XOR XXH_readLE64 secret (k * 8)) * ucast XXH_PRIME32_1) [0..<8]"
proof -
  obtain a b c d e f g h where acc: "acc = [a, b, c, d, e, f, g, h]" using eight_lanes [OF assms] .
  show ?thesis unfolding XXH3_scrambleAcc_def XXH_ACC_NB_def upt_8
    by (simp add: acc XXH3_scalarScrambleRound_def Let_def)
qed

text \<open>The two halves of a lane.\<close>

lemma halves: "(x :: u64) = ucast (ucast x :: u32) + push_bit 32 (ucast (ucast (drop_bit 32 x) :: u32))"
proof -
  have "ucast (ucast x :: u32) = take_bit 32 x" "ucast (ucast (drop_bit 32 x) :: u32) = drop_bit 32 x"
    by (rule bit_word_eqI; auto simp: bit_simps dest: bit_imp_le_length)+
  moreover have "x = take_bit 32 x + push_bit 32 (drop_bit 32 x)"
    by (metis add.commute bits_ident)
  ultimately show ?thesis by simp
qed

lemma low_word: "ucast ((ucast w :: u64) + push_bit 32 z) = (w :: u32)"
proof -
  have "(ucast w :: u64) AND push_bit 32 z = 0" by (rule bit_word_eqI) (auto simp: bit_simps dest: bit_imp_le_length)
  then have "(ucast w :: u64) + push_bit 32 z = ucast w OR push_bit 32 z" by (rule disjunctive_add_eq_or)
  then show ?thesis by (simp only:) (rule bit_word_eqI, simp add: bit_simps)
qed

lemma high_word: "ucast (drop_bit 32 ((ucast w :: u64) + push_bit 32 (ucast z))) = (z :: u32)" for w :: u32
proof -
  have "(ucast w :: u64) AND push_bit 32 (ucast z) = 0" by (rule bit_word_eqI) (auto simp: bit_simps dest: bit_imp_le_length)
  then have "(ucast w :: u64) + push_bit 32 (ucast z) = ucast w OR push_bit 32 (ucast z)" by (rule disjunctive_add_eq_or)
  then show ?thesis by (simp only:) (rule bit_word_eqI, auto simp: bit_simps dest: bit_imp_le_length)
qed

lemma mul_low32_high: "mul_low32 x p + push_bit 32 (mul_low32 (drop_bit 32 x) p) = x * ucast (ucast p :: u32)"
proof -
  let ?p = "ucast (ucast p :: u32) :: u64"
  have "x * ?p = (ucast (ucast x :: u32) + push_bit 32 (ucast (ucast (drop_bit 32 x) :: u32))) * ?p"
    by (simp only: halves [symmetric])
  then show ?thesis by (simp add: mul_low32_def distrib_right push_bit_eq_mult mult.assoc)
qed

lemma neighbour: "even a \<Longrightarrow> (a + j) XOR 1 = a + (j XOR (1 :: nat))"
  by (cases "even j") (auto simp: xor_Suc_0_eq One_nat_def elim!: oddE)

text \<open>The two shuffles: with control \<open>1 0 3 2\<close> the lanes of a pair change places; with \<open>0 3 0 1\<close>
  the low words are the high words of the lanes.\<close>

lemma dword_pair:
  "dword xs (4 * k) = ucast (xs ! (2 * k))" "dword xs (4 * k + 1) = ucast (drop_bit 32 (xs ! (2 * k)))"
  "dword xs (4 * k + 2) = ucast (xs ! (2 * k + 1))" "dword xs (4 * k + 3) = ucast (drop_bit 32 (xs ! (2 * k + 1)))"
proof -
  have "(4 * k + 3) mod 2 = 1" "(4 * k + 3) div 2 = 2 * k + 1" "(4 * k + 1) mod 2 = 1" "(4 * k + 1) div 2 = 2 * k"
    "(4 * k) div 2 = 2 * k" "(4 * k + 2) div 2 = 2 * k + 1" by presburger+
  then show "dword xs (4 * k) = ucast (xs ! (2 * k))" "dword xs (4 * k + 1) = ucast (drop_bit 32 (xs ! (2 * k)))"
    "dword xs (4 * k + 2) = ucast (xs ! (2 * k + 1))" "dword xs (4 * k + 3) = ucast (drop_bit 32 (xs ! (2 * k + 1)))"
    by (simp_all only: dword_def) simp_all
qed

lemma shuffle_pair:
  "2 * k + 1 < length xs \<Longrightarrow> shuffle_lanes xs imm ! (2 * k)
    = ucast (dword xs (4 * k + imm mod 4)) + push_bit 32 (ucast (dword xs (4 * k + imm div 4 mod 4)))"
  "2 * k + 1 < length xs \<Longrightarrow> shuffle_lanes xs imm ! (2 * k + 1)
    = ucast (dword xs (4 * k + imm div 16 mod 4)) + push_bit 32 (ucast (dword xs (4 * k + imm div 64 mod 4)))"
  by (simp_all add: shuffle_lanes_def Let_def)

lemma shuffle_swap:
  assumes "even (length xs)" "j < length xs"
  shows "shuffle_lanes xs (MM_SHUFFLE 1 0 3 2) ! j = xs ! (j XOR 1)"
proof -
  obtain k where k: "j = 2 * k \<or> j = 2 * k + 1" by (metis evenE oddE)
  then have in_range: "2 * k + 1 < length xs" using assms by (auto elim!: evenE)
  have "shuffle_lanes xs (MM_SHUFFLE 1 0 3 2) ! (2 * k) = xs ! (2 * k + 1)"
    "shuffle_lanes xs (MM_SHUFFLE 1 0 3 2) ! (2 * k + 1) = xs ! (2 * k)"
    unfolding shuffle_pair [OF in_range]
    by (simp_all add: MM_SHUFFLE_def dword_pair [simplified] halves [symmetric])
  then show ?thesis using k by (auto simp: xor_Suc_0_eq)
qed

lemma shuffle_high:
  assumes "even (length xs)" "j < length xs"
  shows "(ucast (shuffle_lanes xs (MM_SHUFFLE 0 3 0 1) ! j) :: u32) = ucast (drop_bit 32 (xs ! j))"
proof -
  obtain k where k: "j = 2 * k \<or> j = 2 * k + 1" by (metis evenE oddE)
  then have in_range: "2 * k + 1 < length xs" using assms by (auto elim!: evenE)
  have "ucast (shuffle_lanes xs (MM_SHUFFLE 0 3 0 1) ! (2 * k)) = (ucast (drop_bit 32 (xs ! (2 * k))) :: u32)"
    "ucast (shuffle_lanes xs (MM_SHUFFLE 0 3 0 1) ! (2 * k + 1)) = (ucast (drop_bit 32 (xs ! (2 * k + 1))) :: u32)"
    unfolding shuffle_pair [OF in_range] low_word
    by (simp_all add: MM_SHUFFLE_def dword_pair [simplified])
  then show ?thesis using k by auto
qed

section \<open>The vector loops compute the scalar functions\<close>

lemma xor_one_less: "even m \<Longrightarrow> j < m \<Longrightarrow> j XOR 1 < (m :: nat)"
  by (cases "even j") (auto simp: xor_Suc_0_eq elim!: evenE oddE)

text \<open>A function that puts the high word of each lane into the low one.\<close>

definition high_words :: "('v, 'z) simd_ops_scheme \<Rightarrow> nat \<Rightarrow> ('v \<Rightarrow> 'v) \<Rightarrow> bool" where
  "high_words ops m hi \<longleftrightarrow>
     (\<forall>v. \<forall>j < m. (ucast (lanes ops (hi v) ! j) :: u32) = ucast (drop_bit 32 (lanes ops v ! j)))"

text \<open>The secret of a seed in lanes.\<close>

definition secret_lane :: "u64 \<Rightarrow> nat \<Rightarrow> u64" where
  "secret_lane seed k = XXH_readLE64 XXH3_kSecret (8 * k) + (if even k then seed else - seed)"

lemma concat_blocks:
  "concat (map (\<lambda>i. concat (map (\<lambda>j. f (i * m + j)) [0..<m])) [0..<c]) = concat (map f [0..<c * m])"
proof (induction c)
  case (Suc c)
  have "map (\<lambda>j. f (c * m + j)) [0..<m] = map f [c * m..<c * m + m]"
    by (rule nth_equalityI) simp_all
  moreover have "[0..<Suc c * m] = [0..<c * m] @ [c * m..<c * m + m]"
    using upt_add_eq_append [of 0 "c * m" m] by (simp add: add.commute)
  ultimately show ?case using Suc by simp
qed simp

lemma initCustomSecret_lanes: "XXH3_initCustomSecret seed = concat (map (\<lambda>k. le_enc 8 (secret_lane seed k)) [0..<24])"
proof -
  have "XXH3_initCustomSecret seed
      = concat (map (\<lambda>i. concat (map (\<lambda>j. le_enc 8 (secret_lane seed (i * 2 + j))) [0..<2])) [0..<12])"
    unfolding XXH3_initCustomSecret_def XXH_SECRET_DEFAULT_SIZE_def Let_def
    by (simp add: secret_lane_def upt_rec algebra_simps)
  then show ?thesis using concat_blocks [of "\<lambda>k. le_enc 8 (secret_lane seed k)" 2 12] by simp
qed

context simd
begin

lemma lanes_vec_at:
  assumes "i * m + m \<le> length xacc" "j < m"
  shows "lanes ops (vec_at ops m xacc i) ! j = xacc ! (i * m + j)"
  using assms by (simp add: vec_at_def of_lanes)

lemma lanes_load_at:
  assumes "i * m + m \<le> 8" "j < m" "64 \<le> length p"
  shows "lanes ops (loadu_si ops (drop (8 * m * i) p)) ! j = XXH_readLE64 p ((i * m + j) * 8)"
proof -
  have "8 * (i * m + m) \<le> 8 * 8" using assms(1) by (rule mult_le_mono2)
  then have "8 * m \<le> length (drop (8 * m * i) p)" using assms(3) by (simp add: algebra_simps)
  then show ?thesis using assms(2) by (simp add: lane_loadu readLE64_drop algebra_simps)
qed

lemma lanes_swap:
  assumes "even m" "j < m"
  shows "lanes ops (shuffle_epi32 ops v (MM_SHUFFLE 1 0 3 2)) ! j = lanes ops v ! (j XOR 1)"
  using shuffle_swap [of "lanes ops v" j] assms by (simp add: shuffle len)

lemma high_words_srli: "high_words ops m (\<lambda>v. srli_epi64 ops v 32)"
  by (simp add: high_words_def lane)

lemma high_words_shuffle: "even m \<Longrightarrow> high_words ops m (\<lambda>v. shuffle_epi32 ops v (MM_SHUFFLE 0 3 0 1))"
  using shuffle_high by (simp add: high_words_def shuffle len)

lemma accumulate_vectors:
  assumes "even m" "c * m = 8" "length acc = 8" "64 \<le> length input" "64 \<le> length secret" "high_words ops m hi"
  shows "foldl (\<lambda>xacc i.
       let data_vec = loadu_si ops (drop (8 * m * i) input);
           key_vec = loadu_si ops (drop (8 * m * i) secret);
           data_key = xor_si ops data_vec key_vec;
           data_key_lo = hi data_key;
           product = mul_epu32 ops data_key data_key_lo;
           data_swap = shuffle_epi32 ops data_vec (MM_SHUFFLE 1 0 3 2);
           sum = add_epi64 ops (vec_at ops m xacc i) data_swap
       in put_vec ops m xacc i (add_epi64 ops product sum)) acc [0..<c] = XXH3_accumulate_512 acc input secret"
    (is "foldl ?step acc [0..<c] = _")
proof -
  define g where "g a k = (let data_key = XXH_readLE64 input (k * 8) XOR XXH_readLE64 secret (k * 8)
    in a + XXH_readLE64 input ((k XOR 1) * 8) + mul_low32 data_key (drop_bit 32 data_key))" for a and k :: nat
  have "\<exists>ys. ?step xacc i = take (i * m) xacc @ ys @ drop (i * m + m) xacc
      \<and> ys = map (\<lambda>j. g (xacc ! (i * m + j)) (i * m + j)) [0..<m]"
    if xacc: "length xacc = c * m" and i: "i < c" for xacc i
  proof -
    have "Suc i * m \<le> c * m" using i by (intro mult_le_mono1) simp
    then have fits: "i * m + m \<le> 8" "i * m + m \<le> length xacc" using assms(2) xacc by simp_all
    let ?d = "loadu_si ops (drop (8 * m * i) input)" and ?k = "loadu_si ops (drop (8 * m * i) secret)"
    let ?v = "add_epi64 ops (mul_epu32 ops (xor_si ops ?d ?k) (hi (xor_si ops ?d ?k)))
      (add_epi64 ops (vec_at ops m xacc i) (shuffle_epi32 ops ?d (MM_SHUFFLE 1 0 3 2)))"
    have im: "even (i * m)" using assms(1) by simp
    have "lanes ops ?v ! j = g (xacc ! (i * m + j)) (i * m + j)" if j: "j < m" for j
    proof -
      let ?x = "lanes ops (xor_si ops ?d ?k) ! j"
      have x: "?x = XXH_readLE64 input ((i * m + j) * 8) XOR XXH_readLE64 secret ((i * m + j) * 8)"
        using fits(1) j assms(4,5) by (simp only: lane lanes_load_at)
      have "mul_low32 ?x (lanes ops (hi (xor_si ops ?d ?k)) ! j) = mul_low32 ?x (drop_bit 32 ?x)"
        using assms(6) j by (simp only: mul_low32_def high_words_def)
      moreover have "lanes ops (shuffle_epi32 ops ?d (MM_SHUFFLE 1 0 3 2)) ! j = XXH_readLE64 input (((i * m + j) XOR 1) * 8)"
        using fits(1) j assms(1,4) xor_one_less [OF assms(1) j] neighbour [OF im, of j]
        by (simp only: lanes_swap lanes_load_at)
      ultimately show ?thesis using fits(2) j
        by (simp only: lane(4,5) lanes_vec_at g_def Let_def x [symmetric]) (simp add: add.commute add.left_commute)
    qed
    then have "lanes ops ?v = map (\<lambda>j. g (xacc ! (i * m + j)) (i * m + j)) [0..<m]"
      by (intro nth_equalityI) (simp_all add: len)
    then show ?thesis by (simp only: put_vec_def Let_def) blast
  qed
  from vector_loop [of acc c m ?step g, OF _ this]
  have "foldl ?step acc [0..<c] = map (\<lambda>k. g (acc ! k) k) [0..<8]" using assms(2,3) by simp
  then show ?thesis using assms(3)
    by (simp only: accumulate_512_lanes accumulate_lanes_def g_def mul_low32_def XXH_mult32to64_def)
qed

lemma scramble_vectors:
  assumes "c * m = 8" "length acc = 8"
    and "\<And>xacc i j. length xacc = 8 \<Longrightarrow> i * m + m \<le> 8 \<Longrightarrow> j < m \<Longrightarrow> lanes ops (vec xacc i) ! j
      = (XXH_xorshift64 (xacc ! (i * m + j)) 47 XOR XXH_readLE64 secret ((i * m + j) * 8)) * ucast XXH_PRIME32_1"
  shows "foldl (\<lambda>xacc i. put_vec ops m xacc i (vec xacc i)) acc [0..<c] = XXH3_scrambleAcc acc secret"
    (is "foldl ?step acc [0..<c] = _")
proof -
  define g where "g a k = (XXH_xorshift64 a 47 XOR XXH_readLE64 secret (k * 8)) * ucast XXH_PRIME32_1" for a k
  have "\<exists>ys. ?step xacc i = take (i * m) xacc @ ys @ drop (i * m + m) xacc
      \<and> ys = map (\<lambda>j. g (xacc ! (i * m + j)) (i * m + j)) [0..<m]"
    if xacc: "length xacc = c * m" and i: "i < c" for xacc i
  proof -
    have "Suc i * m \<le> c * m" using i by (intro mult_le_mono1) simp
    then have "i * m + m \<le> 8" using assms(1) by simp
    then have "lanes ops (vec xacc i) = map (\<lambda>j. g (xacc ! (i * m + j)) (i * m + j)) [0..<m]"
      using assms(1,3) xacc by (intro nth_equalityI) (simp_all add: len g_def)
    then show ?thesis by (simp only: put_vec_def) blast
  qed
  from vector_loop [of acc c m ?step g, OF _ this]
  have "foldl ?step acc [0..<c] = map (\<lambda>k. g (acc ! k) k) [0..<8]" using assms(1,2) by simp
  then show ?thesis using assms(2) by (simp only: scrambleAcc_lanes g_def)
qed

text \<open>The multiplication by a 32-bit constant that all lanes of \<open>p\<close> hold in their low word.\<close>

lemma lanes_mul_prime:
  assumes "j < m" "ucast (lanes ops hi ! j) = (ucast (drop_bit 32 (lanes ops x ! j)) :: u32)"
  shows "lanes ops (add_epi64 ops (mul_epu32 ops x (set1_epi32 ops w)) (slli_epi64 ops (mul_epu32 ops hi (set1_epi32 ops w)) 32)) ! j
    = lanes ops x ! j * ucast w"
  using mul_low32_high [of "lanes ops x ! j" "ucast w + push_bit 32 (ucast w)"] assms
  by (simp only: lane low_word) (simp only: mul_low32_def low_word)

lemma lanes_scramble_key:
  assumes "i * m + m \<le> 8" "length xacc = 8" "j < m" "64 \<le> length secret"
  shows "lanes ops (xor_si ops (xor_si ops (vec_at ops m xacc i) (srli_epi64 ops (vec_at ops m xacc i) 47))
      (loadu_si ops (drop (8 * m * i) secret))) ! j
    = XXH_xorshift64 (xacc ! (i * m + j)) 47 XOR XXH_readLE64 secret ((i * m + j) * 8)"
  using assms by (simp only: lane lanes_vec_at lanes_load_at XXH_xorshift64_def)

text \<open>A block of the secret of a seed, given a vector with the seed and its negation in turn.\<close>

lemma vec_secret:
  assumes "even m" "i * m + m \<le> 24"
    and "\<And>j. j < m \<Longrightarrow> lanes ops sv ! j = (if even j then seed else - seed)"
  shows "vec_bytes ops (add_epi64 ops (load_si ops (drop (8 * m * i) XXH3_kSecret)) sv)
    = concat (map (\<lambda>j. le_enc 8 (secret_lane seed (i * m + j))) [0..<m])"
proof -
  have "8 * (i * m + m) \<le> 8 * 24" using assms(2) by (rule mult_le_mono2)
  then have fits: "8 * m \<le> length (drop (8 * m * i) XXH3_kSecret)" by (simp add: XXH3_kSecret_def algebra_simps)
  have "lanes ops (add_epi64 ops (load_si ops (drop (8 * m * i) XXH3_kSecret)) sv) ! j = secret_lane seed (i * m + j)"
    if "j < m" for j
    using that assms(1,3) fits by (simp add: lane(4) load readLE64_drop secret_lane_def algebra_simps)
  then have "lanes ops (add_epi64 ops (load_si ops (drop (8 * m * i) XXH3_kSecret)) sv)
      = map (\<lambda>j. secret_lane seed (i * m + j)) [0..<m]"
    by (intro nth_equalityI) (simp_all add: len)
  then show ?thesis by (simp add: vec_bytes_def comp_def)
qed

end

section \<open>The mixed code for NEON\<close>

text \<open>Vectors of two 64-bit lanes, of four 32-bit words and of two 32-bit words. Vectors
  in memory are written and read as on x86, with \<open>lanes_u64\<close> and \<open>of_lanes_u64\<close>.\<close>

record ('v, 'w, 'h) neon_ops =
  lanes_u64 :: "'v \<Rightarrow> u64 list"
  of_lanes_u64 :: "u64 list \<Rightarrow> 'v"
  lanes_u32 :: "'w \<Rightarrow> u32 list"
  half_u32 :: "'h \<Rightarrow> u32 list"
  vextq_u64 :: "'v \<Rightarrow> 'v \<Rightarrow> nat \<Rightarrow> 'v"
  veorq_u64 :: "'v \<Rightarrow> 'v \<Rightarrow> 'v"
  vaddq_u64 :: "'v \<Rightarrow> 'v \<Rightarrow> 'v"
  vshrq_n_u64 :: "'v \<Rightarrow> nat \<Rightarrow> 'v"
  vdupq_n_u64 :: "u64 \<Rightarrow> 'v"
  vreinterpretq_u32_u64 :: "'v \<Rightarrow> 'w"
  vreinterpretq_u64_u32 :: "'w \<Rightarrow> 'v"
  vuzpq_u32 :: "'w \<Rightarrow> 'w \<Rightarrow> 'w \<times> 'w"
  vmulq_u32 :: "'w \<Rightarrow> 'w \<Rightarrow> 'w"
  vget_low_u32 :: "'w \<Rightarrow> 'h"
  vget_high_u32 :: "'w \<Rightarrow> 'h"
  vdup_n_u32 :: "u32 \<Rightarrow> 'h"
  vmovn_u64 :: "'v \<Rightarrow> 'h"
  vshrn_n_u64 :: "'v \<Rightarrow> nat \<Rightarrow> 'h"
  vmlal_u32 :: "'v \<Rightarrow> 'h \<Rightarrow> 'h \<Rightarrow> 'v"

definition words_of :: "u64 list \<Rightarrow> u32 list" where
  "words_of xs = concat (map (\<lambda>x. [ucast x, ucast (drop_bit 32 x)]) xs)"

text \<open>Every vector is given by its lanes.\<close>

locale neon =
  fixes ops :: "('v, 'w, 'h) neon_ops"
  assumes len: "\<exists>x y. lanes_u64 ops v = [x, y]"
    and of_lanes: "lanes_u64 ops (of_lanes_u64 ops [x, y]) = [x, y]"
    and vext: "lanes_u64 ops a = [x, y] \<Longrightarrow> lanes_u64 ops b = [z, t] \<Longrightarrow> lanes_u64 ops (vextq_u64 ops a b 1) = [y, z]"
    and veor: "lanes_u64 ops (veorq_u64 ops a b) = map2 (XOR) (lanes_u64 ops a) (lanes_u64 ops b)"
    and vadd: "lanes_u64 ops (vaddq_u64 ops a b) = map2 (+) (lanes_u64 ops a) (lanes_u64 ops b)"
    and vshr: "lanes_u64 ops (vshrq_n_u64 ops a k) = map (drop_bit k) (lanes_u64 ops a)"
    and vdupq: "lanes_u64 ops (vdupq_n_u64 ops z) = [z, z]"
    and to_u32: "lanes_u32 ops (vreinterpretq_u32_u64 ops a) = words_of (lanes_u64 ops a)"
    and to_u64: "words_of (lanes_u64 ops (vreinterpretq_u64_u32 ops w)) = lanes_u32 ops w"
    and vuzp: "lanes_u32 ops c = [p0, p1, p2, p3] \<Longrightarrow> lanes_u32 ops d = [q0, q1, q2, q3] \<Longrightarrow>
      lanes_u32 ops (fst (vuzpq_u32 ops c d)) = [p0, p2, q0, q2]
        \<and> lanes_u32 ops (snd (vuzpq_u32 ops c d)) = [p1, p3, q1, q3]"
    and vmulq: "lanes_u32 ops (vmulq_u32 ops c d) = map2 (*) (lanes_u32 ops c) (lanes_u32 ops d)"
    and vget: "half_u32 ops (vget_low_u32 ops c) = take 2 (lanes_u32 ops c)"
      "half_u32 ops (vget_high_u32 ops c) = drop 2 (lanes_u32 ops c)"
    and vdup: "half_u32 ops (vdup_n_u32 ops n) = [n, n]"
    and vmovn: "half_u32 ops (vmovn_u64 ops a) = map ucast (lanes_u64 ops a)"
    and vshrn: "half_u32 ops (vshrn_n_u64 ops a k) = map (\<lambda>x. ucast (drop_bit k x)) (lanes_u64 ops a)"
    and vmlal: "lanes_u64 ops a = [x, y] \<Longrightarrow> half_u32 ops h = [p, q] \<Longrightarrow> half_u32 ops g = [r, u] \<Longrightarrow>
      lanes_u64 ops (vmlal_u32 ops a h g) = [x + ucast p * ucast r, y + ucast q * ucast u]"

definition XXH_vld1q_u64 :: "('v, 'w, 'h) neon_ops \<Rightarrow> bytes \<Rightarrow> 'v" where
  "XXH_vld1q_u64 ops ptr = of_lanes_u64 ops [XXH_readLE64 ptr 0, XXH_readLE64 ptr 8]"

definition XXH_vmlal_low_u32 :: "('v, 'w, 'h) neon_ops \<Rightarrow> 'v \<Rightarrow> 'w \<Rightarrow> 'w \<Rightarrow> 'v" where
  "XXH_vmlal_low_u32 ops acc lhs rhs = vmlal_u32 ops acc (vget_low_u32 ops lhs) (vget_low_u32 ops rhs)"

definition XXH_vmlal_high_u32 :: "('v, 'w, 'h) neon_ops \<Rightarrow> 'v \<Rightarrow> 'w \<Rightarrow> 'w \<Rightarrow> 'v" where
  "XXH_vmlal_high_u32 ops acc lhs rhs = vmlal_u32 ops acc (vget_high_u32 ops lhs) (vget_high_u32 ops rhs)"

definition neon_at :: "('v, 'w, 'h) neon_ops \<Rightarrow> u64 list \<Rightarrow> nat \<Rightarrow> 'v" where
  "neon_at ops xacc i = of_lanes_u64 ops [xacc ! (2 * i), xacc ! (2 * i + 1)]"

definition put_neon :: "('v, 'w, 'h) neon_ops \<Rightarrow> u64 list \<Rightarrow> nat \<Rightarrow> 'v \<Rightarrow> u64 list" where
  "put_neon ops xacc i v = take (2 * i) xacc @ lanes_u64 ops v @ drop (2 * i + 2) xacc"

text \<open>The bodies of the two vector loops: four lanes, and two lanes at a time.\<close>

definition neon_round_4 :: "('v, 'w, 'h) neon_ops \<Rightarrow> bytes \<Rightarrow> bytes \<Rightarrow> u64 list \<Rightarrow> nat \<Rightarrow> u64 list" where
  "neon_round_4 ops input secret xacc i =
     (let data_vec_1 = XXH_vld1q_u64 ops (drop (i * 16) input);
          data_vec_2 = XXH_vld1q_u64 ops (drop ((i + 1) * 16) input);
          key_vec_1 = XXH_vld1q_u64 ops (drop (i * 16) secret);
          key_vec_2 = XXH_vld1q_u64 ops (drop ((i + 1) * 16) secret);
          data_swap_1 = vextq_u64 ops data_vec_1 data_vec_1 1;
          data_swap_2 = vextq_u64 ops data_vec_2 data_vec_2 1;
          data_key_1 = veorq_u64 ops data_vec_1 key_vec_1;
          data_key_2 = veorq_u64 ops data_vec_2 key_vec_2;
          unzipped = vuzpq_u32 ops (vreinterpretq_u32_u64 ops data_key_1) (vreinterpretq_u32_u64 ops data_key_2);
          data_key_lo = fst unzipped;
          data_key_hi = snd unzipped;
          sum_1 = XXH_vmlal_low_u32 ops data_swap_1 data_key_lo data_key_hi;
          sum_2 = XXH_vmlal_high_u32 ops data_swap_2 data_key_lo data_key_hi;
          xacc1 = put_neon ops xacc i (vaddq_u64 ops (neon_at ops xacc i) sum_1)
      in put_neon ops xacc1 (i + 1) (vaddq_u64 ops (neon_at ops xacc1 (i + 1)) sum_2))"

definition neon_round_2 :: "('v, 'w, 'h) neon_ops \<Rightarrow> bytes \<Rightarrow> bytes \<Rightarrow> u64 list \<Rightarrow> nat \<Rightarrow> u64 list" where
  "neon_round_2 ops input secret xacc i =
     (let data_vec = XXH_vld1q_u64 ops (drop (i * 16) input);
          key_vec = XXH_vld1q_u64 ops (drop (i * 16) secret);
          data_swap = vextq_u64 ops data_vec data_vec 1;
          data_key = veorq_u64 ops data_vec key_vec;
          data_key_lo = vmovn_u64 ops data_key;
          data_key_hi = vshrn_n_u64 ops data_key 32;
          sum = vmlal_u32 ops data_swap data_key_lo data_key_hi
      in put_neon ops xacc i (vaddq_u64 ops (neon_at ops xacc i) sum))"

text \<open>\<open>L\<close> is \<open>XXH3_NEON_LANES\<close>: the lanes from there on are scalar. The first loop takes \<open>i\<close> by
  steps of 2 while \<open>i + 1 < L / 2\<close>, the second one goes on from there.\<close>

definition XXH3_accumulate_512_neon :: "('v, 'w, 'h) neon_ops \<Rightarrow> nat \<Rightarrow> u64 list \<Rightarrow> bytes \<Rightarrow> bytes \<Rightarrow> u64 list" where
  "XXH3_accumulate_512_neon ops L acc input secret =
     (let acc1 = foldl (\<lambda>a i. XXH3_scalarRound a input secret i) acc [L..<XXH_ACC_NB];
          rounds = L div 2 div 2;
          acc2 = foldl (\<lambda>a t. neon_round_4 ops input secret a (2 * t)) acc1 [0..<rounds]
      in foldl (neon_round_2 ops input secret) acc2 [2 * rounds..<L div 2])"

definition neon_scramble_2 :: "('v, 'w, 'h) neon_ops \<Rightarrow> bytes \<Rightarrow> u64 list \<Rightarrow> nat \<Rightarrow> u64 list" where
  "neon_scramble_2 ops secret xacc i =
     (let kPrimeLo = vdup_n_u32 ops XXH_PRIME32_1;
          kPrimeHi = vreinterpretq_u32_u64 ops (vdupq_n_u64 ops (push_bit 32 (ucast XXH_PRIME32_1)));
          acc_vec = neon_at ops xacc i;
          shifted = vshrq_n_u64 ops acc_vec 47;
          data_vec = veorq_u64 ops acc_vec shifted;
          key_vec = XXH_vld1q_u64 ops (drop (i * 16) secret);
          data_key = veorq_u64 ops data_vec key_vec;
          prod_hi = vmulq_u32 ops (vreinterpretq_u32_u64 ops data_key) kPrimeHi;
          data_key_lo = vmovn_u64 ops data_key
      in put_neon ops xacc i (vmlal_u32 ops (vreinterpretq_u64_u32 ops prod_hi) data_key_lo kPrimeLo))"

definition XXH3_scrambleAcc_neon :: "('v, 'w, 'h) neon_ops \<Rightarrow> nat \<Rightarrow> scramble_fn" where
  "XXH3_scrambleAcc_neon ops L acc secret =
     (let acc1 = foldl (\<lambda>a i. XXH3_scalarScrambleRound a secret i) acc [L..<XXH_ACC_NB]
      in foldl (neon_scramble_2 ops secret) acc1 [0..<L div 2])"

text \<open>A pair of neighbouring lanes, each rewritten by a function of the lane and its number; the
  pairs can be taken in any order.\<close>

definition pair_update :: "(u64 \<Rightarrow> nat \<Rightarrow> u64) \<Rightarrow> u64 list \<Rightarrow> nat \<Rightarrow> u64 list" where
  "pair_update g xacc i = xacc[2 * i := g (xacc ! (2 * i)) (2 * i), 2 * i + 1 := g (xacc ! (2 * i + 1)) (2 * i + 1)]"

definition lane_round :: "bytes \<Rightarrow> bytes \<Rightarrow> u64 \<Rightarrow> nat \<Rightarrow> u64" where
  "lane_round input secret a k =
     (let data_key = XXH_readLE64 input (k * 8) XOR XXH_readLE64 secret (k * 8)
      in a + XXH_readLE64 input ((k XOR 1) * 8) + mul_low32 data_key (drop_bit 32 data_key))"

definition lane_scramble :: "bytes \<Rightarrow> u64 \<Rightarrow> nat \<Rightarrow> u64" where
  "lane_scramble secret a k = (XXH_xorshift64 a 47 XOR XXH_readLE64 secret (k * 8)) * ucast XXH_PRIME32_1"

lemma length_pair_update [simp]: "length (pair_update g xacc i) = length xacc"
  by (simp add: pair_update_def)

lemma small_upts:
  "[0..<1] = [0 :: nat]" "[0..<2] = [0, 1 :: nat]" "[0..<3] = [0, 1, 2 :: nat]" "[0..<4] = [0, 1, 2, 3 :: nat]"
  "[Suc 0..<4] = [1, 2, 3]" "[2..<4] = [2, 3 :: nat]" "[3..<4] = [3 :: nat]"
  by (simp_all add: upt_rec)

lemma pair_updates:
  assumes "length acc = 8" "L = 2 \<or> L = 4 \<or> L = 6 \<or> L = (8 :: nat)"
  shows "foldl (pair_update g) acc ([L div 2..<4] @ [0..<L div 2]) = map (\<lambda>k. g (acc ! k) k) [0..<8]"
proof -
  obtain a b c d e f h l where acc: "acc = [a, b, c, d, e, f, h, l]" using eight_lanes [OF assms(1)] .
  show ?thesis using assms(2)
    by (elim disjE) (simp_all add: acc pair_update_def small_upts upt_8)
qed

lemma put_pair:
  "2 * i + 1 < length xacc \<Longrightarrow> take (2 * i) xacc @ [x, y] @ drop (2 * i + 2) xacc = xacc[2 * i := x, 2 * i + 1 := y]"
  by (simp add: upd_conv_take_nth_drop take_Suc_conv_app_nth)

lemma scalar_pair:
  assumes "2 * i + 1 < length xacc"
  shows "XXH3_scalarRound (XXH3_scalarRound xacc input secret (2 * i)) input secret (2 * i + 1)
    = pair_update (lane_round input secret) xacc i"
  using assms
  by (simp add: XXH3_scalarRound_def Let_def pair_update_def lane_round_def xor_Suc_0_eq list_update_swap
      XXH_mult32to64_add64_def XXH_mult32to64_def mul_low32_def add.commute add.left_commute)

lemma scalar_scramble_pair:
  assumes "2 * i + 1 < length xacc"
  shows "XXH3_scalarScrambleRound (XXH3_scalarScrambleRound xacc secret (2 * i)) secret (2 * i + 1)
    = pair_update (lane_scramble secret) xacc i"
  using assms by (simp add: XXH3_scalarScrambleRound_def Let_def pair_update_def lane_scramble_def)

lemma mul_high_word: "push_bit 32 (ucast (h * p) :: u64) = push_bit 32 (ucast (h :: u32) * ucast p)"
proof -
  have "ucast (h * p) = take_bit 32 ((ucast h :: u64) * ucast p)"
    by (simp add: word_unat_eq_iff unat_word_ariths unsigned_ucast_eq unsigned_take_bit_eq take_bit_eq_mod mod_mod_cancel)
  then show ?thesis by (simp only:) (rule bit_word_eqI, auto simp: bit_simps)
qed

lemma words_of_inj: "words_of [x] = [a, b] \<Longrightarrow> x = ucast a + push_bit 32 (ucast b)"
  using halves [of x] by (auto simp: words_of_def)

context neon
begin

lemma lanes_vld1q: "lanes_u64 ops (XXH_vld1q_u64 ops (drop (i * 16) p)) = [XXH_readLE64 p (2 * i * 8), XXH_readLE64 p ((2 * i + 1) * 8)]"
  by (simp add: XXH_vld1q_u64_def of_lanes readLE64_drop algebra_simps)

lemma lanes_neon_at: "lanes_u64 ops (neon_at ops xacc i) = [xacc ! (2 * i), xacc ! (2 * i + 1)]"
  by (simp add: neon_at_def of_lanes)

lemma lanes_vmlal:
  assumes "lanes_u64 ops a = [x, y]" "half_u32 ops h = [ucast d0, ucast d1]"
    and "half_u32 ops g = [ucast (drop_bit 32 d0), ucast (drop_bit 32 d1)]"
  shows "lanes_u64 ops (vmlal_u32 ops a h g) = [x + mul_low32 d0 (drop_bit 32 d0), y + mul_low32 d1 (drop_bit 32 d1)]"
  using vmlal [OF assms] by (simp only: mul_low32_def)

lemma lanes_data_key:
  "lanes_u64 ops (veorq_u64 ops (XXH_vld1q_u64 ops (drop (i * 16) input)) (XXH_vld1q_u64 ops (drop (i * 16) secret)))
    = [XXH_readLE64 input (2 * i * 8) XOR XXH_readLE64 secret (2 * i * 8),
       XXH_readLE64 input ((2 * i + 1) * 8) XOR XXH_readLE64 secret ((2 * i + 1) * 8)]"
  by (simp add: veor lanes_vld1q)

text \<open>Adding swapped data and products to a vector of accumulators is one update of a pair.\<close>

lemma put_neon_sum:
  assumes "2 * i + 1 < length xacc"
    and "half_u32 ops h = map ucast (lanes_u64 ops (veorq_u64 ops (XXH_vld1q_u64 ops (drop (i * 16) input)) (XXH_vld1q_u64 ops (drop (i * 16) secret))))"
    and "half_u32 ops g = map (\<lambda>x. ucast (drop_bit 32 x)) (lanes_u64 ops (veorq_u64 ops (XXH_vld1q_u64 ops (drop (i * 16) input)) (XXH_vld1q_u64 ops (drop (i * 16) secret))))"
  shows "put_neon ops xacc i (vaddq_u64 ops (neon_at ops xacc i) (vmlal_u32 ops
      (vextq_u64 ops (XXH_vld1q_u64 ops (drop (i * 16) input)) (XXH_vld1q_u64 ops (drop (i * 16) input)) 1) h g))
    = pair_update (lane_round input secret) xacc i"
proof -
  note sum = lanes_vmlal [OF vext [OF lanes_vld1q lanes_vld1q]
    assms(2) [unfolded lanes_data_key list.map] assms(3) [unfolded lanes_data_key list.map]]
  show ?thesis
    unfolding put_neon_def vadd lanes_neon_at sum
    using assms(1) by (simp add: put_pair [simplified] pair_update_def lane_round_def Let_def xor_Suc_0_eq add.assoc)
qed

lemma neon_round_2_pair:
  "2 * i + 1 < length xacc \<Longrightarrow> neon_round_2 ops input secret xacc i = pair_update (lane_round input secret) xacc i"
  unfolding neon_round_2_def Let_def by (rule put_neon_sum) (simp_all add: vmovn vshrn)

lemma neon_round_4_pairs:
  assumes "2 * i + 3 < length xacc"
  shows "neon_round_4 ops input secret xacc i
    = pair_update (lane_round input secret) (pair_update (lane_round input secret) xacc i) (i + 1)"
proof -
  let ?x = "\<lambda>i. veorq_u64 ops (XXH_vld1q_u64 ops (drop (i * 16) input)) (XXH_vld1q_u64 ops (drop (i * 16) secret))"
  let ?u = "vuzpq_u32 ops (vreinterpretq_u32_u64 ops (?x i)) (vreinterpretq_u32_u64 ops (?x (i + 1)))"
  have w: "lanes_u32 ops (vreinterpretq_u32_u64 ops (?x i)) = words_of (lanes_u64 ops (?x i))" for i by (rule to_u32)
  have u: "lanes_u32 ops (fst ?u) = map ucast (lanes_u64 ops (?x i)) @ map ucast (lanes_u64 ops (?x (i + 1)))
      \<and> lanes_u32 ops (snd ?u) = map (\<lambda>x. ucast (drop_bit 32 x)) (lanes_u64 ops (?x i))
          @ map (\<lambda>x. ucast (drop_bit 32 x)) (lanes_u64 ops (?x (i + 1)))"
    using vuzp [OF w [of i, unfolded lanes_data_key words_of_def list.map concat.simps append.simps]
        w [of "i + 1", unfolded lanes_data_key words_of_def list.map concat.simps append.simps]]
    by (simp only: lanes_data_key list.map append.simps)
  have low: "half_u32 ops (vget_low_u32 ops (fst ?u)) = map ucast (lanes_u64 ops (?x i))"
    "half_u32 ops (vget_low_u32 ops (snd ?u)) = map (\<lambda>x. ucast (drop_bit 32 x)) (lanes_u64 ops (?x i))"
    and high: "half_u32 ops (vget_high_u32 ops (fst ?u)) = map ucast (lanes_u64 ops (?x (i + 1)))"
    "half_u32 ops (vget_high_u32 ops (snd ?u)) = map (\<lambda>x. ucast (drop_bit 32 x)) (lanes_u64 ops (?x (i + 1)))"
    using u by (simp_all add: vget lanes_data_key)
  have "2 * i + 1 < length xacc" using assms by simp
  note first = put_neon_sum [OF this low]
  have "2 * (i + 1) + 1 < length (pair_update (lane_round input secret) xacc i)" using assms by simp
  note second = put_neon_sum [OF this high]
  show ?thesis
    unfolding neon_round_4_def Let_def XXH_vmlal_low_u32_def XXH_vmlal_high_u32_def first second ..
qed

lemma neon_scramble_2_pair:
  assumes "2 * i + 1 < length xacc"
  shows "neon_scramble_2 ops secret xacc i = pair_update (lane_scramble secret) xacc i"
proof -
  let ?a = "neon_at ops xacc i" and ?p = "XXH_PRIME32_1"
  let ?x = "veorq_u64 ops (veorq_u64 ops ?a (vshrq_n_u64 ops ?a 47)) (XXH_vld1q_u64 ops (drop (i * 16) secret))"
  define x where "x k = XXH_xorshift64 (xacc ! k) 47 XOR XXH_readLE64 secret (k * 8)" for k
  have key: "lanes_u64 ops ?x = [x (2 * i), x (2 * i + 1)]"
    by (simp add: veor vshr lanes_neon_at lanes_vld1q x_def XXH_xorshift64_def)
  let ?hi = "vmulq_u32 ops (vreinterpretq_u32_u64 ops ?x)
    (vreinterpretq_u32_u64 ops (vdupq_n_u64 ops (push_bit 32 (ucast ?p))))"
  have prime: "ucast (push_bit 32 (ucast ?p :: u64)) = (0 :: u32)" "ucast (drop_bit 32 (push_bit 32 (ucast ?p :: u64))) = ?p"
    by (simp_all add: XXH_PRIME32_1_def)
  have "lanes_u32 ops ?hi = [0, ucast (drop_bit 32 (x (2 * i))) * ?p, 0, ucast (drop_bit 32 (x (2 * i + 1))) * ?p]"
    by (simp add: vmulq to_u32 key vdupq words_of_def prime)
  then have "words_of (lanes_u64 ops (vreinterpretq_u64_u32 ops ?hi))
      = [0, ucast (drop_bit 32 (x (2 * i))) * ?p, 0, ucast (drop_bit 32 (x (2 * i + 1))) * ?p]"
    by (simp only: to_u64)
  moreover obtain y z where yz: "lanes_u64 ops (vreinterpretq_u64_u32 ops ?hi) = [y, z]" using len by blast
  ultimately have words: "words_of [y] = [0, ucast (drop_bit 32 (x (2 * i))) * ?p]" "words_of [z] = [0, ucast (drop_bit 32 (x (2 * i + 1))) * ?p]"
    by (simp_all add: words_of_def)
  have pp: "(ucast (ucast ?p :: u64) :: u32) = ?p" by (simp add: XXH_PRIME32_1_def)
  have y: "y = push_bit 32 (mul_low32 (drop_bit 32 (x (2 * i))) (ucast ?p))"
    and z: "z = push_bit 32 (mul_low32 (drop_bit 32 (x (2 * i + 1))) (ucast ?p))"
    using words_of_inj [OF words(1)] words_of_inj [OF words(2)] by (simp_all add: mul_high_word mul_low32_def pp)
  have low: "half_u32 ops (vmovn_u64 ops ?x) = [ucast (x (2 * i)), ucast (x (2 * i + 1))]"
    by (simp only: vmovn key list.map)
  have "lanes_u64 ops (vmlal_u32 ops (vreinterpretq_u64_u32 ops ?hi) (vmovn_u64 ops ?x) (vdup_n_u32 ops ?p))
      = [x (2 * i) * ucast ?p, x (2 * i + 1) * ucast ?p]"
    using vmlal [OF yz low vdup, of ?p] mul_low32_high [of "x (2 * i)" "ucast ?p"] mul_low32_high [of "x (2 * i + 1)" "ucast ?p"]
    by (simp add: y z mul_low32_def pp add.commute)
  then show ?thesis
    using assms
    by (simp add: neon_scramble_2_def Let_def put_neon_def put_pair [simplified] pair_update_def lane_scramble_def x_def)
qed

end

lemma length_pair_updates [simp]: "length (foldl (pair_update g) acc is) = length acc"
  by (induction "is" arbitrary: acc) simp_all

lemma foldl_pairs:
  assumes "\<And>a i. length a = 8 \<Longrightarrow> i < 4 \<Longrightarrow> f (f a (2 * i)) (2 * i + 1) = pair_update g a i"
    and "length acc = 8" "p \<le> q" "q \<le> 4"
  shows "foldl f acc [2 * p..<2 * q] = foldl (pair_update g) acc [p..<q]"
  using assms(3,4)
proof (induction rule: dec_induct)
  case (step k)
  then have "[2 * p..<2 * Suc k] = [2 * p..<2 * k] @ [2 * k, 2 * k + 1]" by simp
  moreover have "f (f (foldl (pair_update g) acc [p..<k]) (2 * k)) (2 * k + 1) = foldl (pair_update g) acc [p..<Suc k]"
    using assms(1) [of "foldl (pair_update g) acc [p..<k]" k] assms(2) step by simp
  ultimately show ?case using step by (simp del: upt_Suc)
qed simp

lemma foldl_double_pairs:
  assumes "\<And>a i. length a = 8 \<Longrightarrow> i < 3 \<Longrightarrow> f a i = pair_update g (pair_update g a i) (i + 1)"
    and "length acc = 8" "r \<le> 2"
  shows "foldl (\<lambda>a t. f a (2 * t)) acc [0..<r] = foldl (pair_update g) acc [0..<2 * r]"
  using assms(3)
proof (induction r)
  case (Suc r)
  have "f (foldl (pair_update g) acc [0..<2 * r]) (2 * r) = foldl (pair_update g) acc ([0..<2 * r] @ [2 * r, 2 * r + 1])"
    using assms(1) [of "foldl (pair_update g) acc [0..<2 * r]" "2 * r"] assms(2) Suc.prems by simp
  then show ?case using Suc by simp
qed simp

lemma foldl_single_pairs:
  assumes "\<And>a i. length a = 8 \<Longrightarrow> i < 4 \<Longrightarrow> f a i = pair_update g a i" "length acc = 8" "q \<le> 4"
  shows "foldl f acc [p..<q] = foldl (pair_update g) acc [p..<q]"
proof -
  have "set is \<subseteq> {..<4} \<Longrightarrow> length a = 8 \<Longrightarrow> foldl f a is = foldl (pair_update g) a is" for a "is"
    by (induction "is" arbitrary: a) (simp_all add: assms(1))
  moreover have "set [p..<q] \<subseteq> {..<4}" using assms(3) by auto
  ultimately show ?thesis using assms(2) by blast
qed

text \<open>\<open>XXH3_NEON_LANES\<close> is 2, 4, 6 or 8.\<close>

definition neon_lanes :: "nat \<Rightarrow> bool" where
  "neon_lanes L \<longleftrightarrow> 0 < L \<and> L \<le> 8 \<and> even L"

lemma neon_lanes_cases: "neon_lanes L \<Longrightarrow> L = 2 \<or> L = 4 \<or> L = 6 \<or> L = 8"
  unfolding neon_lanes_def by presburger

lemma neon_accumulate:
  assumes "neon ops" "neon_lanes L" "length acc = 8"
  shows "XXH3_accumulate_512_neon ops L acc input secret = XXH3_accumulate_512 acc input secret"
proof -
  let ?g = "lane_round input secret" and ?p = "L div 2" and ?r = "L div 2 div 2"
  have L: "L = 2 * ?p" "?p \<le> 4" "?r \<le> 2" "2 * ?r \<le> ?p" using assms(2) by (auto simp: neon_lanes_def elim: evenE)
  have scalar: "foldl (\<lambda>a i. XXH3_scalarRound a input secret i) acc [L..<8] = foldl (pair_update ?g) acc [?p..<4]"
    using foldl_pairs [of "\<lambda>a i. XXH3_scalarRound a input secret i" ?g acc ?p 4] scalar_pair assms(3) L(1,2) by simp
  let ?a = "foldl (pair_update ?g) acc [?p..<4]"
  have four: "foldl (\<lambda>a t. neon_round_4 ops input secret a (2 * t)) ?a [0..<?r] = foldl (pair_update ?g) ?a [0..<2 * ?r]"
    using foldl_double_pairs [of "neon_round_4 ops input secret" ?g ?a ?r] neon.neon_round_4_pairs [OF assms(1)] assms(3) L(3) by simp
  let ?b = "foldl (pair_update ?g) ?a [0..<2 * ?r]"
  have two: "foldl (neon_round_2 ops input secret) ?b [2 * ?r..<?p] = foldl (pair_update ?g) ?b [2 * ?r..<?p]"
    using foldl_single_pairs [of "neon_round_2 ops input secret" ?g ?b ?p] neon.neon_round_2_pair [OF assms(1)] assms(3) L(2) by simp
  have "XXH3_accumulate_512_neon ops L acc input secret = foldl (pair_update ?g) acc ([?p..<4] @ [0..<2 * ?r] @ [2 * ?r..<?p])"
    unfolding XXH3_accumulate_512_neon_def Let_def XXH_ACC_NB_def scalar four two by (simp only: foldl_append)
  also have "[0..<2 * ?r] @ [2 * ?r..<?p] = [0..<?p]"
    using L(4) upt_add_eq_append [of 0 "2 * ?r" "?p - 2 * ?r"] by simp
  finally show ?thesis using assms(3)
    by (simp only: pair_updates [OF assms(3) neon_lanes_cases [OF assms(2)]])
      (simp only: accumulate_512_lanes accumulate_lanes_def lane_round_def mul_low32_def XXH_mult32to64_def)
qed

lemma neon_scramble:
  assumes "neon ops" "neon_lanes L" "length acc = 8"
  shows "XXH3_scrambleAcc_neon ops L acc secret = XXH3_scrambleAcc acc secret"
proof -
  let ?g = "lane_scramble secret" and ?p = "L div 2"
  have L: "L = 2 * ?p" "?p \<le> 4" using assms(2) by (auto simp: neon_lanes_def)
  have scalar: "foldl (\<lambda>a i. XXH3_scalarScrambleRound a secret i) acc [L..<8] = foldl (pair_update ?g) acc [?p..<4]"
    using foldl_pairs [of "\<lambda>a i. XXH3_scalarScrambleRound a secret i" ?g acc ?p 4] scalar_scramble_pair assms(3) L by simp
  let ?a = "foldl (pair_update ?g) acc [?p..<4]"
  have two: "foldl (neon_scramble_2 ops secret) ?a [0..<?p] = foldl (pair_update ?g) ?a [0..<?p]"
    using foldl_single_pairs [of "neon_scramble_2 ops secret" ?g ?a ?p] neon.neon_scramble_2_pair [OF assms(1)] assms(3) L(2) by simp
  have "XXH3_scrambleAcc_neon ops L acc secret = foldl (pair_update ?g) acc ([?p..<4] @ [0..<?p])"
    unfolding XXH3_scrambleAcc_neon_def Let_def XXH_ACC_NB_def scalar two by (simp only: foldl_append)
  then show ?thesis using assms(3)
    by (simp only: pair_updates [OF assms(3) neon_lanes_cases [OF assms(2)]] scrambleAcc_lanes lane_scramble_def)
qed

section \<open>AVX-512\<close>

text \<open>A control as the truth table of a function of three bits.\<close>

definition truth_table :: "nat \<Rightarrow> bool \<Rightarrow> bool \<Rightarrow> bool \<Rightarrow> bool" where
  "truth_table imm x y z = bit imm (4 * of_bool x + 2 * of_bool y + of_bool z)"

locale avx512 = simd ops 8 for ops :: "('v, 'z) avx512_ops_scheme" +
  assumes set1_epi8: "lanes ops (set1_epi8 ops w) = replicate 8 (le_dec (replicate 8 w))"
    and mask_sub: "lanes ops (mask_sub_epi64 ops s k a b)
      = map (\<lambda>j. if bit k j then lanes ops a ! j - lanes ops b ! j else lanes ops s ! j) [0..<8]"
    and ternarylogic: "j < 8 \<Longrightarrow> bit (lanes ops (ternarylogic_epi32 ops a b c imm) ! j) n \<longleftrightarrow> n < 64 \<and>
      truth_table imm (bit (lanes ops a ! j) n) (bit (lanes ops b ! j) n) (bit (lanes ops c ! j) n)"
begin

lemma xor_of_three:
  assumes "j < 8"
  shows "lanes ops (ternarylogic_epi32 ops a b c 0x96) ! j = lanes ops a ! j XOR lanes ops b ! j XOR lanes ops c ! j"
proof (rule bit_word_eqI)
  fix n
  assume "n < LENGTH(64)"
  moreover have "truth_table 0x96 x y z = (x \<noteq> (y \<noteq> z))" for x y z
    by (cases x; cases y; cases z) (simp_all add: truth_table_def bit_0)
  ultimately show "bit (lanes ops (ternarylogic_epi32 ops a b c 0x96) ! j) n
      = bit (lanes ops a ! j XOR lanes ops b ! j XOR lanes ops c ! j) n"
    using ternarylogic [OF assms] by (auto simp: bit_simps)
qed

lemma alternating_seed:
  assumes "j < 8"
  shows "lanes ops (mask_sub_epi64 ops (set1_epi64 ops seed) 0xAA (set1_epi8 ops 0) (set1_epi64 ops seed)) ! j
    = (if even j then seed else - seed)"
proof -
  have "le_dec (replicate 8 0) = (0 :: u64)" by (simp add: numeral_eq_Suc)
  then have zero: "lanes ops (set1_epi8 ops 0) ! j = 0" using assms by (simp add: set1_epi8)
  have "\<forall>j \<in> set [0..<8]. bit (0xAA :: nat) j = odd j" unfolding upt_8 by (simp add: bit_0)
  then have "bit (0xAA :: nat) j = odd j" using assms by simp
  then show ?thesis using assms zero by (simp add: mask_sub lane)
qed

end

section \<open>All variants\<close>

lemma sse2_accumulate:
  assumes "simd ops 2" "length acc = 8" "64 \<le> length input" "64 \<le> length secret"
  shows "XXH3_accumulate_512_sse2 ops acc input secret = XXH3_accumulate_512 acc input secret"
  using simd.accumulate_vectors [OF assms(1) _ _ assms(2-4) simd.high_words_shuffle [OF assms(1)], of 4]
  by (simp add: XXH3_accumulate_512_sse2_def XXH_STRIPE_LEN_def)

lemma avx2_accumulate:
  assumes "simd ops 4" "length acc = 8" "64 \<le> length input" "64 \<le> length secret"
  shows "XXH3_accumulate_512_avx2 ops acc input secret = XXH3_accumulate_512 acc input secret"
  using simd.accumulate_vectors [OF assms(1) _ _ assms(2-4) simd.high_words_srli [OF assms(1)], of 2]
  by (simp add: XXH3_accumulate_512_avx2_def XXH_STRIPE_LEN_def)

lemma lsx_accumulate:
  assumes "simd ops 2" "length acc = 8" "64 \<le> length input" "64 \<le> length secret"
  shows "XXH3_accumulate_512_lsx ops acc input secret = XXH3_accumulate_512 acc input secret"
  using simd.accumulate_vectors [OF assms(1) _ _ assms(2-4) simd.high_words_srli [OF assms(1)], of 4]
  by (simp add: XXH3_accumulate_512_lsx_def XXH_STRIPE_LEN_def)

lemma lasx_accumulate:
  assumes "simd ops 4" "length acc = 8" "64 \<le> length input" "64 \<le> length secret"
  shows "XXH3_accumulate_512_lasx ops acc input secret = XXH3_accumulate_512 acc input secret"
  using simd.accumulate_vectors [OF assms(1) _ _ assms(2-4) simd.high_words_srli [OF assms(1)], of 2]
  by (simp add: XXH3_accumulate_512_lasx_def XXH_STRIPE_LEN_def)

lemma avx512_accumulate:
  assumes "avx512 ops" "length acc = 8" "64 \<le> length input" "64 \<le> length secret"
  shows "XXH3_accumulate_512_avx512 ops acc input secret = XXH3_accumulate_512 acc input secret"
  using simd.accumulate_vectors [OF avx512.axioms(1) [OF assms(1)] _ _ assms(2-4)
      simd.high_words_srli [OF avx512.axioms(1) [OF assms(1)]], of 1]
  by (simp add: XXH3_accumulate_512_avx512_def)

text \<open>The multiplication of the key by the prime, on x86 in two halves.\<close>

context simd
begin

lemma scramble_halves:
  assumes "high_words ops m hi" "c * m = 8" "length acc = 8" "64 \<le> length secret"
    and "\<And>xacc i j. length xacc = 8 \<Longrightarrow> i * m + m \<le> 8 \<Longrightarrow> j < m \<Longrightarrow>
      lanes ops (key xacc i) ! j = XXH_xorshift64 (xacc ! (i * m + j)) 47 XOR XXH_readLE64 secret ((i * m + j) * 8)"
  shows "foldl (\<lambda>xacc i. put_vec ops m xacc i (add_epi64 ops (mul_epu32 ops (key xacc i) (set1_epi32 ops XXH_PRIME32_1))
      (slli_epi64 ops (mul_epu32 ops (hi (key xacc i)) (set1_epi32 ops XXH_PRIME32_1)) 32))) acc [0..<c] = XXH3_scrambleAcc acc secret"
  using assms(1) by (intro scramble_vectors assms(2,3)) (simp add: lanes_mul_prime high_words_def assms(5))

lemma scramble_mul_d:
  assumes "c * m = 8" "length acc = 8" "64 \<le> length secret"
  shows "foldl (\<lambda>xacc i. put_vec ops m xacc i (mul_d ops
      (xor_si ops (xor_si ops (vec_at ops m xacc i) (srli_epi64 ops (vec_at ops m xacc i) 47)) (loadu_si ops (drop (8 * m * i) secret)))
      (set1_epi64 ops (ucast XXH_PRIME32_1)))) acc [0..<c] = XXH3_scrambleAcc acc secret"
  using assms(3) by (intro scramble_vectors assms(1,2)) (simp add: lane(6,8) lanes_scramble_key)

end

lemma sse2_scramble:
  assumes "simd ops 2" "length acc = 8" "64 \<le> length secret"
  shows "XXH3_scrambleAcc_sse2 ops acc secret = XXH3_scrambleAcc acc secret"
  using simd.scramble_halves [OF assms(1) simd.high_words_shuffle [OF assms(1)] _ assms(2,3) simd.lanes_scramble_key [OF assms(1)], of 4] assms(3)
  by (simp add: XXH3_scrambleAcc_sse2_def XXH_STRIPE_LEN_def Let_def)

lemma avx2_scramble:
  assumes "simd ops 4" "length acc = 8" "64 \<le> length secret"
  shows "XXH3_scrambleAcc_avx2 ops acc secret = XXH3_scrambleAcc acc secret"
  using simd.scramble_halves [OF assms(1) simd.high_words_srli [OF assms(1)] _ assms(2,3) simd.lanes_scramble_key [OF assms(1)], of 2] assms(3)
  by (simp add: XXH3_scrambleAcc_avx2_def XXH_STRIPE_LEN_def Let_def)

lemma lsx_scramble:
  assumes "simd ops 2" "length acc = 8" "64 \<le> length secret"
  shows "XXH3_scrambleAcc_lsx ops acc secret = XXH3_scrambleAcc acc secret"
  using simd.scramble_mul_d [OF assms(1) _ assms(2,3), of 4]
  by (simp add: XXH3_scrambleAcc_lsx_def XXH_STRIPE_LEN_def Let_def)

lemma lasx_scramble:
  assumes "simd ops 4" "length acc = 8" "64 \<le> length secret"
  shows "XXH3_scrambleAcc_lasx ops acc secret = XXH3_scrambleAcc acc secret"
  using simd.scramble_mul_d [OF assms(1) _ assms(2,3), of 2]
  by (simp add: XXH3_scrambleAcc_lasx_def XXH_STRIPE_LEN_def Let_def)

lemma avx512_scramble:
  assumes "avx512 ops" "length acc = 8" "64 \<le> length secret"
  shows "XXH3_scrambleAcc_avx512 ops acc secret = XXH3_scrambleAcc acc secret"
proof -
  note simd8 = avx512.axioms(1) [OF assms(1)]
  let ?key = "\<lambda>xacc i. ternarylogic_epi32 ops (loadu_si ops (drop (64 * i) secret)) (vec_at ops 8 xacc i)
    (srli_epi64 ops (vec_at ops 8 xacc i) 47) 0x96"
  have "lanes ops (?key xacc i) ! j = XXH_xorshift64 (xacc ! (i * 8 + j)) 47 XOR XXH_readLE64 secret ((i * 8 + j) * 8)"
    if "length xacc = 8" "i * 8 + 8 \<le> 8" "j < 8" for xacc i j
    using that assms(3) simd.lanes_load_at [OF simd8 that(2,3) assms(3)]
    by (simp add: avx512.xor_of_three [OF assms(1)] simd.lane [OF simd8] simd.lanes_vec_at [OF simd8] XXH_xorshift64_def
        xor.commute xor.left_commute)
  from simd.scramble_halves [OF simd8 simd.high_words_srli [OF simd8] _ assms(2,3) this, of 1]
  show ?thesis by (simp add: XXH3_scrambleAcc_avx512_def Let_def)
qed

lemma sse2_secret:
  assumes "simd ops 2"
  shows "XXH3_initCustomSecret_sse2 ops seed = XXH3_initCustomSecret seed"
proof -
  have "lanes ops (set_epi64x ops [0 - seed, seed]) ! j = (if even j then seed else - seed)" if "j < 2" for j
    using that simd.set_epi64x [OF assms, of "[0 - seed, seed]"] by (auto simp: less_Suc_eq numeral_eq_Suc)
  note block = simd.vec_secret [OF assms _ _ this]
  have "XXH3_initCustomSecret_sse2 ops seed
      = concat (map (\<lambda>i. concat (map (\<lambda>j. le_enc 8 (secret_lane seed (i * 2 + j))) [0..<2])) [0..<12])"
    unfolding XXH3_initCustomSecret_sse2_def Let_def XXH_SECRET_DEFAULT_SIZE_def
    using block by (intro arg_cong [of _ _ concat] map_cong) simp_all
  then show ?thesis using concat_blocks [of "\<lambda>k. le_enc 8 (secret_lane seed k)" 2 12] by (simp add: initCustomSecret_lanes)
qed

lemma avx2_secret:
  assumes "simd ops 4"
  shows "XXH3_initCustomSecret_avx2 ops seed = XXH3_initCustomSecret seed"
proof -
  have "lanes ops (set_epi64x ops [0 - seed, seed, 0 - seed, seed]) ! j = (if even j then seed else - seed)" if "j < 4" for j
  proof -
    have "j = 0 \<or> j = 1 \<or> j = 2 \<or> j = 3" using that by presburger
    then show ?thesis using simd.set_epi64x [OF assms, of "[0 - seed, seed, 0 - seed, seed]"] by (elim disjE) simp_all
  qed
  note block = simd.vec_secret [OF assms _ _ this]
  have "XXH3_initCustomSecret_avx2 ops seed = concat (map (\<lambda>i. vec_bytes ops (add_epi64 ops
      (load_si ops (drop (32 * i) XXH3_kSecret)) (set_epi64x ops [0 - seed, seed, 0 - seed, seed]))) [0..<6])"
    by (simp add: XXH3_initCustomSecret_avx2_def Let_def upt_rec)
  also have "\<dots> = concat (map (\<lambda>i. concat (map (\<lambda>j. le_enc 8 (secret_lane seed (i * 4 + j))) [0..<4])) [0..<6])"
    using block by (intro arg_cong [of _ _ concat] map_cong) simp_all
  finally show ?thesis using concat_blocks [of "\<lambda>k. le_enc 8 (secret_lane seed k)" 4 6] by (simp add: initCustomSecret_lanes)
qed

lemma avx512_secret:
  assumes "avx512 ops"
  shows "XXH3_initCustomSecret_avx512 ops seed = XXH3_initCustomSecret seed"
proof -
  note block = simd.vec_secret [OF avx512.axioms(1) [OF assms] _ _ avx512.alternating_seed [OF assms]]
  have "XXH3_initCustomSecret_avx512 ops seed
      = concat (map (\<lambda>i. concat (map (\<lambda>j. le_enc 8 (secret_lane seed (i * 8 + j))) [0..<8])) [0..<3])"
    unfolding XXH3_initCustomSecret_avx512_def Let_def XXH_SECRET_DEFAULT_SIZE_def
    using block by (intro arg_cong [of _ _ concat] map_cong) simp_all
  then show ?thesis using concat_blocks [of "\<lambda>k. le_enc 8 (secret_lane seed k)" 8 3] by (simp add: initCustomSecret_lanes)
qed

lemma accumulate_template:
  assumes "\<And>acc input secret. length acc = 8 \<Longrightarrow> 64 \<le> length input \<Longrightarrow> 64 \<le> length secret \<Longrightarrow>
      f acc input secret = XXH3_accumulate_512 acc input secret"
    and "length acc = 8" "64 * n \<le> length input" "8 * n + 56 \<le> length secret"
  shows "XXH3_ACCUMULATE_TEMPLATE f acc input secret n = XXH3_accumulate acc input secret n"
  using assms(3,4)
proof (induction n)
  case (Suc n)
  have len: "length (foldl (\<lambda>a k. XXH3_accumulate_512 a (drop (k * 64) input) (drop (k * 8) secret)) acc [0..<n]) = 8" for n
    using assms(2) by (induction n) simp_all
  have "f a (drop (n * 64) input) (drop (n * 8) secret) = XXH3_accumulate_512 a (drop (n * 64) input) (drop (n * 8) secret)"
    if "length a = 8" for a
    using assms(1) [OF that] Suc.prems by simp
  then show ?case using Suc len by (simp add: XXH3_ACCUMULATE_TEMPLATE_def XXH3_accumulate_def xxh_sizes)
qed (simp add: XXH3_ACCUMULATE_TEMPLATE_def XXH3_accumulate_def)

section \<open>Machines with these instructions\<close>

text \<open>The laws hold of lists of lanes, filled up with zeros, and of tuples.\<close>

definition pad :: "nat \<Rightarrow> u64 list \<Rightarrow> u64 list" where
  "pad m xs = take m (xs @ replicate m 0)"

definition list_simd :: "nat \<Rightarrow> u64 list simd_ops" where
  "list_simd m = \<lparr>lanes = pad m, of_lanes = (\<lambda>xs. xs),
     loadu_si = (\<lambda>p. map (\<lambda>j. XXH_readLE64 p (8 * j)) [0..<m]), load_si = (\<lambda>p. map (\<lambda>j. XXH_readLE64 p (8 * j)) [0..<m]),
     xor_si = (\<lambda>a b. map2 (XOR) (pad m a) (pad m b)), srli_epi64 = (\<lambda>a k. map (drop_bit k) (pad m a)),
     slli_epi64 = (\<lambda>a k. map (push_bit k) (pad m a)), add_epi64 = (\<lambda>a b. map2 (+) (pad m a) (pad m b)),
     mul_epu32 = (\<lambda>a b. map2 mul_low32 (pad m a) (pad m b)), mul_d = (\<lambda>a b. map2 (*) (pad m a) (pad m b)),
     shuffle_epi32 = (\<lambda>a imm. shuffle_lanes (pad m a) imm), set1_epi32 = (\<lambda>w. replicate m (ucast w + push_bit 32 (ucast w))),
     set1_epi64 = replicate m, set_epi64x = rev\<rparr>"

definition list_avx512 :: "u64 list avx512_ops" where
  "list_avx512 = simd_ops.extend (list_simd 8) (avx512_ops.fields (\<lambda>w. replicate 8 (le_dec (replicate 8 w)))
     (\<lambda>s k a b. map (\<lambda>j. if bit k j then pad 8 a ! j - pad 8 b ! j else pad 8 s ! j) [0..<8])
     (\<lambda>a b c imm. map (\<lambda>j. horner_sum of_bool 2 (map (\<lambda>n. truth_table imm (bit (pad 8 a ! j) n) (bit (pad 8 b ! j) n) (bit (pad 8 c ! j) n)) [0..<64])) [0..<8]))"

lemma length_pad [simp]: "length (pad m xs) = m"
  by (simp add: pad_def)

lemma pad_id [simp]: "length xs = m \<Longrightarrow> pad m xs = xs"
  by (simp add: pad_def)

lemma length_shuffle_lanes [simp]: "length (shuffle_lanes xs imm) = length xs"
  by (simp add: shuffle_lanes_def Let_def)

lemma list_simd_laws: "simd (list_simd m) m"
  by unfold_locales (simp_all add: list_simd_def)

interpretation list_2: simd "list_simd 2" 2 by (rule list_simd_laws)

interpretation list_4: simd "list_simd 4" 4 by (rule list_simd_laws)

interpretation list_8: avx512 list_avx512
  by unfold_locales (simp_all add: list_avx512_def list_simd_def simd_ops.defs avx512_ops.defs bit_horner_sum_bit_word_iff cong: conj_cong)

definition tuple_neon :: "(u64 \<times> u64, u32 \<times> u32 \<times> u32 \<times> u32, u32 \<times> u32) neon_ops" where
  "tuple_neon = \<lparr>lanes_u64 = (\<lambda>(x, y). [x, y]), of_lanes_u64 = (\<lambda>xs. (xs ! 0, xs ! 1)),
     lanes_u32 = (\<lambda>(a, b, c, d). [a, b, c, d]), half_u32 = (\<lambda>(a, b). [a, b]),
     vextq_u64 = (\<lambda>(x, y) (z, t) n. if n = 0 then (x, y) else (y, z)),
     veorq_u64 = (\<lambda>(x, y) (z, t). (x XOR z, y XOR t)), vaddq_u64 = (\<lambda>(x, y) (z, t). (x + z, y + t)),
     vshrq_n_u64 = (\<lambda>(x, y) k. (drop_bit k x, drop_bit k y)), vdupq_n_u64 = (\<lambda>x. (x, x)),
     vreinterpretq_u32_u64 = (\<lambda>(x, y). (ucast x, ucast (drop_bit 32 x), ucast y, ucast (drop_bit 32 y))),
     vreinterpretq_u64_u32 = (\<lambda>(a, b, c, d). (ucast a + push_bit 32 (ucast b), ucast c + push_bit 32 (ucast d))),
     vuzpq_u32 = (\<lambda>(a, b, c, d) (e, f, g, h). ((a, c, e, g), (b, d, f, h))),
     vmulq_u32 = (\<lambda>(a, b, c, d) (e, f, g, h). (a * e, b * f, c * g, d * h)),
     vget_low_u32 = (\<lambda>(a, b, c, d). (a, b)), vget_high_u32 = (\<lambda>(a, b, c, d). (c, d)),
     vdup_n_u32 = (\<lambda>w. (w, w)), vmovn_u64 = (\<lambda>(x, y). (ucast x, ucast y)),
     vshrn_n_u64 = (\<lambda>(x, y) k. (ucast (drop_bit k x), ucast (drop_bit k y))),
     vmlal_u32 = (\<lambda>(x, y) (a, b) (c, d). (x + ucast a * ucast c, y + ucast b * ucast d))\<rparr>"

interpretation tuple: neon tuple_neon
  by unfold_locales (auto simp: tuple_neon_def words_of_def low_word high_word)

text \<open>C25: whichever of the instruction sets a build of \<open>xxhash.h\<close> uses, its accumulation of any number
  of stripes (of one, \<open>XXH3_accumulate_512\<close>), its scrambling of the accumulators and its secret of
  a seed are those of the scalar code, and so then are the hashes. The hypotheses are that
  the instructions do what their manuals say, that there are eight accumulators, and that the
  input and the secret are as long as the code reads; the number of NEON lanes is 2, 4, 6 or 8.\<close>

theorem vector_code_is_scalar:
  assumes "simd sse2 2" "simd avx2 4" "avx512 avx" "simd lsx 2" "simd lasx 4" "neon arm" "neon_lanes L"
    and "length acc = 8" "64 * n \<le> length input" "8 * n + 56 \<le> length secret" "64 \<le> length secret"
  shows "(\<forall>f \<in> {XXH3_accumulate_512_sse2 sse2, XXH3_accumulate_512_avx2 avx2, XXH3_accumulate_512_avx512 avx,
        XXH3_accumulate_512_lsx lsx, XXH3_accumulate_512_lasx lasx, XXH3_accumulate_512_neon arm L}.
      XXH3_ACCUMULATE_TEMPLATE f acc input secret n = XXH3_accumulate acc input secret n)
    \<and> (\<forall>f \<in> {XXH3_scrambleAcc_sse2 sse2, XXH3_scrambleAcc_avx2 avx2, XXH3_scrambleAcc_avx512 avx,
        XXH3_scrambleAcc_lsx lsx, XXH3_scrambleAcc_lasx lasx, XXH3_scrambleAcc_neon arm L}.
      f acc secret = XXH3_scrambleAcc acc secret)
    \<and> (\<forall>f \<in> {XXH3_initCustomSecret_sse2 sse2, XXH3_initCustomSecret_avx2 avx2, XXH3_initCustomSecret_avx512 avx}.
      f seed = XXH3_initCustomSecret seed)"
proof (intro conjI ballI)
  note acc512 = sse2_accumulate [OF assms(1)] avx2_accumulate [OF assms(2)] avx512_accumulate [OF assms(3)]
    lsx_accumulate [OF assms(4)] lasx_accumulate [OF assms(5)] neon_accumulate [OF assms(6,7)]
  show "XXH3_ACCUMULATE_TEMPLATE f acc input secret n = XXH3_accumulate acc input secret n"
    if "f \<in> {XXH3_accumulate_512_sse2 sse2, XXH3_accumulate_512_avx2 avx2, XXH3_accumulate_512_avx512 avx,
      XXH3_accumulate_512_lsx lsx, XXH3_accumulate_512_lasx lasx, XXH3_accumulate_512_neon arm L}" for f
    using that by (intro accumulate_template assms(8-10)) (auto simp: acc512)
  show "f acc secret = XXH3_scrambleAcc acc secret"
    if "f \<in> {XXH3_scrambleAcc_sse2 sse2, XXH3_scrambleAcc_avx2 avx2, XXH3_scrambleAcc_avx512 avx,
      XXH3_scrambleAcc_lsx lsx, XXH3_scrambleAcc_lasx lasx, XXH3_scrambleAcc_neon arm L}" for f
    using that assms(8,11)
    by (auto simp: sse2_scramble [OF assms(1)] avx2_scramble [OF assms(2)] avx512_scramble [OF assms(3)]
        lsx_scramble [OF assms(4)] lasx_scramble [OF assms(5)] neon_scramble [OF assms(6,7)])
  show "f seed = XXH3_initCustomSecret seed"
    if "f \<in> {XXH3_initCustomSecret_sse2 sse2, XXH3_initCustomSecret_avx2 avx2, XXH3_initCustomSecret_avx512 avx}" for f
    using that by (auto simp: sse2_secret [OF assms(1)] avx2_secret [OF assms(2)] avx512_secret [OF assms(3)])
qed

text \<open>Two stripes on the machines above, with six NEON lanes.\<close>

theorem vector_code_is_scalar_witness:
  "XXH3_ACCUMULATE_TEMPLATE (XXH3_accumulate_512_sse2 (list_simd 2)) XXH3_INIT_ACC (replicate 128 7) XXH3_kSecret 2
      = XXH3_accumulate XXH3_INIT_ACC (replicate 128 7) XXH3_kSecret 2
    \<and> XXH3_scrambleAcc_neon tuple_neon 6 XXH3_INIT_ACC XXH3_kSecret = XXH3_scrambleAcc XXH3_INIT_ACC XXH3_kSecret"
  using vector_code_is_scalar [OF list_simd_laws list_simd_laws list_8.avx512_axioms list_simd_laws list_simd_laws
      tuple.neon_axioms, of 6 XXH3_INIT_ACC 2 "replicate 128 7" XXH3_kSecret]
  by (simp add: neon_lanes_def XXH3_INIT_ACC_def XXH3_kSecret_def)

end
