(* ===== verification/XXH3_Scalable.thy ===== *)
theory XXH3_Scalable
  imports XXH3_Vector XXH_Canonical
begin

text \<open>
  \<open>include/xxhash.h\<close>: the vector code of XXH3 for VSX (POWER and s390x, both byte orders) and for
  SVE, whose vectors have a length known only at run time. As in \<open>XXH3_Vector\<close> the intrinsics are
  a parameter and the locales \<open>vsx\<close> and \<open>sve\<close> state what their manuals promise. The theorem
  says that both compute what the scalar code computes.
\<close>

section \<open>VSX\<close>

text \<open>The operators on vectors are \<open>vec_xor\<close> (\<open>^\<close>), \<open>vec_add\<close> (\<open>+\<close>), \<open>vec_sl\<close> and
  \<open>vec_sr\<close> (\<open><<\<close>, \<open>>>\<close>). \<open>vec_memcpy\<close> fills a vector from memory, \<open>vec_of_u32\<close> is a
  constant of four words, \<open>vec_xxpermdi\<close> is \<open>vec_permi\<close> on s390x; \<open>vsx_be\<close> is
  \<open>XXH_VSX_BE\<close>, and \<open>has_revb\<close> tells whether the target has \<open>vec_revb\<close>. Casts between vector
  types leave the bits alone.\<close>

record 'v vsx_ops =
  vsx_be :: bool
  has_revb :: bool
  vsx_lanes :: "'v \<Rightarrow> u64 list"
  vsx_of_lanes :: "u64 list \<Rightarrow> 'v"
  vec_of_u32 :: "u32 list \<Rightarrow> 'v"
  vec_memcpy :: "bytes \<Rightarrow> 'v"
  vec_revb :: "'v \<Rightarrow> 'v"
  vec_perm :: "'v \<Rightarrow> 'v \<Rightarrow> bytes \<Rightarrow> 'v"
  vec_xor :: "'v \<Rightarrow> 'v \<Rightarrow> 'v"
  vec_add :: "'v \<Rightarrow> 'v \<Rightarrow> 'v"
  vec_rl :: "'v \<Rightarrow> 'v \<Rightarrow> 'v"
  vec_sr :: "'v \<Rightarrow> 'v \<Rightarrow> 'v"
  vec_sl :: "'v \<Rightarrow> 'v \<Rightarrow> 'v"
  XXH_vec_mulo :: "'v \<Rightarrow> 'v \<Rightarrow> 'v"
  XXH_vec_mule :: "'v \<Rightarrow> 'v \<Rightarrow> 'v"
  vec_xxpermdi :: "'v \<Rightarrow> 'v \<Rightarrow> nat \<Rightarrow> 'v"

text \<open>The bytes of a vector on a big-endian machine.\<close>

definition vsx_bytes :: "'v vsx_ops \<Rightarrow> 'v \<Rightarrow> bytes" where
  "vsx_bytes ops v = concat (map (\<lambda>x. rev (le_enc 8 x)) (vsx_lanes ops v))"

text \<open>\<open>vmulouw\<close> multiplies the odd words of big-endian numbering, the low words of the lanes.\<close>

locale vsx =
  fixes ops :: "'v vsx_ops"
  assumes len: "\<exists>x y. vsx_lanes ops v = [x, y]"
    and of_lanes: "vsx_lanes ops (vsx_of_lanes ops [x, y]) = [x, y]"
    and of_u32: "vsx_lanes ops (vec_of_u32 ops [w, w, w, w]) = [ucast w + push_bit 32 (ucast w), ucast w + push_bit 32 (ucast w)]"
    and memcpy: "16 \<le> length p \<Longrightarrow> vsx_lanes ops (vec_memcpy ops p)
      = map (if vsx_be ops then XXH_swap64 else (\<lambda>x. x)) [XXH_readLE64 p 0, XXH_readLE64 p 8]"
    and revb: "vsx_lanes ops (vec_revb ops a) = map XXH_swap64 (vsx_lanes ops a)"
    and perm: "vsx_be ops \<Longrightarrow> length c = 16 \<Longrightarrow> vsx_bytes ops (vec_perm ops a b c)
      = map (\<lambda>i. (vsx_bytes ops a @ vsx_bytes ops b) ! (unat i mod 32)) c"
    and veor: "vsx_lanes ops (vec_xor ops a b) = map2 (XOR) (vsx_lanes ops a) (vsx_lanes ops b)"
    and vadd: "vsx_lanes ops (vec_add ops a b) = map2 (+) (vsx_lanes ops a) (vsx_lanes ops b)"
    and rl: "vsx_lanes ops (vec_rl ops a b) = map2 (\<lambda>x k. word_rotl (unat k mod 64) x) (vsx_lanes ops a) (vsx_lanes ops b)"
    and sr: "vsx_lanes ops (vec_sr ops a b) = map2 (\<lambda>x k. drop_bit (unat k mod 64) x) (vsx_lanes ops a) (vsx_lanes ops b)"
    and sl: "vsx_lanes ops (vec_sl ops a b) = map2 (\<lambda>x k. push_bit (unat k mod 64) x) (vsx_lanes ops a) (vsx_lanes ops b)"
    and mulo: "vsx_lanes ops (XXH_vec_mulo ops a b) = map2 mul_low32 (vsx_lanes ops a) (vsx_lanes ops b)"
    and mule: "vsx_lanes ops (XXH_vec_mule ops a b)
      = map2 (\<lambda>x y. mul_low32 (drop_bit 32 x) (drop_bit 32 y)) (vsx_lanes ops a) (vsx_lanes ops b)"
    and xxpermdi: "vsx_lanes ops (vec_xxpermdi ops a a 2) = rev (vsx_lanes ops a)"

text \<open>The replacement of \<open>vec_revb\<close> is a permutation of the bytes.\<close>

definition XXH_vec_revb :: "'v vsx_ops \<Rightarrow> 'v \<Rightarrow> 'v" where
  "XXH_vec_revb ops val =
     (if has_revb ops then vec_revb ops val
      else vec_perm ops val val [0x07, 0x06, 0x05, 0x04, 0x03, 0x02, 0x01, 0x00,
                                 0x0F, 0x0E, 0x0D, 0x0C, 0x0B, 0x0A, 0x09, 0x08])"

definition XXH_vec_loadu :: "'v vsx_ops \<Rightarrow> bytes \<Rightarrow> 'v" where
  "XXH_vec_loadu ops ptr =
     (let ret = vec_memcpy ops ptr in if vsx_be ops then XXH_vec_revb ops ret else ret)"

definition vsx_at :: "'v vsx_ops \<Rightarrow> u64 list \<Rightarrow> nat \<Rightarrow> 'v" where
  "vsx_at ops xacc i = vsx_of_lanes ops [xacc ! (2 * i), xacc ! (2 * i + 1)]"

definition put_vsx :: "'v vsx_ops \<Rightarrow> u64 list \<Rightarrow> nat \<Rightarrow> 'v \<Rightarrow> u64 list" where
  "put_vsx ops xacc i v = take (2 * i) xacc @ vsx_lanes ops v @ drop (2 * i + 2) xacc"

definition XXH3_accumulate_512_vsx :: "'v vsx_ops \<Rightarrow> u64 list \<Rightarrow> bytes \<Rightarrow> bytes \<Rightarrow> u64 list" where
  "XXH3_accumulate_512_vsx ops acc input secret =
     (let v32 = vsx_of_lanes ops [32, 32]
      in foldl (\<lambda>xacc i.
           let data_vec = XXH_vec_loadu ops (drop (16 * i) input);
               key_vec = XXH_vec_loadu ops (drop (16 * i) secret);
               data_key = vec_xor ops data_vec key_vec;
               shuffled = vec_rl ops data_key v32;
               product = XXH_vec_mulo ops data_key shuffled;
               acc_vec = vec_add ops (vsx_at ops xacc i) product
           in put_vsx ops xacc i (vec_add ops acc_vec (vec_xxpermdi ops data_vec data_vec 2))) acc [0..<XXH_STRIPE_LEN div 16])"

definition XXH3_scrambleAcc_vsx :: "'v vsx_ops \<Rightarrow> scramble_fn" where
  "XXH3_scrambleAcc_vsx ops acc secret =
     (let v32 = vsx_of_lanes ops [32, 32];
          v47 = vsx_of_lanes ops [47, 47];
          prime = vec_of_u32 ops [XXH_PRIME32_1, XXH_PRIME32_1, XXH_PRIME32_1, XXH_PRIME32_1]
      in foldl (\<lambda>xacc i.
           let acc_vec = vsx_at ops xacc i;
               data_vec = vec_xor ops acc_vec (vec_sr ops acc_vec v47);
               key_vec = XXH_vec_loadu ops (drop (16 * i) secret);
               data_key = vec_xor ops data_vec key_vec;
               prod_even = XXH_vec_mule ops data_key prime;
               prod_odd = XXH_vec_mulo ops data_key prime
           in put_vsx ops xacc i (vec_add ops prod_odd (vec_sl ops prod_even v32))) acc [0..<XXH_STRIPE_LEN div 16])"

section \<open>The scalar code lane by lane\<close>

lemma accumulate_512_rounds:
  assumes "length acc = 8"
  shows "XXH3_accumulate_512 acc input secret = map (\<lambda>k. lane_round input secret (acc ! k) k) [0..<8]"
  using assms
  by (simp only: accumulate_512_lanes accumulate_lanes_def lane_round_def mul_low32_def XXH_mult32to64_def)

lemma pair_loop:
  assumes "length acc = 8" "\<And>a i. length a = 8 \<Longrightarrow> i < 4 \<Longrightarrow> f a i = pair_update g a i"
  shows "foldl f acc [0..<4] = map (\<lambda>k. g (acc ! k) k) [0..<8]"
proof -
  have "foldl f acc [0..<4] = foldl (pair_update g) acc [0..<4]"
    using assms by (simp add: small_upts)
  then show ?thesis using pair_updates [OF assms(1), of 8 g] by simp
qed

lemma mul_rotl: "mul_low32 x (word_rotl 32 x) = mul_low32 x (drop_bit 32 x)"
proof -
  have "ucast (word_rotl 32 x) = (ucast (drop_bit 32 x) :: u32)"
    by (rule bit_word_eqI) (simp add: bit_simps bit_word_rotl_iff add.commute)
  then show ?thesis by (simp only: mul_low32_def)
qed

lemma swap64_encoding:
  assumes "le_enc 8 x = rev (le_enc 8 y)"
  shows "y = XXH_swap64 x"
proof -
  have "le_enc 8 (XXH_swap64 y) = le_enc 8 x" using assms by (simp add: le_enc_swap64)
  then have "XXH_swap64 y = x" by (rule le_enc_inj [rotated]) simp
  then show ?thesis by auto
qed

context vsx
begin

lemma revb_polyfill: "vsx_be ops \<Longrightarrow> vsx_lanes ops (XXH_vec_revb ops v) = map XXH_swap64 (vsx_lanes ops v)"
proof (cases "has_revb ops")
  case True
  then show ?thesis by (simp add: XXH_vec_revb_def revb)
next
  case False
  assume be: "vsx_be ops"
  obtain x y where v: "vsx_lanes ops v = [x, y]" using len by blast
  obtain r s where r: "vsx_lanes ops (XXH_vec_revb ops v) = [r, s]" using len by blast
  have "vsx_bytes ops (XXH_vec_revb ops v) = le_enc 8 x @ le_enc 8 y"
    using False be perm by (simp add: XXH_vec_revb_def vsx_bytes_def v le_enc_8)
  then have "rev (le_enc 8 r) @ rev (le_enc 8 s) = le_enc 8 x @ le_enc 8 y"
    by (simp add: vsx_bytes_def r)
  then have "le_enc 8 x = rev (le_enc 8 r)" "le_enc 8 y = rev (le_enc 8 s)"
    by simp_all
  then show ?thesis using v r by (simp add: swap64_encoding)
qed

lemma lanes_loadu:
  assumes "16 * i + 16 \<le> length p"
  shows "vsx_lanes ops (XXH_vec_loadu ops (drop (16 * i) p)) = [XXH_readLE64 p (2 * i * 8), XXH_readLE64 p ((2 * i + 1) * 8)]"
  using assms by (simp add: XXH_vec_loadu_def Let_def revb_polyfill memcpy readLE64_drop algebra_simps)

lemma lanes_vsx_at: "vsx_lanes ops (vsx_at ops xacc i) = [xacc ! (2 * i), xacc ! (2 * i + 1)]"
  by (simp add: vsx_at_def of_lanes)

lemma shift_counts: "unat (32 :: u64) = 32" "unat (47 :: u64) = 47"
  by (simp_all add: unat_numeral take_bit_nat_def)

lemma shift_lanes:
  "vsx_lanes ops (vec_rl ops a (vsx_of_lanes ops [32, 32])) = map (word_rotl 32) (vsx_lanes ops a)"
  "vsx_lanes ops (vec_sr ops a (vsx_of_lanes ops [47, 47])) = map (drop_bit 47) (vsx_lanes ops a)"
  "vsx_lanes ops (vec_sl ops a (vsx_of_lanes ops [32, 32])) = map (push_bit 32) (vsx_lanes ops a)"
  using len [of a] by (auto simp only: rl sr sl of_lanes shift_counts) simp_all

lemma vsx_accumulate:
  assumes "length acc = 8" "64 \<le> length input" "64 \<le> length secret"
  shows "XXH3_accumulate_512_vsx ops acc input secret = XXH3_accumulate_512 acc input secret"
proof -
  let ?f = "\<lambda>xacc i. put_vsx ops xacc i (vec_add ops (vec_add ops (vsx_at ops xacc i) (XXH_vec_mulo ops
      (vec_xor ops (XXH_vec_loadu ops (drop (16 * i) input)) (XXH_vec_loadu ops (drop (16 * i) secret)))
      (vec_rl ops (vec_xor ops (XXH_vec_loadu ops (drop (16 * i) input)) (XXH_vec_loadu ops (drop (16 * i) secret)))
        (vsx_of_lanes ops [32, 32]))))
    (vec_xxpermdi ops (XXH_vec_loadu ops (drop (16 * i) input)) (XXH_vec_loadu ops (drop (16 * i) input)) 2))"
  have "?f a i = pair_update (lane_round input secret) a i" if "length a = 8" "i < 4" for a i
    using that assms(2,3)
    by (simp add: put_vsx_def vadd veor mulo shift_lanes xxpermdi lanes_loadu lanes_vsx_at of_lanes put_pair [simplified]
        pair_update_def lane_round_def Let_def xor_Suc_0_eq mul_rotl add.assoc add.commute add.left_commute)
  from pair_loop [OF assms(1) this] show ?thesis
    by (simp add: accumulate_512_rounds [OF assms(1)] XXH3_accumulate_512_vsx_def Let_def XXH_STRIPE_LEN_def)
qed

lemma vsx_scramble:
  assumes "length acc = 8" "64 \<le> length secret"
  shows "XXH3_scrambleAcc_vsx ops acc secret = XXH3_scrambleAcc acc secret"
proof -
  let ?p = "vec_of_u32 ops [XXH_PRIME32_1, XXH_PRIME32_1, XXH_PRIME32_1, XXH_PRIME32_1]"
  let ?k = "\<lambda>xacc i. vec_xor ops (vec_xor ops (vsx_at ops xacc i) (vec_sr ops (vsx_at ops xacc i) (vsx_of_lanes ops [47, 47])))
    (XXH_vec_loadu ops (drop (16 * i) secret))"
  let ?f = "\<lambda>xacc i. put_vsx ops xacc i (vec_add ops (XXH_vec_mulo ops (?k xacc i) ?p)
    (vec_sl ops (XXH_vec_mule ops (?k xacc i) ?p) (vsx_of_lanes ops [32, 32])))"
  have p: "mul_low32 x (ucast p + push_bit 32 (ucast p)) + push_bit 32 (mul_low32 (drop_bit 32 x) (drop_bit 32 (ucast p + push_bit 32 (ucast p))))
      = x * ucast p" for x and p :: u32
    using mul_low32_high [of x "ucast p + push_bit 32 (ucast p)"] by (simp add: mul_low32_def low_word high_word)
  have "?f a i = pair_update (lane_scramble secret) a i" if "length a = 8" "i < 4" for a i
    using that assms(2)
    by (simp add: put_vsx_def vadd veor mulo mule shift_lanes lanes_loadu lanes_vsx_at of_lanes of_u32 put_pair [simplified]
        pair_update_def lane_scramble_def XXH_xorshift64_def p del: drop_bit_xor)
  from pair_loop [OF assms(1) this] show ?thesis
    by (simp add: scrambleAcc_lanes [OF assms(1)] lane_scramble_def XXH3_scrambleAcc_vsx_def Let_def XXH_STRIPE_LEN_def)
qed

end

section \<open>SVE\<close>

text \<open>A vector has \<open>svcntd\<close> lanes. A predicate makes lanes active; the results of the operations
  that end in \<open>_x\<close> are not specified in the other lanes. \<open>svptrue_vl k\<close> is \<open>svptrue_pat_b64\<close>
  with the pattern \<open>SV_VLk\<close>. Memory is read in words of 64 bits. The prefetch instructions have no
  effect.\<close>

record ('v, 'p) sve_ops =
  sv_lanes :: "'v \<Rightarrow> u64 list"
  sv_active :: "'p \<Rightarrow> nat \<Rightarrow> bool"
  svcntd :: nat
  svptrue_b64 :: 'p
  svptrue_vl :: "nat \<Rightarrow> 'p"
  svindex_u64 :: "u64 \<Rightarrow> u64 \<Rightarrow> 'v"
  sveor_n_u64_z :: "'p \<Rightarrow> 'v \<Rightarrow> u64 \<Rightarrow> 'v"
  svld1_u64 :: "'p \<Rightarrow> u64 list \<Rightarrow> 'v"
  sveor_u64_x :: "'p \<Rightarrow> 'v \<Rightarrow> 'v \<Rightarrow> 'v"
  svtbl_u64 :: "'v \<Rightarrow> 'v \<Rightarrow> 'v"
  svextw_u64_x :: "'p \<Rightarrow> 'v \<Rightarrow> 'v"
  svlsr_n_u64_x :: "'p \<Rightarrow> 'v \<Rightarrow> nat \<Rightarrow> 'v"
  svmad_u64_x :: "'p \<Rightarrow> 'v \<Rightarrow> 'v \<Rightarrow> 'v \<Rightarrow> 'v"
  svadd_u64_x :: "'p \<Rightarrow> 'v \<Rightarrow> 'v \<Rightarrow> 'v"

text \<open>Vectors are a multiple of 128 bits long, up to 2048 bits.\<close>

locale sve =
  fixes ops :: "('v, 'p) sve_ops"
  assumes cnt: "even (svcntd ops)" "2 \<le> svcntd ops" "svcntd ops \<le> 32"
    and ptrue: "j < svcntd ops \<Longrightarrow> sv_active ops (svptrue_b64 ops) j"
    and vl: "k \<le> svcntd ops \<Longrightarrow> k \<in> {2, 4, 8} \<Longrightarrow> j < svcntd ops \<Longrightarrow> sv_active ops (svptrue_vl ops k) j \<longleftrightarrow> j < k"
    and index: "j < svcntd ops \<Longrightarrow> sv_lanes ops (svindex_u64 ops base step) ! j = base + of_nat j * step"
    and eor_n: "j < svcntd ops \<Longrightarrow> sv_active ops p j \<Longrightarrow> sv_lanes ops (sveor_n_u64_z ops p a x) ! j = sv_lanes ops a ! j XOR x"
    and ld1: "j < svcntd ops \<Longrightarrow> sv_active ops p j \<Longrightarrow> j < length xs \<Longrightarrow> sv_lanes ops (svld1_u64 ops p xs) ! j = xs ! j"
    and veor: "j < svcntd ops \<Longrightarrow> sv_active ops p j \<Longrightarrow>
      sv_lanes ops (sveor_u64_x ops p a b) ! j = sv_lanes ops a ! j XOR sv_lanes ops b ! j"
    and tbl: "j < svcntd ops \<Longrightarrow> unat (sv_lanes ops i ! j) < svcntd ops \<Longrightarrow>
      sv_lanes ops (svtbl_u64 ops a i) ! j = sv_lanes ops a ! unat (sv_lanes ops i ! j)"
    and extw: "j < svcntd ops \<Longrightarrow> sv_active ops p j \<Longrightarrow> sv_lanes ops (svextw_u64_x ops p a) ! j = take_bit 32 (sv_lanes ops a ! j)"
    and lsr: "j < svcntd ops \<Longrightarrow> sv_active ops p j \<Longrightarrow> sv_lanes ops (svlsr_n_u64_x ops p a n) ! j = drop_bit n (sv_lanes ops a ! j)"
    and mad: "j < svcntd ops \<Longrightarrow> sv_active ops p j \<Longrightarrow>
      sv_lanes ops (svmad_u64_x ops p a b c) ! j = sv_lanes ops a ! j * sv_lanes ops b ! j + sv_lanes ops c ! j"
    and vadd: "j < svcntd ops \<Longrightarrow> sv_active ops p j \<Longrightarrow>
      sv_lanes ops (svadd_u64_x ops p a b) ! j = sv_lanes ops a ! j + sv_lanes ops b ! j"

text \<open>Bytes read as words of 64 bits, and a store of the active lanes at \<open>off\<close>.\<close>

definition words64 :: "bytes \<Rightarrow> u64 list" where
  "words64 p = map (\<lambda>k. XXH_readLE64 p (8 * k)) [0..<length p div 8]"

definition svst1_u64 :: "('v, 'p) sve_ops \<Rightarrow> 'p \<Rightarrow> u64 list \<Rightarrow> nat \<Rightarrow> 'v \<Rightarrow> u64 list" where
  "svst1_u64 ops pg xs off v =
     map (\<lambda>i. if off \<le> i \<and> i - off < svcntd ops \<and> sv_active ops pg (i - off) then sv_lanes ops v ! (i - off) else xs ! i)
       [0..<length xs]"

definition kSwap :: "('v, 'p) sve_ops \<Rightarrow> 'v" where
  "kSwap ops = sveor_n_u64_z ops (svptrue_b64 ops) (svindex_u64 ops 0 1) 1"

definition ACCRND :: "('v, 'p) sve_ops \<Rightarrow> 'p \<Rightarrow> u64 list \<Rightarrow> u64 list \<Rightarrow> 'v \<Rightarrow> nat \<Rightarrow> 'v" where
  "ACCRND ops pg xinput xsecret acc offset =
     (let input_vec = svld1_u64 ops pg (drop offset xinput);
          secret_vec = svld1_u64 ops pg (drop offset xsecret);
          mixed = sveor_u64_x ops pg secret_vec input_vec;
          swapped = svtbl_u64 ops input_vec (kSwap ops);
          mixed_lo = svextw_u64_x ops pg mixed;
          mixed_hi = svlsr_n_u64_x ops pg mixed 32;
          mul = svmad_u64_x ops pg mixed_lo mixed_hi swapped
      in svadd_u64_x ops pg acc mul)"

definition XXH3_accumulate_512_sve :: "('v, 'p) sve_ops \<Rightarrow> u64 list \<Rightarrow> bytes \<Rightarrow> bytes \<Rightarrow> u64 list" where
  "XXH3_accumulate_512_sve ops xacc input secret =
     (let xinput = words64 input; xsecret = words64 secret; element_count = svcntd ops
      in if 8 \<le> element_count then
           let pg = svptrue_vl ops 8;
               vacc = ACCRND ops pg xinput xsecret (svld1_u64 ops pg xacc) 0
           in svst1_u64 ops pg xacc 0 vacc
         else if element_count = 2 then
           let pg = svptrue_vl ops 2;
               acc0 = svld1_u64 ops pg xacc;
               acc1 = svld1_u64 ops pg (drop 2 xacc);
               acc2 = svld1_u64 ops pg (drop 4 xacc);
               acc3 = svld1_u64 ops pg (drop 6 xacc);
               acc0 = ACCRND ops pg xinput xsecret acc0 0;
               acc1 = ACCRND ops pg xinput xsecret acc1 2;
               acc2 = ACCRND ops pg xinput xsecret acc2 4;
               acc3 = ACCRND ops pg xinput xsecret acc3 6
           in svst1_u64 ops pg (svst1_u64 ops pg (svst1_u64 ops pg (svst1_u64 ops pg xacc 0 acc0) 2 acc1) 4 acc2) 6 acc3
         else
           let pg = svptrue_vl ops 4;
               acc0 = svld1_u64 ops pg xacc;
               acc1 = svld1_u64 ops pg (drop 4 xacc);
               acc0 = ACCRND ops pg xinput xsecret acc0 0;
               acc1 = ACCRND ops pg xinput xsecret acc1 4
           in svst1_u64 ops pg (svst1_u64 ops pg xacc 0 acc0) 4 acc1)"

text \<open>The loops over the stripes keep the accumulators in registers; the input advances by eight
  words, the secret by one.\<close>

definition XXH3_accumulate_sve :: "('v, 'p) sve_ops \<Rightarrow> accumulate_fn" where
  "XXH3_accumulate_sve ops xacc input secret nbStripes =
     (if nbStripes = 0 then xacc
      else
        let rnd = (\<lambda>pg t acc off. ACCRND ops pg (drop (8 * t) (words64 input)) (drop t (words64 secret)) acc off);
            element_count = svcntd ops
        in if 8 \<le> element_count then
             let pg = svptrue_vl ops 8;
                 vacc = foldl (\<lambda>v t. rnd pg t v 0) (svld1_u64 ops pg xacc) [0..<nbStripes]
             in svst1_u64 ops pg xacc 0 vacc
           else if element_count = 2 then
             let pg = svptrue_vl ops 2;
                 (acc0, acc1, acc2, acc3) = foldl (\<lambda>(a0, a1, a2, a3) t. (rnd pg t a0 0, rnd pg t a1 2, rnd pg t a2 4, rnd pg t a3 6))
                   (svld1_u64 ops pg xacc, svld1_u64 ops pg (drop 2 xacc), svld1_u64 ops pg (drop 4 xacc), svld1_u64 ops pg (drop 6 xacc))
                   [0..<nbStripes]
             in svst1_u64 ops pg (svst1_u64 ops pg (svst1_u64 ops pg (svst1_u64 ops pg xacc 0 acc0) 2 acc1) 4 acc2) 6 acc3
           else
             let pg = svptrue_vl ops 4;
                 (acc0, acc1) = foldl (\<lambda>(a0, a1) t. (rnd pg t a0 0, rnd pg t a1 4))
                   (svld1_u64 ops pg xacc, svld1_u64 ops pg (drop 4 xacc)) [0..<nbStripes]
             in svst1_u64 ops pg (svst1_u64 ops pg xacc 0 acc0) 4 acc1)"

lemma words64_nth: "k < length p div 8 \<Longrightarrow> words64 p ! k = XXH_readLE64 p (8 * k)"
  by (simp add: words64_def)

lemma words64_drop: "drop n (words64 p) = words64 (drop (8 * n) p)"
proof (rule nth_equalityI)
  have div: "(length p - 8 * n) div 8 = length p div 8 - n"
  proof (cases "8 * n \<le> length p")
    case True
    then obtain m where "length p = 8 * n + m" using le_Suc_ex by blast
    then show ?thesis by simp
  next
    case False
    then have "length p div 8 < n" by (intro less_mult_imp_div_less) simp
    with False show ?thesis by simp
  qed
  then show "length (drop n (words64 p)) = length (words64 (drop (8 * n) p))" by (simp add: words64_def)
  show "drop n (words64 p) ! i = words64 (drop (8 * n) p) ! i" if "i < length (drop n (words64 p))" for i
  proof -
    have "n + i < length p div 8" using that by (simp add: words64_def)
    moreover from this have "i < (length p - 8 * n) div 8" using div by simp
    ultimately show ?thesis by (simp add: words64_def readLE64_drop algebra_simps)
  qed
qed

text \<open>\<open>k\<close> lanes of a vector hold the accumulators from \<open>off\<close> on.\<close>

definition holds_acc :: "('v, 'p) sve_ops \<Rightarrow> nat \<Rightarrow> 'v \<Rightarrow> u64 list \<Rightarrow> nat \<Rightarrow> bool" where
  "holds_acc ops k v xs off \<longleftrightarrow> (\<forall>j < k. sv_lanes ops v ! j = xs ! (off + j))"

lemma mul_halves: "take_bit 32 x * drop_bit 32 x = mul_low32 x (drop_bit 32 x)"
proof -
  have "ucast (ucast x :: u32) = take_bit 32 x" "ucast (ucast (drop_bit 32 x) :: u32) = drop_bit 32 x"
    by (rule bit_word_eqI; auto simp: bit_simps dest: bit_imp_le_length)+
  then show ?thesis by (simp only: mul_low32_def)
qed

context sve
begin

lemma load_acc:
  assumes "k \<le> svcntd ops" "k \<in> {2, 4, 8}" "off + k \<le> length xs"
  shows "holds_acc ops k (svld1_u64 ops (svptrue_vl ops k) (drop off xs)) xs off"
  using assms by (auto simp: holds_acc_def ld1 vl)

lemma swap_index:
  assumes "j < svcntd ops"
  shows "unat (sv_lanes ops (kSwap ops) ! j) = j XOR 1"
proof -
  have "sv_lanes ops (kSwap ops) ! j = of_nat j XOR 1"
    using assms by (simp add: kSwap_def eor_n index ptrue)
  also have "\<dots> = (of_nat (j XOR 1) :: u64)" by (simp add: of_nat_xor_eq)
  finally have "sv_lanes ops (kSwap ops) ! j = of_nat (j XOR 1)" .
  moreover have "j XOR 1 < 2 ^ 64" using xor_one_less [OF cnt(1) assms] cnt(3) by simp
  ultimately show ?thesis by (simp add: unat_of_nat)
qed

lemma round_acc:
  assumes "k \<le> svcntd ops" "k \<in> {2, 4, 8}" "even off" "off + k \<le> 8" "length a = 8" "64 \<le> length input" "64 \<le> length secret"
    and "holds_acc ops k v a off"
  shows "holds_acc ops k (ACCRND ops (svptrue_vl ops k) (words64 input) (words64 secret) v off) (XXH3_accumulate_512 a input secret) off"
  unfolding holds_acc_def
proof (intro allI impI)
  fix j assume j: "j < k"
  let ?m = "svptrue_vl ops k"
  have act: "i < svcntd ops \<and> sv_active ops ?m i" if "i < k" for i
    using that assms(1,2) vl [of k i] by simp
  have load: "sv_lanes ops (svld1_u64 ops ?m (drop off (words64 p))) ! i = XXH_readLE64 p ((off + i) * 8)"
    if "i < k" "64 \<le> length p" for i p
  proof -
    have "off + i < length p div 8" using that assms(4) by linarith
    then show ?thesis using ld1 [of i ?m "drop off (words64 p)"] act [OF that(1)]
      by (simp add: words64_nth words64_def mult.commute)
  qed
  have "even k" using assms(2) by auto
  then have j1: "j XOR 1 < k" using xor_one_less j by blast
  then have tbl_j: "sv_lanes ops (svtbl_u64 ops w (kSwap ops)) ! j = sv_lanes ops w ! (j XOR 1)" for w
    using tbl [of j "kSwap ops" w] act [OF j] act [OF j1] by (simp add: swap_index)
  have "off + (j XOR 1) = (off + j) XOR 1" using neighbour [OF assms(3)] by simp
  then show "sv_lanes ops (ACCRND ops ?m (words64 input) (words64 secret) v off) ! j
      = XXH3_accumulate_512 a input secret ! (off + j)"
    using act [OF j] assms(4,8) j load [OF j assms(6)] load [OF j assms(7)] load [OF j1 assms(6)]
    by (simp add: ACCRND_def Let_def vadd mad extw lsr veor tbl_j accumulate_512_rounds [OF assms(5)] lane_round_def
        holds_acc_def mul_halves xor.commute add.commute add.left_commute del: drop_bit_xor take_bit_xor)
qed

lemma store_acc:
  assumes "k \<le> svcntd ops" "k \<in> {2, 4, 8}" "off + k \<le> length xs" "holds_acc ops k v b off"
  shows "svst1_u64 ops (svptrue_vl ops k) xs off v = map (\<lambda>i. if off \<le> i \<and> i < off + k then b ! i else xs ! i) [0..<length xs]"
  using assms vl [of k] by (auto simp: svst1_u64_def holds_acc_def)

lemma store_all:
  assumes "length b = 8" "length xs = 8"
  shows "8 \<le> svcntd ops \<Longrightarrow> holds_acc ops 8 v b 0 \<Longrightarrow> svst1_u64 ops (svptrue_vl ops 8) xs 0 v = b"
    and "4 \<le> svcntd ops \<Longrightarrow> holds_acc ops 4 v b 0 \<Longrightarrow> holds_acc ops 4 w b 4 \<Longrightarrow>
      svst1_u64 ops (svptrue_vl ops 4) (svst1_u64 ops (svptrue_vl ops 4) xs 0 v) 4 w = b"
    and "holds_acc ops 2 v b 0 \<Longrightarrow> holds_acc ops 2 w b 2 \<Longrightarrow> holds_acc ops 2 y b 4 \<Longrightarrow> holds_acc ops 2 z b 6 \<Longrightarrow>
      svst1_u64 ops (svptrue_vl ops 2) (svst1_u64 ops (svptrue_vl ops 2) (svst1_u64 ops (svptrue_vl ops 2)
        (svst1_u64 ops (svptrue_vl ops 2) xs 0 v) 2 w) 4 y) 6 z = b"
  using assms cnt(2) by (auto simp: store_acc intro!: nth_equalityI)

lemma rounds_acc:
  assumes "k \<le> svcntd ops" "k \<in> {2, 4, 8}" "even off" "off + k \<le> 8" "length acc = 8"
    and "64 * n \<le> length input" "8 * n + 56 \<le> length secret" "holds_acc ops k v acc off"
  shows "holds_acc ops k (foldl (\<lambda>v t. ACCRND ops (svptrue_vl ops k) (drop (8 * t) (words64 input)) (drop t (words64 secret)) v off) v [0..<n])
    (XXH3_accumulate acc input secret n) off"
  using assms(6,7)
proof (induction n)
  case 0
  then show ?case using assms(8) by (simp add: XXH3_accumulate_def)
next
  case (Suc n)
  have len: "length (XXH3_accumulate acc input secret n) = 8" for n
    using assms(5) by (induction n) (simp_all add: XXH3_accumulate_def)
  have fits: "64 \<le> length (drop (64 * n) input)" "64 \<le> length (drop (8 * n) secret)"
    using Suc.prems by simp_all
  from round_acc [OF assms(1-4) len fits Suc.IH] Suc.prems
  show ?case by (simp add: XXH3_accumulate_def words64_drop xxh_sizes mult.commute)
qed

end

lemma foldl_tuple2: "foldl (\<lambda>(a, b) t. (f t a, g t b)) (x, y) ts = (foldl (\<lambda>a t. f t a) x ts, foldl (\<lambda>a t. g t a) y ts)"
  by (induction ts arbitrary: x y) simp_all

lemma foldl_tuple4:
  "foldl (\<lambda>(a, b, c, d) t. (f t a, g t b, h t c, i t d)) (x, y, z, w) ts
    = (foldl (\<lambda>a t. f t a) x ts, foldl (\<lambda>a t. g t a) y ts, foldl (\<lambda>a t. h t a) z ts, foldl (\<lambda>a t. i t a) w ts)"
  by (induction ts arbitrary: x y z w) simp_all

context sve
begin

lemma sve_accumulate:
  assumes "length acc = 8" "64 * n \<le> length input" "8 * n + 56 \<le> length secret"
  shows "XXH3_accumulate_sve ops acc input secret n = XXH3_accumulate acc input secret n"
proof (cases "n = 0")
  case True
  then show ?thesis by (simp add: XXH3_accumulate_sve_def XXH3_accumulate_def)
next
  case False
  let ?b = "XXH3_accumulate acc input secret n"
  have len: "length ?b = 8"
    using assms(1) by (induction n) (simp_all add: XXH3_accumulate_def)
  have b: "holds_acc ops k (foldl (\<lambda>v t. ACCRND ops (svptrue_vl ops k) (drop (8 * t) (words64 input)) (drop t (words64 secret)) v off)
      (svld1_u64 ops (svptrue_vl ops k) (drop off acc)) [0..<n]) ?b off"
    if "k \<le> svcntd ops" "k \<in> {2, 4, 8}" "even off" "off + k \<le> 8" for k off
    using that assms by (intro rounds_acc load_acc) simp_all
  consider (wide) "8 \<le> svcntd ops" | (narrow) "svcntd ops = 2" | (middle) "\<not> 8 \<le> svcntd ops" "svcntd ops \<noteq> 2" by blast
  then show ?thesis
  proof cases
    case wide
    then show ?thesis using False b [of 8 0] assms(1)
      by (simp add: XXH3_accumulate_sve_def Let_def store_all(1) [OF len])
  next
    case narrow
    then show ?thesis using False b [of 2 0] b [of 2 2] b [of 2 4] b [of 2 6] assms(1)
      by (simp add: XXH3_accumulate_sve_def Let_def foldl_tuple4 store_all(3) [OF len])
  next
    case middle
    then have "4 \<le> svcntd ops" using cnt by presburger
    then show ?thesis using False middle b [of 4 0] b [of 4 4] assms(1)
      by (simp add: XXH3_accumulate_sve_def Let_def foldl_tuple2 store_all(2) [OF len])
  qed
qed

text \<open>One stripe is the loop with one turn.\<close>

lemma sve_accumulate_512:
  assumes "length acc = 8" "64 \<le> length input" "64 \<le> length secret"
  shows "XXH3_accumulate_512_sve ops acc input secret = XXH3_accumulate_512 acc input secret"
proof -
  have "XXH3_accumulate_512_sve ops acc input secret = XXH3_accumulate_sve ops acc input secret 1"
    by (simp add: XXH3_accumulate_512_sve_def XXH3_accumulate_sve_def Let_def)
  also have "\<dots> = XXH3_accumulate acc input secret 1"
    using assms by (intro sve_accumulate) simp_all
  finally show ?thesis by (simp add: XXH3_accumulate_def)
qed

end

section \<open>Machines with these instructions\<close>

text \<open>Pairs of lanes in either byte order, with and without \<open>vec_revb\<close>.\<close>

definition tuple_vsx :: "bool \<Rightarrow> bool \<Rightarrow> (u64 \<times> u64) vsx_ops" where
  "tuple_vsx be has = \<lparr>vsx_be = be, has_revb = has, vsx_lanes = (\<lambda>(x, y). [x, y]), vsx_of_lanes = (\<lambda>xs. (xs ! 0, xs ! 1)),
     vec_of_u32 = (\<lambda>ws. if be then (ucast (ws ! 1) + push_bit 32 (ucast (ws ! 0)), ucast (ws ! 3) + push_bit 32 (ucast (ws ! 2)))
       else (ucast (ws ! 0) + push_bit 32 (ucast (ws ! 1)), ucast (ws ! 2) + push_bit 32 (ucast (ws ! 3)))),
     vec_memcpy = (\<lambda>p. let f = (if be then XXH_swap64 else (\<lambda>x. x)) in (f (XXH_readLE64 p 0), f (XXH_readLE64 p 8))),
     vec_revb = (\<lambda>(x, y). (XXH_swap64 x, XXH_swap64 y)),
     vec_perm = (\<lambda>(x, y) (z, t) c.
       let bs = map (\<lambda>i. (rev (le_enc 8 x) @ rev (le_enc 8 y) @ rev (le_enc 8 z) @ rev (le_enc 8 t)) ! (unat i mod 32)) c
       in (le_dec (rev (take 8 bs)), le_dec (rev (drop 8 bs)))),
     vec_xor = (\<lambda>(x, y) (z, t). (x XOR z, y XOR t)), vec_add = (\<lambda>(x, y) (z, t). (x + z, y + t)),
     vec_rl = (\<lambda>(x, y) (j, k). (word_rotl (unat j mod 64) x, word_rotl (unat k mod 64) y)),
     vec_sr = (\<lambda>(x, y) (j, k). (drop_bit (unat j mod 64) x, drop_bit (unat k mod 64) y)),
     vec_sl = (\<lambda>(x, y) (j, k). (push_bit (unat j mod 64) x, push_bit (unat k mod 64) y)),
     XXH_vec_mulo = (\<lambda>(x, y) (z, t). (mul_low32 x z, mul_low32 y t)),
     XXH_vec_mule = (\<lambda>(x, y) (z, t). (mul_low32 (drop_bit 32 x) (drop_bit 32 z), mul_low32 (drop_bit 32 y) (drop_bit 32 t))),
     vec_xxpermdi = (\<lambda>(x, y) (z, t) k. if k = 2 then (y, z) else (x, z))\<rparr>"

interpretation tuple_vsx: vsx "tuple_vsx be has"
proof unfold_locales
  fix c :: bytes and a b
  assume "length c = 16"
  then show "vsx_bytes (tuple_vsx be has) (vec_perm (tuple_vsx be has) a b c)
      = map (\<lambda>i. (vsx_bytes (tuple_vsx be has) a @ vsx_bytes (tuple_vsx be has) b) ! (unat i mod 32)) c"
    by (cases a; cases b) (simp add: tuple_vsx_def vsx_bytes_def Let_def le_enc_le_dec)
qed (auto simp: tuple_vsx_def Let_def split: prod.splits)

text \<open>Lists of \<open>n\<close> lanes, the first \<open>p\<close> of them active.\<close>

definition list_sve :: "nat \<Rightarrow> (u64 list, nat) sve_ops" where
  "list_sve n = \<lparr>sv_lanes = pad n, sv_active = (\<lambda>p j. j < p), svcntd = n, svptrue_b64 = n,
     svptrue_vl = (\<lambda>k. if k \<le> n then k else 0), svindex_u64 = (\<lambda>b s. map (\<lambda>j. b + of_nat j * s) [0..<n]),
     sveor_n_u64_z = (\<lambda>p a x. map (\<lambda>j. if j < p then pad n a ! j XOR x else 0) [0..<n]),
     svld1_u64 = (\<lambda>p xs. map (\<lambda>j. if j < p then xs ! j else 0) [0..<n]),
     sveor_u64_x = (\<lambda>p a b. map2 (XOR) (pad n a) (pad n b)),
     svtbl_u64 = (\<lambda>a i. map (\<lambda>j. if unat j < n then pad n a ! unat j else 0) (pad n i)),
     svextw_u64_x = (\<lambda>p a. map (take_bit 32) (pad n a)), svlsr_n_u64_x = (\<lambda>p a k. map (drop_bit k) (pad n a)),
     svmad_u64_x = (\<lambda>p a b c. map (\<lambda>j. pad n a ! j * pad n b ! j + pad n c ! j) [0..<n]),
     svadd_u64_x = (\<lambda>p a b. map2 (+) (pad n a) (pad n b))\<rparr>"

lemma list_sve_laws: "even n \<Longrightarrow> 2 \<le> n \<Longrightarrow> n \<le> 32 \<Longrightarrow> sve (list_sve n)"
  by unfold_locales (simp_all add: list_sve_def)

interpretation sve_128: sve "list_sve 2" by (rule list_sve_laws) simp_all

interpretation sve_256: sve "list_sve 4" by (rule list_sve_laws) simp_all

interpretation sve_512: sve "list_sve 8" by (rule list_sve_laws) simp_all

text \<open>C26: the code for VSX, in either byte order and with or without \<open>vec_revb\<close>, and the code for
  SVE, whatever the length of the vectors of the processor, compute what the scalar code computes:
  the accumulation of one stripe and of any number of stripes, and for VSX the scrambling of the
  accumulators. The hypotheses are that the instructions do what their manuals say, that there are eight
  accumulators, and that the input and the secret are as long as the code reads.\<close>

theorem scalable_code_is_scalar:
  assumes "vsx ppc" "sve arm" "length acc = 8" "64 * n \<le> length input" "8 * n + 56 \<le> length secret"
    and "64 \<le> length input" "64 \<le> length secret"
  shows "XXH3_ACCUMULATE_TEMPLATE (XXH3_accumulate_512_vsx ppc) acc input secret n = XXH3_accumulate acc input secret n
    \<and> XXH3_scrambleAcc_vsx ppc acc secret = XXH3_scrambleAcc acc secret
    \<and> XXH3_accumulate_512_sve arm acc input secret = XXH3_accumulate_512 acc input secret
    \<and> XXH3_accumulate_sve arm acc input secret n = XXH3_accumulate acc input secret n"
  using assms accumulate_template [OF vsx.vsx_accumulate [OF assms(1)] assms(3-5)]
  by (simp add: vsx.vsx_scramble sve.sve_accumulate_512 sve.sve_accumulate)

text \<open>Two stripes on a big-endian machine without \<open>vec_revb\<close> and on vectors of 256 bits.\<close>

theorem scalable_code_is_scalar_witness:
  "XXH3_ACCUMULATE_TEMPLATE (XXH3_accumulate_512_vsx (tuple_vsx True False)) XXH3_INIT_ACC (replicate 128 7) XXH3_kSecret 2
      = XXH3_accumulate XXH3_INIT_ACC (replicate 128 7) XXH3_kSecret 2
    \<and> XXH3_accumulate_sve (list_sve 4) XXH3_INIT_ACC (replicate 128 7) XXH3_kSecret 2
      = XXH3_accumulate XXH3_INIT_ACC (replicate 128 7) XXH3_kSecret 2"
  using scalable_code_is_scalar [OF tuple_vsx.vsx_axioms sve_256.sve_axioms, of XXH3_INIT_ACC 2 "replicate 128 7" XXH3_kSecret True False]
  by (simp add: XXH3_INIT_ACC_def XXH3_kSecret_def)

end
