(* ===== verification/XXH_States.thy ===== *)
theory XXH_States
  imports XXH3_Stream XXH_Classic
begin

text \<open>
  \<open>include/xxhash.h\<close>, the states of the streaming interfaces as the caller handles them: created,
  reset, fed, copied, read and freed through pointers. A pool holds the allocated states; a pointer
  is the number of a state, a null pointer is \<open>None\<close>, and numbers are not used again. The locale
  \<open>hash_stream\<close> is what a stream promises of one state; from it follows that a pool of states
  behaves as a pool of byte strings: streams do not disturb each other, and a copy goes on from
  where the original was.
\<close>

section \<open>Pools of states\<close>

record 'st pool =
  pool_states :: "'st option list"

text \<open>\<open>XXH_malloc\<close> and \<open>XXH_free\<close>; \<open>junk\<close> is what the memory contains, \<open>None\<close> when there
  is none.\<close>

definition pool_malloc :: "'st option \<Rightarrow> 'st pool \<Rightarrow> nat option \<times> 'st pool" where
  "pool_malloc junk h =
     (case junk of None \<Rightarrow> (None, h)
      | Some st \<Rightarrow> (Some (length (pool_states h)), h\<lparr>pool_states := pool_states h @ [Some st]\<rparr>))"

definition pool_read :: "nat option \<Rightarrow> 'st pool \<Rightarrow> 'st res" where
  "pool_read p h =
     (case p of None \<Rightarrow> Inl Null_deref
      | Some a \<Rightarrow>
          if a < length (pool_states h)
          then (case pool_states h ! a of None \<Rightarrow> Inl Use_after_free | Some st \<Rightarrow> Inr st)
          else Inl Out_of_bounds)"

definition pool_write :: "nat option \<Rightarrow> 'st \<Rightarrow> 'st pool \<Rightarrow> 'st pool res" where
  "pool_write p st h =
     bindr (pool_read p h) (\<lambda>_.
       case p of None \<Rightarrow> Inl Null_deref | Some a \<Rightarrow> Inr (h\<lparr>pool_states := (pool_states h)[a := Some st]\<rparr>))"

definition pool_free :: "nat option \<Rightarrow> 'st pool \<Rightarrow> 'st pool res" where
  "pool_free p h =
     (case p of None \<Rightarrow> Inr h
      | Some a \<Rightarrow>
          if a < length (pool_states h)
          then (case pool_states h ! a of None \<Rightarrow> Inl Double_free
                | Some _ \<Rightarrow> Inr (h\<lparr>pool_states := (pool_states h)[a := None]\<rparr>))
          else Inl Out_of_bounds)"

section \<open>XXH32, XXH64 and XXH3\<close>

text \<open>The copies are calls of \<open>memcpy\<close>, which may not be given the same state twice.\<close>

definition pool_copy :: "nat option \<Rightarrow> nat option \<Rightarrow> 'st pool \<Rightarrow> 'st pool res" where
  "pool_copy dst src h =
     bindr (pool_read src h) (\<lambda>st. if dst = src then Inl Overlapping_copy else pool_write dst st h)"

definition XXH32_createState :: "XXH32_state_t option \<Rightarrow> XXH32_state_t pool \<Rightarrow> nat option \<times> XXH32_state_t pool" where
  "XXH32_createState junk h = pool_malloc junk h"

definition XXH32_freeState :: "nat option \<Rightarrow> XXH32_state_t pool \<Rightarrow> (XXH_errorcode \<times> XXH32_state_t pool) res" where
  "XXH32_freeState statePtr h = bindr (pool_free statePtr h) (\<lambda>h'. Inr (XXH_OK, h'))"

definition XXH32_copyState :: "nat option \<Rightarrow> nat option \<Rightarrow> XXH32_state_t pool \<Rightarrow> XXH32_state_t pool res" where
  "XXH32_copyState dstState srcState h = pool_copy dstState srcState h"

definition XXH64_createState :: "XXH64_state_t option \<Rightarrow> XXH64_state_t pool \<Rightarrow> nat option \<times> XXH64_state_t pool" where
  "XXH64_createState junk h = pool_malloc junk h"

definition XXH64_freeState :: "nat option \<Rightarrow> XXH64_state_t pool \<Rightarrow> (XXH_errorcode \<times> XXH64_state_t pool) res" where
  "XXH64_freeState statePtr h = bindr (pool_free statePtr h) (\<lambda>h'. Inr (XXH_OK, h'))"

definition XXH64_copyState :: "nat option \<Rightarrow> nat option \<Rightarrow> XXH64_state_t pool \<Rightarrow> XXH64_state_t pool res" where
  "XXH64_copyState dstState srcState h = pool_copy dstState srcState h"

definition XXH3_freeState :: "nat option \<Rightarrow> XXH3_state_t pool \<Rightarrow> (XXH_errorcode \<times> XXH3_state_t pool) res" where
  "XXH3_freeState statePtr h = bindr (pool_free statePtr h) (\<lambda>h'. Inr (XXH_OK, h'))"

definition XXH3_copyState :: "nat option \<Rightarrow> nat option \<Rightarrow> XXH3_state_t pool \<Rightarrow> XXH3_state_t pool res" where
  "XXH3_copyState dst_state src_state h = pool_copy dst_state src_state h"

text \<open>The 128-bit interface of XXH3 resets and updates as the 64-bit one does.\<close>

definition XXH3_128bits_reset :: "XXH3_state_t option \<Rightarrow> XXH_errorcode \<times> XXH3_state_t option" where
  "XXH3_128bits_reset statePtr = XXH3_64bits_reset statePtr"

definition XXH3_128bits_reset_withSecret ::
  "XXH3_state_t option \<Rightarrow> bytes option \<Rightarrow> nat \<Rightarrow> XXH_errorcode \<times> XXH3_state_t option" where
  "XXH3_128bits_reset_withSecret statePtr secret secretSize = XXH3_64bits_reset_withSecret statePtr secret secretSize"

definition XXH3_128bits_reset_withSeed :: "XXH3_state_t option \<Rightarrow> u64 \<Rightarrow> XXH_errorcode \<times> XXH3_state_t option" where
  "XXH3_128bits_reset_withSeed statePtr seed = XXH3_64bits_reset_withSeed statePtr seed"

definition XXH3_128bits_reset_withSecretandSeed ::
  "XXH3_state_t option \<Rightarrow> bytes option \<Rightarrow> nat \<Rightarrow> u64 \<Rightarrow> XXH_errorcode \<times> XXH3_state_t option" where
  "XXH3_128bits_reset_withSecretandSeed statePtr secret secretSize seed =
     XXH3_64bits_reset_withSecretandSeed statePtr secret secretSize seed"

definition XXH3_128bits_update :: "XXH3_state_t \<Rightarrow> bytes option \<Rightarrow> nat \<Rightarrow> XXH3_state_t option" where
  "XXH3_128bits_update = XXH3_update_regular"

text \<open>The operations a caller has on pointers to states of one kind, with seeds of their own type.\<close>

datatype (ops_states: 'st, ops_seeds: 'sd) stream_op =
    Create "'st option"
  | Reset nat 'sd
  | Update nat bytes
  | Copy nat nat
  | Free nat

definition stream_step ::
  "('st option \<Rightarrow> 'st pool \<Rightarrow> nat option \<times> 'st pool) \<Rightarrow> (nat option \<Rightarrow> 'st pool \<Rightarrow> (XXH_errorcode \<times> 'st pool) res)
    \<Rightarrow> (nat option \<Rightarrow> nat option \<Rightarrow> 'st pool \<Rightarrow> 'st pool res) \<Rightarrow> ('sd \<Rightarrow> 'st) \<Rightarrow> ('st \<Rightarrow> bytes option \<Rightarrow> nat \<Rightarrow> 'st res)
    \<Rightarrow> 'st pool \<Rightarrow> ('st, 'sd) stream_op \<Rightarrow> 'st pool res" where
  "stream_step create release copy reset update h op =
     (case op of
        Create junk \<Rightarrow> Inr (snd (create junk h))
      | Reset p seed \<Rightarrow> pool_write (Some p) (reset seed) h
      | Update p bs \<Rightarrow> bindr (pool_read (Some p) h) (\<lambda>st.
          bindr (update st (Some bs) (length bs)) (\<lambda>st'. pool_write (Some p) st' h))
      | Copy d s \<Rightarrow> copy (Some d) (Some s) h
      | Free p \<Rightarrow> bindr (release (Some p) h) (\<lambda>(_, h'). Inr h'))"

fun pool_run :: "('h \<Rightarrow> 'op \<Rightarrow> 'h res) \<Rightarrow> 'h \<Rightarrow> 'op list \<Rightarrow> 'h res" where
  "pool_run f h [] = Inr h"
| "pool_run f h (op # ops) = bindr (f h op) (\<lambda>h'. pool_run f h' ops)"

definition XXH32_step :: "XXH32_state_t pool \<Rightarrow> (XXH32_state_t, u32) stream_op \<Rightarrow> XXH32_state_t pool res" where
  "XXH32_step = stream_step XXH32_createState XXH32_freeState XXH32_copyState XXH32_reset XXH32_update"

definition XXH64_step :: "XXH64_state_t pool \<Rightarrow> (XXH64_state_t, u64) stream_op \<Rightarrow> XXH64_state_t pool res" where
  "XXH64_step = stream_step XXH64_createState XXH64_freeState XXH64_copyState XXH64_reset XXH64_update"

section \<open>Pools of byte strings\<close>

text \<open>What the pools stand for: for every state the seed it was reset with and the bytes fed since
  then, \<open>None\<close> before the first reset. A state must be reset before it is fed.\<close>

type_synonym 'sd string_state = "('sd \<times> bytes) option"

definition string_update :: "'sd string_state \<Rightarrow> bytes option \<Rightarrow> nat \<Rightarrow> 'sd string_state res" where
  "string_update st bs n =
     (case (st, bs) of
        (None, _) \<Rightarrow> Inl Not_reset
      | (Some (seed, xs), None) \<Rightarrow> Inr st
      | (Some (seed, xs), Some ys) \<Rightarrow> Inr (Some (seed, xs @ take n ys)))"

definition string_free :: "nat option \<Rightarrow> 'st pool \<Rightarrow> (XXH_errorcode \<times> 'st pool) res" where
  "string_free p h = bindr (pool_free p h) (\<lambda>h'. Inr (XXH_OK, h'))"

definition string_step :: "'sd string_state pool \<Rightarrow> ('sd string_state, 'sd) stream_op \<Rightarrow> 'sd string_state pool res" where
  "string_step = stream_step pool_malloc string_free pool_copy (\<lambda>seed. Some (seed, [])) string_update"

definition string_op :: "('st, 'sd) stream_op \<Rightarrow> ('sd string_state, 'sd) stream_op" where
  "string_op = map_stream_op (\<lambda>_. None) (\<lambda>seed. seed)"

definition pool_rel :: "('a \<Rightarrow> 'b \<Rightarrow> bool) \<Rightarrow> 'a pool \<Rightarrow> 'b pool \<Rightarrow> bool" where
  "pool_rel R h m \<longleftrightarrow> list_all2 (rel_option R) (pool_states h) (pool_states m)"

lemma pool_rel_malloc:
  "pool_rel R h m \<Longrightarrow> (\<And>st. R st a) \<Longrightarrow>
    pool_rel R (snd (pool_malloc junk h)) (snd (pool_malloc (map_option (\<lambda>_. a) junk) m))"
  by (cases junk) (auto simp: pool_rel_def pool_malloc_def list_all2_appendI)

lemma pool_rel_nth:
  assumes "pool_rel R h m" "p < length (pool_states m)"
  shows "rel_option R (pool_states h ! p) (pool_states m ! p)"
  using assms by (simp add: pool_rel_def list_all2_nthD2)

lemma pool_rel_length: "pool_rel R h m \<Longrightarrow> length (pool_states h) = length (pool_states m)"
  by (simp add: pool_rel_def list_all2_lengthD)

text \<open>A program that feeds a state it never reset is not held to anything.\<close>

definition agrees :: "('a \<Rightarrow> 'b \<Rightarrow> bool) \<Rightarrow> 'a res \<Rightarrow> 'b res \<Rightarrow> bool" where
  "agrees R r s \<longleftrightarrow> s = Inl Not_reset \<or> rel_sum (=) R r s"

lemma agrees_simps [simp]:
  "agrees R r (Inl Not_reset)" "agrees R (Inl e) (Inl e)" "agrees R (Inr x) (Inr y) = R x y"
  by (simp_all add: agrees_def)

lemma pool_rel_read: "pool_rel R h m \<Longrightarrow> agrees R (pool_read p h) (pool_read p m)"
  using pool_rel_nth [of R h m "the p"] pool_rel_length [of R h m]
  by (auto simp: pool_read_def agrees_def split: option.splits)

lemma pool_rel_update: "pool_rel R h m \<Longrightarrow> rel_option R x y \<Longrightarrow>
    pool_rel R (h\<lparr>pool_states := (pool_states h)[p := x]\<rparr>) (m\<lparr>pool_states := (pool_states m)[p := y]\<rparr>)"
  by (simp add: pool_rel_def list_all2_update_cong)

lemma bindr_agrees:
  assumes "agrees R r s" "\<And>x y. R x y \<Longrightarrow> agrees S (f x) (g y)"
  shows "agrees S (bindr r f) (bindr s g)"
  using assms by (cases r; cases s) (auto simp: agrees_def)

lemma pool_rel_write: "pool_rel R h m \<Longrightarrow> R x y \<Longrightarrow> agrees (pool_rel R) (pool_write p x h) (pool_write p y m)"
  unfolding pool_write_def
  by (rule bindr_agrees [where R = R, OF pool_rel_read]) (auto split: option.splits intro!: pool_rel_update)

lemma pool_rel_copy: "pool_rel R h m \<Longrightarrow> agrees (pool_rel R) (pool_copy d s h) (pool_copy d s m)"
  unfolding pool_copy_def by (rule bindr_agrees [where R = R, OF pool_rel_read]) (auto intro: pool_rel_write)

lemma pool_rel_free: "pool_rel R h m \<Longrightarrow> agrees (pool_rel R) (pool_free p h) (pool_free p m)"
  using pool_rel_nth [of R h m "the p"] pool_rel_length [of R h m]
  by (auto simp: pool_free_def agrees_def split: option.splits intro!: pool_rel_update)

section \<open>Streams as strings\<close>

locale hash_stream =
  fixes reset :: "'sd \<Rightarrow> 'st" and update :: "'st \<Rightarrow> bytes option \<Rightarrow> nat \<Rightarrow> 'st res" and digest :: "'st \<Rightarrow> 'h"
    and hash :: "'sd \<Rightarrow> bytes \<Rightarrow> 'h" and short :: "bytes \<Rightarrow> bool"
  assumes one_shot: "\<exists>st. updates update (reset seed) ps = Inr st
      \<and> (short (concat ps) \<longrightarrow> digest st = hash seed (concat ps))"
begin

definition stands_for :: "'st \<Rightarrow> 'sd string_state \<Rightarrow> bool" where
  "stands_for st a \<longleftrightarrow>
     (\<forall>seed xs. a = Some (seed, xs) \<longrightarrow> (\<exists>ps. concat ps = xs \<and> updates update (reset seed) ps = Inr st))"

lemma stands_for_update:
  assumes "stands_for st a"
  shows "agrees stands_for (update st (Some bs) (length bs)) (string_update a (Some bs) (length bs))"
proof (cases a)
  case (Some x)
  obtain seed xs where x: "x = (seed, xs)" by (cases x)
  obtain ps where ps: "concat ps = xs" "updates update (reset seed) ps = Inr st"
    using assms by (auto simp: stands_for_def Some x)
  obtain st' where st': "updates update (reset seed) (ps @ [bs]) = Inr st'" using one_shot by blast
  then have "update st (Some bs) (length bs) = Inr st'"
    by (cases "update st (Some bs) (length bs)") (simp_all add: updates_append ps(2))
  moreover have "stands_for st' (Some (seed, xs @ bs))"
    using ps(1) st' by (auto simp: stands_for_def intro!: exI [of _ "ps @ [bs]"])
  ultimately show ?thesis by (simp add: Some x string_update_def)
qed (simp add: string_update_def)

lemma step_related:
  assumes "pool_rel stands_for h m"
  shows "agrees (pool_rel stands_for)
    (stream_step pool_malloc string_free pool_copy reset update h op) (string_step m (string_op op))"
proof (cases op)
  case (Create junk)
  then show ?thesis using pool_rel_malloc [OF assms, of None junk]
    by (simp add: stream_step_def string_step_def string_op_def stands_for_def)
next
  case (Reset p seed)
  have "stands_for (reset seed) (Some (seed, []))" by (auto simp: stands_for_def intro: exI [of _ "[]"])
  then show ?thesis using Reset pool_rel_write [OF assms] by (simp add: stream_step_def string_step_def string_op_def)
next
  case (Update p bs)
  have "agrees (pool_rel stands_for)
      (bindr (update st (Some bs) (length bs)) (\<lambda>st'. pool_write (Some p) st' h))
      (bindr (string_update a (Some bs) (length bs)) (\<lambda>a'. pool_write (Some p) a' m))" if "stands_for st a" for st a
    using bindr_agrees [OF stands_for_update [OF that] pool_rel_write [OF assms]] .
  from bindr_agrees [OF pool_rel_read [OF assms] this] show ?thesis
    by (simp add: Update stream_step_def string_step_def string_op_def)
next
  case (Copy d s)
  then show ?thesis
    using pool_rel_copy [OF assms] by (simp add: stream_step_def string_step_def string_op_def)
next
  case (Free p)
  then show ?thesis
    using bindr_agrees [OF pool_rel_free [OF assms], of "pool_rel stands_for" Inr Inr]
    by (simp add: stream_step_def string_step_def string_op_def string_free_def bindr_assoc)
qed

lemma run_related:
  assumes "\<And>h op. f h op = stream_step pool_malloc string_free pool_copy reset update h op"
    and "pool_rel stands_for h m"
  shows "agrees (pool_rel stands_for) (pool_run f h ops) (pool_run string_step m (map string_op ops))"
  using assms(2)
proof (induction ops arbitrary: h m)
  case (Cons op ops)
  then show ?case using bindr_agrees [OF step_related [OF Cons.prems] Cons.IH] by (simp add: assms(1))
qed simp

lemma run_digests:
  assumes "\<And>h op. f h op = stream_step pool_malloc string_free pool_copy reset update h op"
  shows "case pool_run string_step \<lparr>pool_states = []\<rparr> (map string_op ops) of
      Inl e \<Rightarrow> e = Not_reset \<or> pool_run f \<lparr>pool_states = []\<rparr> ops = Inl e
    | Inr m \<Rightarrow> \<exists>h. pool_run f \<lparr>pool_states = []\<rparr> ops = Inr h
        \<and> (\<forall>p seed xs. pool_read (Some p) m = Inr (Some (seed, xs)) \<and> short xs \<longrightarrow>
            (\<exists>st. pool_read (Some p) h = Inr st \<and> digest st = hash seed xs))"
proof -
  have "pool_rel stands_for \<lparr>pool_states = []\<rparr> \<lparr>pool_states = []\<rparr>" by (simp add: pool_rel_def)
  note rel = run_related [of f, OF assms this, of ops]
  show ?thesis
  proof (cases "pool_run string_step \<lparr>pool_states = []\<rparr> (map string_op ops)")
    case (Inl e)
    then show ?thesis using rel by (auto simp: agrees_def rel_sum.simps)
  next
    case (Inr m)
    then obtain h where h: "pool_run f \<lparr>pool_states = []\<rparr> ops = Inr h" "pool_rel stands_for h m"
      using rel by (auto simp: agrees_def rel_sum.simps)
    have "\<exists>st. pool_read (Some p) h = Inr st \<and> digest st = hash seed xs"
      if p: "pool_read (Some p) m = Inr (Some (seed, xs))" "short xs" for p seed xs
    proof -
      obtain st ps where "pool_read (Some p) h = Inr st" "concat ps = xs" "updates update (reset seed) ps = Inr st"
        using pool_rel_read [OF h(2), of "Some p"] p(1) by (auto simp: agrees_def rel_sum.simps stands_for_def)
      then show ?thesis using one_shot [of seed ps] p(2) by auto
    qed
    then show ?thesis using Inr h(1) by simp
  qed
qed

end

interpretation s32: hash_stream XXH32_reset XXH32_update XXH32_digest "\<lambda>seed xs. XXH32 xs (length xs) seed" "\<lambda>_. True"
  by unfold_locales (simp add: XXH32_updates_feed XXH32_feeds(2))

interpretation s64: hash_stream XXH64_reset XXH64_update XXH64_digest "\<lambda>seed xs. XXH64 xs (length xs) seed"
  "\<lambda>xs. length xs < 2 ^ 64"
  by unfold_locales (simp add: XXH64_updates_feed XXH64_feeds(2))

lemma XXH32_step_eq: "XXH32_step h op = stream_step pool_malloc string_free pool_copy XXH32_reset XXH32_update h op"
  by (simp add: XXH32_step_def XXH32_createState_def XXH32_freeState_def XXH32_copyState_def string_free_def stream_step_def
      split: stream_op.splits)

lemma XXH64_step_eq: "XXH64_step h op = stream_step pool_malloc string_free pool_copy XXH64_reset XXH64_update h op"
  by (simp add: XXH64_step_def XXH64_createState_def XXH64_freeState_def XXH64_copyState_def string_free_def stream_step_def
      split: stream_op.splits)

text \<open>C27: any program on the states of XXH32 or XXH64 that creates, resets, feeds, copies and frees
  states, in any number and order, but resets a state before it feeds it, behaves as one on byte
  strings: it fails exactly when and as that one does (a use of freed memory, a second
  \<open>free\<close>, a copy of a state onto itself, a pointer to no state), in particular no assertion
  of an update fails, and otherwise the digest of every state that was reset is the one-shot hash,
  with the seed of its last reset, of the bytes it stands for. For XXH64 they are fewer than 2^64
  bytes.\<close>

theorem streams_are_strings:
  "(case pool_run string_step \<lparr>pool_states = []\<rparr> (map string_op ops32) of
      Inl e \<Rightarrow> e = Not_reset \<or> pool_run XXH32_step \<lparr>pool_states = []\<rparr> ops32 = Inl e
    | Inr m \<Rightarrow> \<exists>h. pool_run XXH32_step \<lparr>pool_states = []\<rparr> ops32 = Inr h
        \<and> (\<forall>p seed xs. pool_read (Some p) m = Inr (Some (seed, xs)) \<longrightarrow>
            (\<exists>st. pool_read (Some p) h = Inr st \<and> XXH32_digest st = XXH32 xs (length xs) seed)))
   \<and> (case pool_run string_step \<lparr>pool_states = []\<rparr> (map string_op ops64) of
      Inl e \<Rightarrow> e = Not_reset \<or> pool_run XXH64_step \<lparr>pool_states = []\<rparr> ops64 = Inl e
    | Inr m \<Rightarrow> \<exists>h. pool_run XXH64_step \<lparr>pool_states = []\<rparr> ops64 = Inr h
        \<and> (\<forall>p seed xs. pool_read (Some p) m = Inr (Some (seed, xs)) \<and> length xs < 2 ^ 64 \<longrightarrow>
            (\<exists>st. pool_read (Some p) h = Inr st \<and> XXH64_digest st = XXH64 xs (length xs) seed)))"
  using s32.run_digests [of XXH32_step, OF XXH32_step_eq] s64.run_digests [of XXH64_step, OF XXH64_step_eq]
  by (simp cong: sum.case_cong)

text \<open>A state is fed, copied, and both go on; a freed state is used.\<close>

theorem streams_are_strings_witness:
  "(\<exists>h st st'. pool_run XXH32_step \<lparr>pool_states = []\<rparr>
        [Create (Some (XXH32_reset 9)), Reset 0 5, Update 0 [1, 2], Create (Some (XXH32_reset 0)), Copy 1 0, Update 1 [3], Update 0 [4]] = Inr h
      \<and> pool_read (Some 0) h = Inr st \<and> XXH32_digest st = XXH32 [1, 2, 4] 3 5
      \<and> pool_read (Some 1) h = Inr st' \<and> XXH32_digest st' = XXH32 [1, 2, 3] 3 5)
   \<and> pool_run XXH64_step \<lparr>pool_states = []\<rparr> [Create (Some (XXH64_reset 0)), Free 0, Update 0 [1]] = Inl Use_after_free"
proof -
  note evaluate = string_op_def string_step_def string_update_def string_free_def pool_copy_def stream_step_def pool_malloc_def pool_read_def pool_write_def pool_free_def
  let ?ops32 = "[Create (Some (XXH32_reset 9)), Reset 0 5, Update 0 [1, 2], Create (Some (XXH32_reset 0)), Copy 1 0, Update 1 [3], Update 0 [4]]"
  let ?ops64 = "[Create (Some (XXH64_reset 0)), Free 0, Update 0 [1]]"
  have m: "pool_run string_step \<lparr>pool_states = []\<rparr> (map string_op ?ops32)
      = Inr \<lparr>pool_states = [Some (Some (5, [1, 2, 4])), Some (Some (5, [1, 2, 3]))]\<rparr>"
    by (simp add: evaluate)
  have e: "pool_run string_step \<lparr>pool_states = []\<rparr> (map string_op ?ops64) = Inl Use_after_free"
    by (simp add: evaluate)
  obtain h where h: "pool_run XXH32_step \<lparr>pool_states = []\<rparr> ?ops32 = Inr h"
    and digests: "\<And>p seed xs. pool_read (Some p) \<lparr>pool_states = [Some (Some (5 :: u32, [1, 2, 4])), Some (Some (5, [1, 2, 3]))]\<rparr> = Inr (Some (seed, xs))
      \<Longrightarrow> \<exists>st. pool_read (Some p) h = Inr st \<and> XXH32_digest st = XXH32 xs (length xs) seed"
    and freed: "pool_run XXH64_step \<lparr>pool_states = []\<rparr> ?ops64 = Inl Use_after_free"
    using streams_are_strings [of ?ops32 ?ops64, unfolded m e] by (auto simp del: pool_run.simps)
  have len: "length [1, 2, 4 :: u8] = 3" "length [1, 2, 3 :: u8] = 3" by simp_all
  obtain st where "pool_read (Some 0) h = Inr st" "XXH32_digest st = XXH32 [1, 2, 4] 3 5"
    using digests [of 0 5 "[1, 2, 4]", unfolded len] by (auto simp: pool_read_def [of _ "\<lparr>pool_states = _\<rparr>"])
  moreover obtain st' where "pool_read (Some 1) h = Inr st'" "XXH32_digest st' = XXH32 [1, 2, 3] 3 5"
    using digests [of 1 5 "[1, 2, 3]", unfolded len] by (auto simp: pool_read_def [of _ "\<lparr>pool_states = _\<rparr>"])
  ultimately show ?thesis using h freed by blast
qed

end
