(* ===== verification/Spec2Isabelle.thy ===== *)
theory Spec2Isabelle
  imports Log_File Spsc Batcher_Threads Raft_Votes Server_Main Server_Handshake Server_Interleave XXH3_Stream XXH_Classic XXH_Canonical XXH3_Vector XXH3_Scalable XXH_States
begin

text \<open>
  Oceanliner, a replicated key-value store in C: each server keeps the commands it is given in a
  log file and in RocksDB and replicates them to the other servers in the manner of Raft. This is
  the root of a model of its sources, with the theorems about it.

  \<^bold>\<open>The program.\<close> A server (\<open>src/main.c\<close>) reads its cluster from \<open>cluster.txt\<close>, opens a
  log file, the store and the sockets, connects to the other servers and runs seven threads.
  Clients send commands in datagrams to \<open>thread_1\<close>, which collects them in batches, writes
  apart from reads. \<open>thread_3\<close> sends a batch of writes to the other servers and waits for a
  quorum of answers, which \<open>thread_2\<close> receives and hands on; it then logs the batch and queues
  the writes for \<open>thread_5\<close> and the reads for \<open>thread_4\<close>, which work on the store and answer
  the clients. On a follower \<open>thread_2\<close> answers requests, logs the batches it accepts and queues
  them for \<open>thread_5\<close>. \<open>thread_6\<close> and \<open>thread_7\<close> are timers. The threads share the state
  of the node and talk through queues (\<open>src/spsc.c\<close>). Beside the server stands a second
  implementation of Raft, \<open>src/raft_core.c\<close>, with its own log of entries, handlers, elections,
  command batcher, state machine and adaptive timeout; \<open>main.c\<close> uses only its node structure,
  its messages, \<open>raft_init\<close> and \<open>raft_become_leader\<close>.

  \<^bold>\<open>The theories.\<close> The lower ones are independent libraries, as in the sources.
    \<^item> \<open>Prelude\<close>: machine integers, outcomes of C code, little-endian encodings, buffers.
    \<^item> \<open>Globals\<close>: \<open>globals.h\<close>, \<open>globals.c\<close>: operation codes, alignment, \<open>fsizeof\<close>,
      \<open>sleep_milisec\<close>.
    \<^item> \<open>xxhash.h\<close>: \<open>XXH3\<close> (constants, arithmetic, 128-bit hashes up to 240 bytes),
      \<open>XXH3_Long\<close> (64-bit hashes, long inputs, all one-shot functions), \<open>XXH3_Stream\<close> (the
      streaming interface), \<open>XXH_Classic\<close> (XXH32, XXH64 and their streams), \<open>XXH_Canonical\<close>
      (canonical forms, aligned memory, generated secrets), \<open>XXH3_Vector\<close> (the code for SSE2, AVX2,
      AVX-512, NEON, LSX and LASX), \<open>XXH3_Scalable\<close> (VSX, SVE), \<open>XXH_States\<close> (states behind
      pointers: creating, copying, freeing).
    \<^item> \<open>Kvs_Command\<close>: the layout of a command and its accessors (\<open>log_file.c\<close>).
    \<^item> \<open>Log_File\<close>: \<open>log_file.h\<close>, \<open>log_file.c\<close>: headers, checksums, appending, reading back.
    \<^item> \<open>Spsc\<close>: \<open>spsc.c\<close> over GLib's queue. \<open>Heap\<close>: blocks, \<open>malloc\<close> and \<open>free\<close>.
    \<^item> \<open>Kv_Store\<close>, \<open>Kv_State_Machine\<close>: \<open>kv_store.c\<close> over RocksDB, \<open>kv_state_machine.c\<close>.
    \<^item> \<open>Command_Batcher\<close>: the operations of \<open>command_batcher.c\<close>; \<open>Batcher_Threads\<close>: its
      processor threads and callers, access by access. \<open>Adaptive_Timeout\<close>: \<open>adaptive_timeout.c\<close>.
    \<^item> \<open>Raft_State\<close>, \<open>Raft_Rpc\<close>, \<open>Raft_Apply\<close>: the node, transitions and log; the handlers
      and senders; applying entries and client commands: \<open>raft_core.h\<close>, \<open>raft_core.c\<close>,
      \<open>raft_core_adaptive.c\<close>. \<open>Raft_Runs\<close>: sequences of these operations on one node;
      \<open>Raft_Votes\<close>: the same sequences with the votes given, and elections among many nodes.
    \<^item> \<open>Server_Net\<close>: \<open>parse_ip_addr\<close>. \<open>Server_Cluster\<close>: \<open>init_cluster\<close>,
      \<open>set_cluster_comms_nonblocking\<close>, \<open>init_logfile\<close>, \<open>init_channels\<close>, and
      \<open>init_client_listeners\<close> of \<open>network.c\<close>. \<open>Server_Handshake\<close>: all servers of a cluster in
      \<open>init_cluster\<close> at once.
    \<^item> \<open>Server_Messages\<close>: \<open>thread_2\<close>, \<open>thread_2_old\<close>. \<open>Server_Leader\<close>: \<open>thread_1\<close>,
      \<open>thread_3\<close>, \<open>thread_6\<close>, \<open>thread_7\<close>.
    \<^item> \<open>Server_Store\<close>: \<open>thread_4\<close>, \<open>thread_5\<close> with their variants \<open>thread_4_old\<close> and
      \<open>thread_5_new\<close>, and \<open>client_ops.c\<close>.
    \<^item> \<open>Server_Main\<close>: \<open>main\<close>, and all threads together as the step relation
      \<open>server_step\<close>, whose steps are passes. \<open>Server_Interleave\<close>: the path of a write
      through \<open>thread_2\<close>, \<open>thread_3\<close> and \<open>thread_5\<close> as the step relation \<open>path_step\<close>, whose
      steps are single accesses to the log file, a queue, the store or the state of the node.

  \<^bold>\<open>How the code is modelled.\<close> A function of the code is a definition of the same name; structures
  are records, enumerations datatypes (with a constructor for values outside), integers words of
  their width, structures in transit their bytes. A failed assertion, \<open>exit\<close>, an access outside
  a buffer, a use of freed memory, a double \<open>free\<close>, a \<open>memcpy\<close> of an object onto itself and a lock
  of a held mutex are the errors of \<open>c_error\<close>; an operation that can fail that way has the type \<open>res\<close>. Answers of the operating
  system and of \<open>malloc\<close> are arguments. A loop that waits for the outside is given the list of
  outcomes it meets, and \<open>None\<close> is the value when it still waits at the end of the list; a
  liveness statement names outcomes after which it returns. Loops bounded by data are recursive
  functions with a measure: a command is at least 32 bytes long, so every walk over commands ends
  (\<open>command_walk_terminates\<close>). Two loops of \<open>xxhash.h\<close> can run forever on states no function
  creates (\<open>consume_blocks\<close>, \<open>fill_secret\<close>): they are partial functions, \<open>None\<close> stands for
  not returning, and the theorems show that they return. A loop of a thread is one pass as a function, and passes are
  composed by step relations. There is no fuel. Time is counted in clock ticks (100000 are the 0.1
  seconds of \<open>thread_1\<close>), doubles are reals with a rounding function. The numbers
  \<open>cmdbuf_room\<close> and \<open>batch_limit\<close> are those of the code: the buffer without its header, and
  the fill at which \<open>thread_1\<close> stops; one more command of 2048 bytes still fits.

  \<^bold>\<open>Parameters.\<close> RocksDB, GLib's queue, liburing and the vector intrinsics are not in the repository. They are arguments of
  the definitions, with what they document as the locales \<open>rocksdb_store\<close> (which
  \<open>reliable_rocksdb\<close> extends to a database without errors), \<open>glib_async_queue\<close>, \<open>simd\<close>, \<open>avx512\<close>, \<open>neon\<close>, \<open>vsx\<close>, \<open>sve\<close> and the predicate
  \<open>reads_headers\<close>; each is shown to be satisfiable by an instance. The contracts of our own code
  are the locales \<open>fifo_channel\<close> (the spsc queue), \<open>kv_contract\<close> (the store) and
  \<open>command_machine\<close> (what the apply loop needs of the state machine); sublocale proofs give them
  from the models of \<open>spsc.c\<close>, \<open>kv_store.c\<close> and \<open>kv_state_machine.c\<close>. \<open>block_consumer\<close> is
  what the streams of XXH32 and XXH64 share, \<open>hash_stream\<close> what their callers rely on.

  \<^bold>\<open>What is shown.\<close>
    \<^item> Encodings: commands, messages, log records and the configuration file are read back as they
      were written; every walk over received bytes ends; accepted messages are well typed.
    \<^item> The server: messages are put together however they are cut, when the reads find the pieces; a batch holds the commands
      received, in order; what \<open>thread_3\<close> sends makes a follower log the same record; \<open>thread_5\<close>
      refines the map from keys to values. When passes are taken as atomic, the log leads the
      store, which holds exactly the writes of the logged batches but those still queued. Between any
      two accesses to shared data, with one thread appending, the log leads the store as well and
      what a client is answered is in the store. The threads hold no lock across appending and
      queueing; that two of them append is excluded in the last statement and takes a leader that
      gets past its quorum loop.
    \<^item> \<open>raft_core.c\<close>: election safety among nodes with ids other than 0, as long as
      \<open>raft_become_follower\<close> is called with higher terms only and no election starts in the
      largest term; the node invariant, the effect of both handlers on every branch, application in
      log order. The batcher loses and repeats nothing in any interleaving of clients, processor
      threads, starts, stops and flushes, and delivers in order when starts and stops do not
      overlap and nothing is flushed.
    \<^item> The start: in every interleaving the servers of a cluster connect pairwise and all of them
      come out of \<open>init_cluster\<close>; what each does is a run of the function \<open>init_cluster\<close>.
    \<^item> Hashing: an input fed to a stream in any pieces gives the hash of the whole, for XXH32, XXH64
      and both widths of XXH3; hashes survive their canonical form; the secret generated from a
      seed is the one that the seeded hash uses; the vector code computes what the scalar code does;
      any number of streams behind pointers, reset before they are fed, are as many byte strings.
    \<^item> The other components: fifo queues, store contracts, bounds of the adaptive timeout.
    \<^item> Where the code does not do what it means to, the theorem says what it does: no server of
      \<open>main.c\<close> ever leads (no thread starts an election), no batch of term 1 or later reaches its
      quorum, votes are given twice and their responses never arrive, a closed connection or a
      long value ends or corrupts a server, prepared responses refer to local objects
      out of scope, nothing
      is ever committed in \<open>raft_core.c\<close>, timeouts fire at once, freed blocks stay in the log,
      stepping down with a batch in progress deadlocks.

  \<^bold>\<open>Assumptions and limits.\<close> Hosts are little-endian with 64-bit pointers and sizes. The build has
  assertions; in it \<open>thread_1\<close> starts with zeroed buffers. \<open>main.c\<close> does not compile against
  \<open>raft_core.h\<close>: it uses \<open>last_applied_index\<close>, \<open>last_applied_term\<close>, \<open>RAFT_HEARTBEAT\<close>,
  an array of entries in the append request and another signature of \<open>raft_init\<close>. The first two
  are fields of the server state here, initially 0, the third is a parameter, the entries are a
  command buffer at the offset that \<open>raft_core.h\<close> gives them, and the last is read as the
  declared function.

  \<^bold>\<open>Not modelled.\<close> Interleavings inside the handlers of \<open>thread_2\<close> other than on the path of a
  write (the lock protects single fields there); epoll (an event names a socket with data); short
  sends; printing. Of \<open>xxhash.h\<close> the compiler configuration and, outside the VSX code, the paths of
  big-endian machines are left out, as are the test programs and the scripts.
  \<open>hl_connect\<close> is declared and has no definition.
\<close>

end
